(* ===== verification/Prelude.thy ===== *)
theory Prelude
  imports Main "HOL-Library.Char_ord" "HOL-Library.Sublist"
begin

text \<open>
  Shared vocabulary of the development: Python text and bytes as HOL strings, the operations of
  \<open>str\<close> and \<open>bytes\<close> the sources use, decimal numbers, and the generic lemmas the components
  share.

  A Python \<open>str\<close> is a \<open>string\<close> (a list of \<open>char\<close>): its code points are those below 256. All
  operations used by the sources (lower-casing included) stay inside this range. A Python \<open>bytes\<close>
  value is a \<open>string\<close> too: a \<open>char\<close> is exactly one byte.
\<close>

named_theorems text_simps \<open>characteristic equations of the text operations\<close>

type_synonym pystr = string
type_synonym bytes = string

section \<open>Character classes\<close>

definition between :: "char \<Rightarrow> char \<Rightarrow> char \<Rightarrow> bool" where
  "between lo hi c \<longleftrightarrow> lo \<le> c \<and> c \<le> hi"

definition is_digit :: "char \<Rightarrow> bool" where
  "is_digit c \<longleftrightarrow> between (CHR ''0'') (CHR ''9'') c"

definition printable_ascii :: "char \<Rightarrow> bool" where
  "printable_ascii c \<longleftrightarrow> between CHR 0x20 CHR 0x7E c"

lemma printable_no_newline: "list_all printable_ascii l \<Longrightarrow> CHR 0x0A \<notin> set l"
  by (auto simp: list_all_iff printable_ascii_def between_def)

lemma between_of_char: "between lo hi c \<longleftrightarrow>
    (of_char lo :: nat) \<le> of_char c \<and> (of_char c :: nat) \<le> of_char hi"
  by (simp add: between_def less_eq_char_def)

section \<open>Prefixes, suffixes, splitting\<close>

text \<open>\<open>s.startswith(p)\<close> and \<open>s.endswith(p)\<close> are the library's \<open>prefix p s\<close> and \<open>suffix p s\<close>.\<close>

definition split_head :: "char \<Rightarrow> pystr \<Rightarrow> pystr" where
  \<comment> \<open>\<open>s.split(c, 1)[0]\<close>\<close>
  "split_head c s = takeWhile (\<lambda>x. x \<noteq> c) s"

definition rsplit_last :: "char \<Rightarrow> pystr \<Rightarrow> pystr" where
  \<comment> \<open>\<open>s.rsplit(c, 1)[-1]\<close>\<close>
  "rsplit_last c s = rev (takeWhile (\<lambda>x. x \<noteq> c) (rev s))"

definition rstrip :: "(char \<Rightarrow> bool) \<Rightarrow> pystr \<Rightarrow> pystr" where
  \<comment> \<open>\<open>s.rstrip(chars)\<close>\<close>
  "rstrip p s = rev (dropWhile p (rev s))"

lemma split_head_notin [simp]: "c \<notin> set s \<Longrightarrow> split_head c s = s"
  by (induction s) (auto simp: split_head_def)

lemma split_head_append [simp]: "c \<notin> set s \<Longrightarrow> split_head c (s @ c # t) = s"
  by (induction s) (auto simp: split_head_def)

lemma set_split_head: "c \<notin> set (split_head c s)"
  by (auto simp: split_head_def dest: set_takeWhileD)

lemma rsplit_last_notin [simp]: "c \<notin> set s \<Longrightarrow> rsplit_last c s = s"
proof -
  assume "c \<notin> set s"
  then have "takeWhile (\<lambda>x. x \<noteq> c) (rev s) = rev s"
    by (auto simp: takeWhile_eq_all_conv)
  then show ?thesis unfolding rsplit_last_def by (simp only: rev_rev_ident)
qed

lemma rsplit_last_append [simp]: "c \<notin> set t \<Longrightarrow> rsplit_last c (s @ c # t) = t"
proof -
  assume "c \<notin> set t"
  then have "takeWhile (\<lambda>x. x \<noteq> c) (rev t @ c # rev s) = rev t"
    by (subst takeWhile_append2) auto
  then show ?thesis by (simp add: rsplit_last_def)
qed

lemma rsplit_last_append': "t \<noteq> [] \<Longrightarrow> c \<notin> set t \<Longrightarrow> rsplit_last c (s @ [c] @ t) = t"
  using rsplit_last_append[of c t s] by simp

lemma rstrip_append_stripped: "list_all p t \<Longrightarrow> rstrip p (s @ t) = rstrip p s"
  by (simp add: rstrip_def dropWhile_append list_all_iff)

lemma rstrip_id: "s = [] \<or> \<not> p (last s) \<Longrightarrow> rstrip p s = s"
  by (cases s rule: rev_cases) (auto simp: rstrip_def)

lemma rstrip_last: "rstrip p s \<noteq> [] \<Longrightarrow> \<not> p (last (rstrip p s))"
  by (auto simp: rstrip_def last_rev dropWhile_eq_Cons_conv hd_dropWhile)

lemma set_rstrip: "set (rstrip p s) \<subseteq> set s"
  by (auto simp: rstrip_def dest: set_dropWhileD)

lemmas [text_simps] = split_head_notin split_head_append rsplit_last_notin rsplit_last_append

fun split_on :: "char \<Rightarrow> string \<Rightarrow> string list" where
  \<comment> \<open>\<open>s.split(c)\<close>\<close>
  "split_on x [] = [[]]"
| "split_on x (c # s) =
     (if c = x then [] # split_on x s
      else (case split_on x s of [] \<Rightarrow> [[c]] | p # ps \<Rightarrow> (c # p) # ps))"

fun join_on :: "char \<Rightarrow> string list \<Rightarrow> string" where
  "join_on x [] = []"
| "join_on x [p] = p"
| "join_on x (p # q # ps) = p @ x # join_on x (q # ps)"

lemma split_on_nonempty [simp]: "split_on x s \<noteq> []"
  by (induction s) (auto split: list.split)

lemma split_on_single [simp]: "x \<notin> set s \<Longrightarrow> split_on x s = [s]"
  by (induction s) auto

lemma split_on_many: "x \<in> set s \<Longrightarrow> \<exists>p q qs. split_on x s = p # q # qs"
proof (induction s)
  case (Cons b s)
  then show ?case by (cases "split_on x s") (auto split: if_splits)
qed simp

lemma split_on_append: "split_on x (u @ x # v) = split_on x u @ split_on x v"
proof (induction u)
  case (Cons c u)
  then show ?case by (cases "split_on x u") auto
qed simp

lemma split_on_notin_append [simp]: "x \<notin> set u \<Longrightarrow> split_on x (u @ x # v) = u # split_on x v"
  by (simp add: split_on_append)

lemma join_on_Cons: "ps \<noteq> [] \<Longrightarrow> join_on x (p # ps) = p @ x # join_on x ps"
  by (cases ps) auto

lemma join_split_on [simp]: "join_on x (split_on x s) = s"
proof (induction s)
  case (Cons c s)
  then show ?case
    by (cases "split_on x s"; cases "tl (split_on x s)") (auto simp: join_on_Cons)
qed simp

lemma join_on_append: "xs \<noteq> [] \<Longrightarrow> ys \<noteq> [] \<Longrightarrow>
    join_on x (xs @ ys) = join_on x xs @ x # join_on x ys"
  by (induction x xs rule: join_on.induct) (auto simp: join_on_Cons)

lemma split_on_inj: "split_on x s = split_on x t \<longleftrightarrow> s = t"
  by (metis join_split_on)

lemma suffix_map: "suffix s t \<Longrightarrow> suffix (map f s) (map f t)"
  by (auto simp: suffix_def)

lemma suffix_same_length: "suffix a c \<Longrightarrow> suffix b c \<Longrightarrow> length a = length b \<Longrightarrow> a = b"
  by (auto simp: suffix_def append_eq_append_conv2)

section \<open>Lower case\<close>

text \<open>
  \<open>str.lower()\<close> on code points below 256: the letters A to Z and the accented capitals 0xC0 to 0xDE
  (all but the multiplication sign 0xD7) move up by 32. The names of HTTP headers are compared after
  \<open>bytes.lower()\<close>, which changes the ASCII letters only.
\<close>

definition lower_char :: "char \<Rightarrow> char" where
  "lower_char c =
     (if between (CHR ''A'') (CHR ''Z'') c \<or> between CHR 0xC0 CHR 0xD6 c \<or> between CHR 0xD8 CHR 0xDE c
      then char_of (of_char c + (32::nat)) else c)"

definition lower :: "pystr \<Rightarrow> pystr" where
  "lower s = map lower_char s"

definition ascii_lower_char :: "char \<Rightarrow> char" where
  "ascii_lower_char c =
     (if between (CHR ''A'') (CHR ''Z'') c then char_of (of_char c + (32::nat)) else c)"

definition ascii_lower :: "bytes \<Rightarrow> bytes" where
  "ascii_lower s = map ascii_lower_char s"

lemma of_char_lower_char: "(of_char (lower_char c) :: nat) =
    (if between (CHR ''A'') (CHR ''Z'') c \<or> between CHR 0xC0 CHR 0xD6 c \<or> between CHR 0xD8 CHR 0xDE c
     then of_char c + 32 else of_char c)"
  by (auto simp: lower_char_def between_of_char of_char_of)

lemma lower_char_idem [simp]: "lower_char (lower_char c) = lower_char c"
proof -
  have "(of_char (lower_char (lower_char c)) :: nat) = of_char (lower_char c)"
    by (auto simp: of_char_lower_char between_of_char)
  then show ?thesis by simp
qed

lemma lower_idem [simp]: "lower (lower s) = lower s"
  by (simp add: lower_def)

lemma lower_append [simp]: "lower (s @ t) = lower s @ lower t"
  by (simp add: lower_def)

lemma lower_Nil_iff [simp]: "lower s = [] \<longleftrightarrow> s = []"
  by (simp add: lower_def)

lemma length_lower [simp]: "length (lower s) = length s"
  by (simp add: lower_def)

lemma lower_char_fixed: "of_char c < (65::nat) \<or> (90 < (of_char c::nat) \<and> of_char c < (192::nat)) \<Longrightarrow> lower_char c = c"
  by (auto simp: lower_char_def between_of_char)

lemma lower_char_eq_low:
  assumes "of_char d < (65::nat)" shows "lower_char c = d \<longleftrightarrow> c = d"
proof
  assume "lower_char c = d"
  then have "(of_char (lower_char c) :: nat) = of_char d" by simp
  with assms have "(of_char c :: nat) = of_char d"
    by (auto simp: of_char_lower_char between_of_char split: if_splits)
  then show "c = d" by simp
qed (use assms in \<open>simp add: lower_char_fixed\<close>)

section \<open>Decimal numbers\<close>

text \<open>\<open>str(n)\<close> / \<open>%d\<close> of an integer and \<open>int(s)\<close> of a string of ASCII digits.\<close>

definition digit :: "nat \<Rightarrow> char" where
  "digit d = char_of (48 + d)"

definition digit_val :: "char \<Rightarrow> nat" where
  "digit_val c = of_char c - 48"

fun dec :: "nat \<Rightarrow> pystr" where
  "dec n = (if n < 10 then [digit n] else dec (n div 10) @ [digit (n mod 10)])"

declare dec.simps [simp del]

definition dec_int :: "int \<Rightarrow> pystr" where
  "dec_int i = (if i < 0 then CHR ''-'' # dec (nat (- i)) else dec (nat i))"

definition parse_dec :: "pystr \<Rightarrow> nat" where
  "parse_dec s = foldl (\<lambda>n c. 10 * n + digit_val c) 0 s"

lemma digit_val_digit [simp]: "d < 10 \<Longrightarrow> digit_val (digit d) = d"
  by (simp add: digit_val_def digit_def of_char_of)

lemma is_digit_digit [simp]: "d < 10 \<Longrightarrow> is_digit (digit d)"
  by (simp add: is_digit_def digit_def between_of_char of_char_of)

lemma digit_val_less: "is_digit c \<Longrightarrow> digit_val c < 10"
  by (auto simp: is_digit_def between_of_char digit_val_def)

lemma parse_dec_snoc [simp]: "parse_dec (s @ [c]) = 10 * parse_dec s + digit_val c"
  by (simp add: parse_dec_def)

lemma parse_dec_dec [simp]: "parse_dec (dec n) = n"
proof (induction n rule: dec.induct)
  case (1 n)
  then show ?case
    by (subst dec.simps) (simp add: parse_dec_def[of "[_]"])
qed

lemma dec_digits: "list_all is_digit (dec n)"
proof (induction n rule: dec.induct)
  case (1 n)
  then show ?case by (subst dec.simps) simp
qed

lemma dec_nonempty [simp]: "dec n \<noteq> []"
  by (subst dec.simps) simp

lemma is_digit_printable: "is_digit c \<Longrightarrow> printable_ascii c"
  by (auto simp: is_digit_def printable_ascii_def between_of_char)

lemma dec_int_printable: "list_all printable_ascii (dec_int i)"
proof -
  have "list_all printable_ascii (dec n)" for n
    using dec_digits[of n] by (auto simp: list_all_iff is_digit_printable)
  then show ?thesis by (simp add: dec_int_def printable_ascii_def between_of_char)
qed

lemma parse_dec_bound: "list_all is_digit s \<Longrightarrow> parse_dec s < 10 ^ length s"
proof (induction s rule: rev_induct)
  case (snoc c s)
  then have "parse_dec s < 10 ^ length s" and "digit_val c < 10"
    by (simp_all add: digit_val_less)
  then show ?case by simp
qed (simp add: parse_dec_def)

end
