(* ===== verification/Regex.thy ===== *)
theory Regex
  imports Prelude
begin

text \<open>
  The part of Python's \<open>re\<close> the sources use: literals, character classes, alternation,
  concatenation, \<open>?\<close>, \<open>*\<close>, \<open>+\<close> and \<open>{1,n}\<close>, matched with \<open>fullmatch\<close>. \<open>fullmatch\<close> is an executable
  matcher by derivatives; \<open>lang\<close> is the set of strings a pattern denotes, and \<open>fullmatch_lang\<close>
  relates the two. The patterns of guard.py are written in this type by the theories that use them.
\<close>

section \<open>Patterns and their language\<close>

type_synonym char_ranges = "(char \<times> char) list"

datatype rx = Eps | Cls char_ranges | Cat rx rx | Alt rx rx | Star rx

definition cls_mem :: "char_ranges \<Rightarrow> char \<Rightarrow> bool" where
  "cls_mem rs c \<longleftrightarrow> list_ex (\<lambda>(lo, hi). between lo hi c) rs"

inductive_set star_lang :: "string set \<Rightarrow> string set" for L where
  star_nil [intro, simp]: "[] \<in> star_lang L"
| star_app [intro]: "u \<in> L \<Longrightarrow> v \<in> star_lang L \<Longrightarrow> u @ v \<in> star_lang L"

primrec lang :: "rx \<Rightarrow> string set" where
  "lang Eps = {[]}"
| "lang (Cls rs) = {[c] |c. cls_mem rs c}"
| "lang (Cat r s) = {u @ v |u v. u \<in> lang r \<and> v \<in> lang s}"
| "lang (Alt r s) = lang r \<union> lang s"
| "lang (Star r) = star_lang (lang r)"

definition Lit :: "string \<Rightarrow> rx" where
  "Lit s = foldr (\<lambda>c. Cat (Cls [(c, c)])) s Eps"

definition Opt :: "rx \<Rightarrow> rx" where
  "Opt r = Alt r Eps"

definition Plus :: "rx \<Rightarrow> rx" where
  "Plus r = Cat r (Star r)"

fun Rep1 :: "nat \<Rightarrow> rx \<Rightarrow> rx" where
  \<comment> \<open>\<open>r{1,n}\<close>, for \<open>n\<close> at least 1\<close>
  "Rep1 (Suc (Suc n)) r = Cat r (Opt (Rep1 (Suc n) r))"
| "Rep1 _ r = r"

lemma between_same [simp]: "between a a c \<longleftrightarrow> c = a"
  by (auto simp: between_def)

lemma lang_Lit [simp]: "lang (Lit s) = {s}"
  by (induction s) (auto simp: Lit_def cls_mem_def)

lemma lang_Opt [simp]: "lang (Opt r) = insert [] (lang r)"
  by (auto simp: Opt_def)

lemma lang_Star_Cls [simp]: "lang (Star (Cls rs)) = {s. list_all (cls_mem rs) s}"
proof (intro set_eqI iffI)
  fix s assume "s \<in> lang (Star (Cls rs))"
  then have "s \<in> star_lang (lang (Cls rs))" by simp
  then show "s \<in> {s. list_all (cls_mem rs) s}"
    by (induction rule: star_lang.induct) auto
next
  fix s assume "s \<in> {s. list_all (cls_mem rs) s}"
  then have "list_all (cls_mem rs) s" by simp
  then have "s \<in> star_lang (lang (Cls rs))"
  proof (induction s)
    case (Cons c s)
    then have "[c] @ s \<in> star_lang (lang (Cls rs))" by (intro star_app) auto
    then show ?case by simp
  qed simp
  then show "s \<in> lang (Star (Cls rs))" by simp
qed

lemma cls_mem_Nil [simp]: "\<not> cls_mem [] c"
  by (simp add: cls_mem_def)

lemma lang_Cat_Cls: "lang (Cat (Cls rs) r) = {c # s |c s. cls_mem rs c \<and> s \<in> lang r}"
proof (intro set_eqI iffI)
  fix s assume "s \<in> {c # s |c s. cls_mem rs c \<and> s \<in> lang r}"
  then obtain c t where "s = [c] @ t" "cls_mem rs c" "t \<in> lang r" by auto
  then show "s \<in> lang (Cat (Cls rs) r)" by (simp only: lang.simps) blast
qed auto

lemma lang_Plus_Cls [simp]: "lang (Plus (Cls rs)) = {s. s \<noteq> [] \<and> list_all (cls_mem rs) s}"
proof (intro set_eqI)
  fix s
  show "s \<in> lang (Plus (Cls rs)) \<longleftrightarrow> s \<in> {s. s \<noteq> [] \<and> list_all (cls_mem rs) s}"
    by (cases s) (simp_all add: Plus_def lang_Cat_Cls del: lang.simps)
qed

lemma lang_Rep1_Cls: "lang (Rep1 (Suc n) (Cls rs)) =
    {s. s \<noteq> [] \<and> length s \<le> Suc n \<and> list_all (cls_mem rs) s}"
proof (induction n)
  case 0
  show ?case by (auto simp: length_Suc_conv le_Suc_eq)
next
  case (Suc n)
  show ?case
  proof (intro set_eqI iffI)
    fix s assume "s \<in> {s. s \<noteq> [] \<and> length s \<le> Suc (Suc n) \<and> list_all (cls_mem rs) s}"
    then obtain c t where s: "s = [c] @ t" "cls_mem rs c" "length t \<le> Suc n" "list_all (cls_mem rs) t"
      by (cases s) auto
    then have "t \<in> lang (Opt (Rep1 (Suc n) (Cls rs)))" by (simp add: Suc.IH)
    with s show "s \<in> lang (Rep1 (Suc (Suc n)) (Cls rs))"
      by (auto simp: lang_Cat_Cls simp del: lang.simps)
  qed (auto simp: Suc.IH)
qed

section \<open>The matcher\<close>

primrec nullable :: "rx \<Rightarrow> bool" where
  "nullable Eps = True"
| "nullable (Cls rs) = False"
| "nullable (Cat r s) = (nullable r \<and> nullable s)"
| "nullable (Alt r s) = (nullable r \<or> nullable s)"
| "nullable (Star r) = True"

primrec deriv :: "char \<Rightarrow> rx \<Rightarrow> rx" where
  "deriv c Eps = Cls []"
| "deriv c (Cls rs) = (if cls_mem rs c then Eps else Cls [])"
| "deriv c (Cat r s) =
     (if nullable r then Alt (Cat (deriv c r) s) (deriv c s) else Cat (deriv c r) s)"
| "deriv c (Alt r s) = Alt (deriv c r) (deriv c s)"
| "deriv c (Star r) = Cat (deriv c r) (Star r)"

definition fullmatch :: "rx \<Rightarrow> string \<Rightarrow> bool" where
  "fullmatch r s = nullable (fold deriv s r)"

lemma nullable_lang: "nullable r \<longleftrightarrow> [] \<in> lang r"
  by (induction r) auto

lemma star_lang_Cons: "c # s \<in> star_lang L \<Longrightarrow> \<exists>u v. s = u @ v \<and> c # u \<in> L \<and> v \<in> star_lang L"
proof (induction "c # s" arbitrary: s rule: star_lang.induct)
  case (star_app u v)
  show ?case
  proof (cases u)
    case Nil
    with star_app show ?thesis by simp
  next
    case (Cons a u')
    with star_app have "s = u' @ v" "c # u' \<in> L" by auto
    with star_app show ?thesis by blast
  qed
qed

lemma deriv_lang: "s \<in> lang (deriv c r) \<longleftrightarrow> c # s \<in> lang r"
proof (induction r arbitrary: s)
  case (Cls rs)
  then show ?case by (auto simp: cls_mem_def)
next
  case (Cat r1 r2)
  have "c # s \<in> lang (Cat r1 r2) \<longleftrightarrow>
      ([] \<in> lang r1 \<and> c # s \<in> lang r2) \<or> (\<exists>u v. s = u @ v \<and> c # u \<in> lang r1 \<and> v \<in> lang r2)"
    by (auto simp: Cons_eq_append_conv)
  then show ?case by (auto simp: Cat.IH nullable_lang)
next
  case (Star r)
  show ?case
  proof
    assume "s \<in> lang (deriv c (Star r))"
    then obtain u v where s: "s = u @ v" "u \<in> lang (deriv c r)" "v \<in> star_lang (lang r)"
      by auto
    then have "(c # u) @ v \<in> star_lang (lang r)" by (intro star_app) (simp_all add: Star.IH)
    with s show "c # s \<in> lang (Star r)" by simp
  next
    assume "c # s \<in> lang (Star r)"
    then show "s \<in> lang (deriv c (Star r))"
      by (auto simp: Star.IH dest!: star_lang_Cons)
  qed
qed auto

lemma fold_deriv_lang: "t \<in> lang (fold deriv s r) \<longleftrightarrow> s @ t \<in> lang r"
  by (induction s arbitrary: r) (auto simp: deriv_lang)

lemma fullmatch_lang: "fullmatch r s \<longleftrightarrow> s \<in> lang r"
  using fold_deriv_lang[of "[]" s r] by (simp add: fullmatch_def nullable_lang)

end
