(* ===== verification/Hosts.thy ===== *)
theory Hosts
  imports Regex
begin

text \<open>
  Host names of guard.py: \<open>normalize_host\<close> (lower case, one trailing dot dropped) and
  \<open>is_ip_literal\<close>, which must recognise an IP address in every spelling the resolver accepts. The
  spellings the C resolver reads as an IPv4 address are written out as \<open>inet_aton_form\<close>.
\<close>

definition normalize_host :: "pystr \<Rightarrow> pystr" where
  "normalize_host host = (let host = lower host in if suffix ''.'' host then butlast host else host)"

definition NUMERIC_LABEL :: rx where
  "NUMERIC_LABEL =
     Alt (Plus (Cls [(CHR ''0'', CHR ''9'')]))
         (Cat (Lit ''0x'') (Star (Cls [(CHR ''0'', CHR ''9''), (CHR ''a'', CHR ''f'')])))"

definition is_ip_literal :: "pystr \<Rightarrow> bool" where
  "is_ip_literal host =
     (if CHR '':'' \<in> set host \<or> prefix ''['' host then True
      else fullmatch NUMERIC_LABEL (rsplit_last (CHR ''.'') host))"

section \<open>Normalisation\<close>

lemma suffix_dot: "suffix ''.'' s \<longleftrightarrow> s \<noteq> [] \<and> last s = CHR ''.''"
  by (cases s rule: rev_cases) (auto simp: suffix_def)

lemma lower_dot_iff [simp]: "lower_char c = CHR ''.'' \<longleftrightarrow> c = CHR ''.''"
  by (rule lower_char_eq_low) simp

lemma last_lower: "s \<noteq> [] \<Longrightarrow> last (lower s) = lower_char (last s)"
  by (simp add: lower_def last_map)

lemma suffix_dot_lower: "suffix ''.'' (lower s) \<longleftrightarrow> suffix ''.'' s"
  by (cases "s = []") (simp_all add: suffix_dot last_lower)

lemma normalize_host_alt: "normalize_host s = (if suffix ''.'' s then butlast (lower s) else lower s)"
  by (simp add: normalize_host_def Let_def suffix_dot_lower)

lemma normalize_host_snoc_dot: "\<not> suffix ''.'' s \<Longrightarrow> normalize_host (s @ ''.'') = normalize_host s"
  by (auto simp: normalize_host_alt suffix_dot lower_def)

lemma lower_normalize [simp]: "lower (normalize_host s) = normalize_host s"
proof -
  have "lower_char \<circ> lower_char = lower_char" by (simp add: fun_eq_iff)
  then show ?thesis by (simp add: normalize_host_alt lower_def map_butlast)
qed

lemma normalize_host_cong: "lower s = lower t \<Longrightarrow> normalize_host s = normalize_host t"
  by (metis normalize_host_alt suffix_dot_lower)

lemma normalize_host_fixed:
  "\<not> suffix ''.'' (normalize_host s) \<Longrightarrow> normalize_host (normalize_host s) = normalize_host s"
  by (subst normalize_host_alt) simp

section \<open>Numeric labels\<close>

lemma lang_NUMERIC_LABEL: "s \<in> lang NUMERIC_LABEL \<longleftrightarrow>
    (s \<noteq> [] \<and> list_all is_digit s) \<or>
    (\<exists>t. s = ''0x'' @ t \<and> list_all (\<lambda>c. is_digit c \<or> between (CHR ''a'') (CHR ''f'') c) t)"
proof -
  have "cls_mem [(CHR ''0'', CHR ''9'')] = is_digit"
    by (auto simp: cls_mem_def is_digit_def)
  moreover have "cls_mem [(CHR ''0'', CHR ''9''), (CHR ''a'', CHR ''f'')] =
      (\<lambda>c. is_digit c \<or> between (CHR ''a'') (CHR ''f'') c)"
    by (auto simp: cls_mem_def is_digit_def)
  ultimately show ?thesis
    unfolding NUMERIC_LABEL_def lang.simps(3,4) lang_Plus_Cls lang_Star_Cls lang_Lit by auto
qed

text \<open>
  The numbers of the C library's address parser: decimal and octal (digits only) or \<open>0x\<close>/\<open>0X\<close> and
  hexadecimal digits in either case. An IPv4 address is one to four of them with dots in between.
\<close>

definition hex_digit :: "char \<Rightarrow> bool" where
  "hex_digit c \<longleftrightarrow> is_digit c \<or> between (CHR ''a'') (CHR ''f'') c \<or> between (CHR ''A'') (CHR ''F'') c"

definition c_number :: "string \<Rightarrow> bool" where
  "c_number s \<longleftrightarrow> s \<noteq> [] \<and> list_all is_digit s \<or>
     (prefix ''0x'' s \<or> prefix ''0X'' s) \<and> list_all hex_digit (drop 2 s)"

abbreviation split_dots :: "string \<Rightarrow> string list" where
  "split_dots \<equiv> split_on (CHR ''.'')"

definition inet_aton_form :: "string \<Rightarrow> bool" where
  "inet_aton_form s \<longleftrightarrow> length (split_dots s) \<le> 4 \<and> list_all c_number (split_dots s)"



lemma rsplit_last_Cons: "rsplit_last c (a # s) =
    (if c \<in> set s then rsplit_last c s else if a = c then s else a # s)"
proof (cases "c \<in> set s")
  case True
  then obtain u v where "s = u @ c # v" "c \<notin> set v" by (metis split_list_last)
  then show ?thesis using rsplit_last_append[of c v "a # u"] by simp
next
  case False
  then show ?thesis using rsplit_last_append[of c s "[]"] by auto
qed

lemma last_split_dots: "last (split_dots s) = rsplit_last (CHR ''.'') s"
proof (induction s)
  case (Cons a s)
  show ?case
    using Cons split_on_many[of "CHR ''.''" s]
    by (auto simp: rsplit_last_Cons split: list.splits)
qed (simp add: rsplit_last_def)

lemma lower_char_hex: "hex_digit c \<Longrightarrow> is_digit (lower_char c) \<or> between (CHR ''a'') (CHR ''f'') (lower_char c)"
  by (auto simp: hex_digit_def is_digit_def between_of_char of_char_lower_char)

lemma lower_digits: "list_all is_digit s \<Longrightarrow> lower s = s"
proof -
  assume s: "list_all is_digit s"
  have "lower_char c = c" if "c \<in> set s" for c
  proof -
    from s that have "is_digit c" by (simp add: list_all_iff)
    then have "of_char c < (65::nat)" by (simp add: is_digit_def between_of_char)
    then show ?thesis by (simp add: lower_char_fixed)
  qed
  then show ?thesis unfolding lower_def by (rule map_idI)
qed

lemma c_numberD: "c_number s \<Longrightarrow> (s \<noteq> [] \<and> list_all is_digit s) \<or>
    (\<exists>x t. s = CHR ''0'' # x # t \<and> (x = CHR ''x'' \<or> x = CHR ''X'') \<and> list_all hex_digit t)"
  unfolding c_number_def prefix_def by (elim disjE conjE exE) simp_all

lemma c_number_lower: "c_number s \<Longrightarrow> lower s \<in> lang NUMERIC_LABEL"
proof -
  assume "c_number s"
  then consider "s \<noteq> []" "list_all is_digit s"
    | x t where "s = CHR ''0'' # x # t" "x = CHR ''x'' \<or> x = CHR ''X''" "list_all hex_digit t"
    using c_numberD by blast
  then show ?thesis
  proof cases
    case 1
    then show ?thesis by (simp add: lang_NUMERIC_LABEL lower_digits)
  next
    case 2
    have "lower_char (CHR ''0'') = CHR ''0''" "lower_char (CHR ''x'') = CHR ''x''"
      "lower_char (CHR ''X'') = CHR ''x''" by code_simp+
    moreover have "list_all (\<lambda>c. is_digit c \<or> between (CHR ''a'') (CHR ''f'') c) (lower t)"
      using 2(3) lower_char_hex by (auto simp: lower_def list_all_iff)
    ultimately have "lower s = ''0x'' @ lower t"
      using 2(1,2) by (auto simp: lower_def)
    with \<open>list_all _ (lower t)\<close> show ?thesis
      unfolding lang_NUMERIC_LABEL by blast
  qed
qed

lemma rsplit_last_lower: "rsplit_last (CHR ''.'') (lower s) = lower (rsplit_last (CHR ''.'') s)"
proof -
  have "takeWhile ((\<lambda>x. x \<noteq> CHR ''.'') \<circ> lower_char) t = takeWhile (\<lambda>x. x \<noteq> CHR ''.'') t" for t
    by (induction t) auto
  then show ?thesis
    by (simp add: rsplit_last_def lower_def rev_map takeWhile_map)
qed

lemma is_ip_literal_numeric:
  "fullmatch NUMERIC_LABEL (rsplit_last (CHR ''.'') s) \<Longrightarrow> is_ip_literal s"
  by (simp add: is_ip_literal_def)

lemma c_number_no_dot: "c_number s \<Longrightarrow> \<not> suffix ''.'' s"
proof
  assume s: "c_number s" "suffix ''.'' s"
  then have ne: "s \<noteq> []" and l: "last s = CHR ''.''" by (simp_all add: suffix_dot)
  have "\<not> hex_digit (CHR ''.'')" "\<not> is_digit (CHR ''.'')"
    by (simp_all add: hex_digit_def is_digit_def between_def)
  then show False
  proof (cases "list_all is_digit s")
    case True
    with ne l \<open>\<not> is_digit _\<close> show False by (metis last_in_set list_all_iff)
  next
    case False
    with s(1) have "prefix ''0x'' s \<or> prefix ''0X'' s" and h: "list_all hex_digit (drop 2 s)"
      by (auto simp: c_number_def)
    then obtain x t where "s = CHR ''0'' # x # t" "x = CHR ''x'' \<or> x = CHR ''X''"
      by (auto simp: prefix_def)
    with h l have "t \<noteq> []" "list_all hex_digit t" "last t = CHR ''.''"
      by (auto split: if_splits)
    then have "hex_digit (CHR ''.'')" by (metis last_in_set list_all_iff)
    with \<open>\<not> hex_digit _\<close> show False by contradiction
  qed
qed

lemma suffix_dot_rsplit: "suffix ''.'' s \<Longrightarrow> rsplit_last (CHR ''.'') s = []"
  by (cases s rule: rev_cases) (auto simp: suffix_dot rsplit_last_def)

lemma numeric_last_label_is_ip:
  assumes "c_number (rsplit_last (CHR ''.'') s)"
  shows "is_ip_literal (normalize_host s)" and "is_ip_literal (normalize_host (s @ ''.''))"
proof -
  have nd: "\<not> suffix ''.'' s"
  proof
    assume "suffix ''.'' s"
    then have "rsplit_last (CHR ''.'') s = []" by (rule suffix_dot_rsplit)
    with assms show False by (simp add: c_number_def)
  qed
  then have "normalize_host s = lower s" by (simp add: normalize_host_alt)
  moreover have "fullmatch NUMERIC_LABEL (rsplit_last (CHR ''.'') (lower s))"
    using assms by (simp add: fullmatch_lang rsplit_last_lower c_number_lower)
  ultimately show "is_ip_literal (normalize_host s)"
    by (simp add: is_ip_literal_numeric)
  with nd show "is_ip_literal (normalize_host (s @ ''.''))"
    by (simp add: normalize_host_snoc_dot)
qed

lemma inet_aton_last: "inet_aton_form s \<Longrightarrow> c_number (rsplit_last (CHR ''.'') s)"
  by (simp add: inet_aton_form_def list_all_iff flip: last_split_dots)

lemma lower_colon_iff: "CHR '':'' \<in> set (lower s) \<longleftrightarrow> CHR '':'' \<in> set s"
proof -
  have "CHR '':'' = lower_char c \<longleftrightarrow> c = CHR '':''" for c
    using lower_char_eq_low[of "CHR '':''" c] by (simp add: eq_commute)
  then show ?thesis by (simp add: lower_def image_iff)
qed

lemma bracket_normalize: "prefix ''['' s \<Longrightarrow> prefix ''['' (normalize_host s)"
proof -
  assume "prefix ''['' s"
  then obtain t where s: "s = CHR ''['' # t" by (auto simp: prefix_def)
  have "lower_char (CHR ''['') = CHR ''[''" by code_simp
  with s show ?thesis by (auto simp: normalize_host_alt lower_def suffix_dot)
qed

lemma colon_normalize: "CHR '':'' \<in> set s \<Longrightarrow> CHR '':'' \<in> set (normalize_host s)"
proof -
  assume "CHR '':'' \<in> set s"
  then have "CHR '':'' \<in> set (lower s)" by (simp add: lower_colon_iff)
  moreover have "CHR '':'' \<in> set (butlast t)" if "CHR '':'' \<in> set t" "suffix ''.'' t" for t
    using that by (auto simp: suffix_def)
  ultimately show ?thesis by (simp add: normalize_host_def Let_def)
qed

end
