(* ===== verification/Entries.thy ===== *)
theory Entries
  imports Hosts
begin

text \<open>
  Entries of a guest's allowlist (class \<open>Entry\<close> and \<open>parse_entry\<close> of guard.py): the pattern of an
  entry's key, its parts, when an entry matches a destination and how specific it is. The exceptions
  of guard.py are the constructors of \<open>exn\<close>, each with the value its message names.
\<close>

datatype exn =
    InvalidEntry pystr \<comment> \<open>\<open>ValueError: invalid policy entry\<close>\<close>
  | InvalidPort pystr \<comment> \<open>\<open>ValueError: invalid port in policy entry\<close>\<close>
  | BadCredential pystr \<comment> \<open>\<open>ValueError: credential ...: empty or not printable ASCII\<close>\<close>
  | KeyError pystr
  | FileNotFoundError pystr
  | UnicodeDecodeError pystr
  | JSONDecodeError
  | OtherError pystr \<comment> \<open>any other exception a callback may raise, with its message\<close>

section \<open>The pattern\<close>

definition WORD :: char_ranges where
  "WORD = [(CHR ''a'', CHR ''z''), (CHR ''0'', CHR ''9''), (CHR ''_'', CHR ''_'')]"

definition HOSTCHAR :: char_ranges where
  "HOSTCHAR = [(CHR ''a'', CHR ''z''), (CHR ''0'', CHR ''9''), (CHR ''.'', CHR ''.''),
               (CHR ''_'', CHR ''_''), (CHR ''-'', CHR ''-'')]"

definition DIGIT :: char_ranges where
  "DIGIT = [(CHR ''0'', CHR ''9'')]"

definition HOST :: rx where
  "HOST = Cat (Cls WORD) (Opt (Cat (Star (Cls HOSTCHAR)) (Cls WORD)))"

definition PORT :: rx where
  "PORT = Rep1 5 (Cls DIGIT)"

definition ENTRY :: rx where
  "ENTRY = Cat (Opt (Alt (Lit ''*.'') (Lit ''.''))) (Cat HOST (Opt (Cat (Lit '':'') PORT)))"

text \<open>
  \<open>ENTRY.fullmatch(key)\<close> with its three groups. A key's parts are determined: no host begins with
  a star or a dot, and no host has a colon; \<open>entry_groups_iff\<close> shows that the split below is the
  one match the pattern has.
\<close>

definition entry_groups :: "pystr \<Rightarrow> (pystr option \<times> pystr \<times> pystr option) option" where
  "entry_groups key =
     (let (w, r) = (if prefix ''*.'' key then (Some ''*.'', drop 2 key)
                    else if prefix ''.'' key then (Some ''.'', drop 1 key) else (None, key));
          h = split_head (CHR '':'') r
      in if fullmatch HOST h
         then (case drop (length h) r of
                 [] \<Rightarrow> Some (w, h, None)
               | _ # d \<Rightarrow> if fullmatch PORT d then Some (w, h, Some d) else None)
         else None)"

section \<open>Entries\<close>

record entry =
  e_key :: pystr
  e_host :: pystr
  e_wildcard :: pystr
  e_port :: "int option"
  e_inject :: "(pystr \<times> pystr) list"

definition DEFAULT_PORTS :: "int set" where
  "DEFAULT_PORTS = {80, 443}"

definition matches :: "entry \<Rightarrow> pystr \<Rightarrow> int \<Rightarrow> bool" where
  "matches e host port =
     (if port \<notin> (case e_port e of Some p \<Rightarrow> {p} | None \<Rightarrow> DEFAULT_PORTS) then False
      else if host = e_host e then e_wildcard e \<noteq> ''*.''
      else e_wildcard e \<noteq> '''' \<and> suffix (''.'' @ e_host e) host)"

definition rank :: "entry \<Rightarrow> bool \<times> nat \<times> bool" where
  "rank e = (e_wildcard e = '''', length (e_host e), e_port e \<noteq> None)"

definition or_empty :: "pystr option \<Rightarrow> pystr" where
  \<comment> \<open>\<open>m["wild"] or ""\<close>\<close>
  "or_empty w = (case w of None \<Rightarrow> '''' | Some s \<Rightarrow> s)"

definition parse_entry :: "pystr \<Rightarrow> (pystr \<times> pystr) list \<Rightarrow> exn + entry" where
  "parse_entry key inject =
     (case entry_groups key of
        None \<Rightarrow> Inl (InvalidEntry key)
      | Some (w, h, p) \<Rightarrow>
          (let port = map_option (\<lambda>d. int (parse_dec d)) p
           in case port of
                Some n \<Rightarrow> if \<not> (0 < n \<and> n < 65536) then Inl (InvalidPort key)
                          else Inr \<lparr>e_key = key, e_host = h, e_wildcard = or_empty w, e_port = port, e_inject = inject\<rparr>
              | None \<Rightarrow> Inr \<lparr>e_key = key, e_host = h, e_wildcard = or_empty w, e_port = port, e_inject = inject\<rparr>))"

section \<open>The pattern determines the parts\<close>

lemma lang_HOST: "h \<in> lang HOST \<longleftrightarrow> h \<noteq> [] \<and> cls_mem WORD (hd h) \<and> cls_mem WORD (last h) \<and>
    list_all (cls_mem HOSTCHAR) h"
proof -
  have sub: "cls_mem WORD c \<Longrightarrow> cls_mem HOSTCHAR c" for c
    by (auto simp: cls_mem_def WORD_def HOSTCHAR_def)
  have tail: "t \<in> lang (Cat (Star (Cls HOSTCHAR)) (Cls WORD)) \<longleftrightarrow>
      t \<noteq> [] \<and> cls_mem WORD (last t) \<and> list_all (cls_mem HOSTCHAR) t" for t
  proof (cases t rule: rev_cases)
    case (snoc u c)
    then show ?thesis
      unfolding lang.simps(3) lang_Star_Cls lang.simps(2) using sub by auto
  qed (auto simp: lang.simps(3))
  show ?thesis
  proof (cases h)
    case (Cons c t)
    then show ?thesis
      unfolding HOST_def lang_Cat_Cls lang_Opt using tail[of t] sub by auto
  qed (simp add: HOST_def lang_Cat_Cls del: lang.simps)
qed

lemma lang_PORT: "d \<in> lang PORT \<longleftrightarrow> d \<noteq> [] \<and> length d \<le> 5 \<and> list_all is_digit d"
proof -
  have "cls_mem DIGIT = is_digit" by (auto simp: cls_mem_def DIGIT_def is_digit_def)
  moreover have "(5::nat) = Suc 4" by simp
  ultimately show ?thesis unfolding PORT_def by (simp only: lang_Rep1_Cls) auto
qed

lemma HOSTCHAR_range: "cls_mem HOSTCHAR c \<Longrightarrow>
    c = CHR ''.'' \<or> c = CHR ''_'' \<or> c = CHR ''-'' \<or> is_digit c \<or> between (CHR ''a'') (CHR ''z'') c"
  by (auto simp: cls_mem_def HOSTCHAR_def is_digit_def)

lemma HOST_no_colon: "h \<in> lang HOST \<Longrightarrow> CHR '':'' \<notin> set h"
proof
  assume "h \<in> lang HOST" "CHR '':'' \<in> set h"
  then have "cls_mem HOSTCHAR (CHR '':'')" by (simp add: lang_HOST list_all_iff)
  then show False by (simp add: cls_mem_def HOSTCHAR_def between_def)
qed

lemma WORD_not: "\<not> cls_mem WORD (CHR ''*'')" "\<not> cls_mem WORD (CHR ''.'')"
  by (simp_all add: cls_mem_def WORD_def between_def)

lemma HOST_no_wild: "h \<in> lang HOST \<Longrightarrow> \<not> prefix ''*.'' (h @ t) \<and> \<not> prefix ''.'' (h @ t)"
  by (cases h) (simp_all add: lang_HOST, metis WORD_not)

definition port_text :: "pystr option \<Rightarrow> pystr" where
  "port_text p = (case p of None \<Rightarrow> [] | Some d \<Rightarrow> CHR '':'' # d)"

definition entry_parts :: "pystr \<Rightarrow> pystr option \<Rightarrow> pystr \<Rightarrow> pystr option \<Rightarrow> bool" where
  "entry_parts key w h p \<longleftrightarrow> key = or_empty w @ h @ port_text p \<and>
     w \<in> {None, Some ''*.'', Some ''.''} \<and> h \<in> lang HOST \<and> (\<forall>d. p = Some d \<longrightarrow> d \<in> lang PORT)"

lemma split_head_rest: "drop (length (split_head c r)) r = t \<Longrightarrow> r = split_head c r @ t"
  unfolding split_head_def by (metis dropWhile_eq_drop takeWhile_dropWhile_id)

lemma split_head_rest_hd: "drop (length (split_head c r)) r = a # t \<Longrightarrow> a = c"
  using hd_dropWhile[of "\<lambda>x. x \<noteq> c" r] by (simp add: split_head_def flip: dropWhile_eq_drop)

lemma entry_groups_parts: "entry_groups key = Some (w, h, p) \<Longrightarrow> entry_parts key w h p"
proof -
  assume g: "entry_groups key = Some (w, h, p)"
  define wr where "wr = (if prefix ''*.'' key then (Some ''*.'', drop 2 key)
      else if prefix ''.'' key then (Some ''.'', drop 1 key) else (None, key))"
  obtain w' r where wr': "wr = (w', r)" by (cases wr)
  then have key: "key = or_empty w' @ r" and w': "w' \<in> {None, Some ''*.'', Some ''.''}"
    by (auto simp: wr_def or_empty_def prefix_def split: if_splits)
  define h' where "h' = split_head (CHR '':'') r"
  from g have g': "fullmatch HOST h'" "w = w'" "h = h'"
    "(drop (length h') r = [] \<and> p = None) \<or>
     (\<exists>a d. drop (length h') r = a # d \<and> fullmatch PORT d \<and> p = Some d)"
    unfolding entry_groups_def wr_def[symmetric] wr'
    by (auto simp: Let_def h'_def[symmetric] split: if_splits list.splits)
  have "r = h' @ drop (length h') r" unfolding h'_def by (rule split_head_rest) simp
  moreover from g'(4) have "drop (length h') r = port_text p"
    using split_head_rest_hd[of "CHR '':''" r] by (auto simp: port_text_def h'_def)
  ultimately have "r = h' @ port_text p" by simp
  with g' key w' show ?thesis
    by (auto simp: entry_parts_def fullmatch_lang)
qed

lemma entry_parts_groups: "entry_parts key w h p \<Longrightarrow> entry_groups key = Some (w, h, p)"
proof -
  assume e: "entry_parts key w h p"
  then have h: "fullmatch HOST h" "CHR '':'' \<notin> set h" and p: "\<forall>d. p = Some d \<longrightarrow> fullmatch PORT d"
    and hw: "\<not> prefix ''*.'' (h @ t) \<and> \<not> prefix ''.'' (h @ t)" for t
    by (auto simp: entry_parts_def fullmatch_lang HOST_no_colon HOST_no_wild)
  have sh: "split_head (CHR '':'') (h @ port_text p) = h"
    using h(2) by (auto simp: port_text_def split: option.split)
  have wr: "(if prefix ''*.'' key then (Some ''*.'', drop 2 key)
      else if prefix ''.'' key then (Some ''.'', drop 1 key) else (None, key)) = (w, h @ port_text p)"
    using e hw[of "port_text p"] by (auto simp: entry_parts_def or_empty_def)
  show ?thesis
    unfolding entry_groups_def wr using h p
    by (simp add: Let_def sh) (auto simp: port_text_def split: option.splits)
qed

lemma entry_groups_iff: "entry_groups key = Some (w, h, p) \<longleftrightarrow> entry_parts key w h p"
  using entry_groups_parts entry_parts_groups by blast

lemma lang_ENTRY: "key \<in> lang ENTRY \<longleftrightarrow> (\<exists>w h p. entry_parts key w h p)"
proof
  assume "key \<in> lang ENTRY"
  then obtain w h t where k: "key = w @ h @ t" "w = [] \<or> w = ''*.'' \<or> w = ''.''" "h \<in> lang HOST"
      "t = [] \<or> (\<exists>d. t = CHR '':'' # d \<and> d \<in> lang PORT)"
    unfolding ENTRY_def lang.simps(3,4) lang_Opt lang_Lit by auto
  define p where "p = (if t = [] then None else Some (tl t))"
  define w' where "w' = (if w = [] then None else Some w)"
  from k have "entry_parts key w' h p"
    by (auto simp: entry_parts_def p_def w'_def or_empty_def port_text_def)
  then show "\<exists>w h p. entry_parts key w h p" by blast
next
  assume "\<exists>w h p. entry_parts key w h p"
  then obtain w h p where e: "entry_parts key w h p" by blast
  have w: "or_empty w \<in> lang (Opt (Alt (Lit ''*.'') (Lit ''.'')))"
    using e by (auto simp: entry_parts_def or_empty_def)
  have p: "port_text p \<in> lang (Opt (Cat (Lit '':'') PORT))"
    using e by (auto simp: entry_parts_def port_text_def split: option.split)
  show "key \<in> lang ENTRY"
    using e w p unfolding ENTRY_def lang.simps(3) entry_parts_def by blast
qed

section \<open>Well-formed entries\<close>

definition wf_entry :: "entry \<Rightarrow> bool" where
  "wf_entry e \<longleftrightarrow> e_wildcard e \<in> {'''', ''*.'', ''.''} \<and> e_host e \<in> lang HOST \<and>
     (\<forall>n. e_port e = Some n \<longrightarrow> 0 < n \<and> n < 65536)"

lemma parse_entry_wf: "parse_entry key inject = Inr e \<Longrightarrow>
    wf_entry e \<and> e_key e = key \<and> e_inject e = inject"
  by (auto simp: parse_entry_def entry_groups_iff wf_entry_def entry_parts_def or_empty_def Let_def
      split: option.splits if_splits)

lemma parse_entry_cases:
  "parse_entry key inject = Inl x \<Longrightarrow> x = InvalidEntry key \<or> x = InvalidPort key"
  by (auto simp: parse_entry_def Let_def split: option.splits if_splits prod.splits)

lemma dec_length5: "n < 100000 \<Longrightarrow> length (dec n) \<le> 5"
  by (simp add: dec.simps[of n] dec.simps[of "n div 10"] dec.simps[of "n div 10 div 10"]
      dec.simps[of "n div 10 div 10 div 10"] dec.simps[of "n div 10 div 10 div 10 div 10"])

text \<open>The key of an entry, printed from its parts, and parsing it back.\<close>

definition print_entry :: "pystr \<Rightarrow> pystr \<Rightarrow> int option \<Rightarrow> pystr" where
  "print_entry w h p = w @ h @ port_text (map_option dec_int p)"

lemma parse_print_entry:
  assumes "w \<in> {'''', ''*.'', ''.''}" "h \<in> lang HOST" "\<And>n. p = Some n \<Longrightarrow> 0 < n \<and> n < 65536"
  shows "parse_entry (print_entry w h p) inject =
    Inr \<lparr>e_key = print_entry w h p, e_host = h, e_wildcard = w, e_port = p, e_inject = inject\<rparr>"
proof -
  define w' where "w' = (if w = [] then None else Some w)"
  have digits: "dec_int n \<in> lang PORT \<and> int (parse_dec (dec_int n)) = n" if "p = Some n" for n
  proof -
    from assms(3)[OF that] have n: "0 < n" "nat n < 100000" by auto
    then show ?thesis
      using dec_length5[of "nat n"] dec_digits[of "nat n"] by (simp add: lang_PORT dec_int_def)
  qed
  have "entry_parts (print_entry w h p) w' h (map_option dec_int p)"
    using assms(1,2) digits by (auto simp: entry_parts_def print_entry_def w'_def or_empty_def)
  then have "entry_groups (print_entry w h p) = Some (w', h, map_option dec_int p)"
    by (simp add: entry_groups_iff)
  moreover have "or_empty w' = w" by (simp add: w'_def or_empty_def)
  ultimately show ?thesis
    using digits assms(3) by (cases p) (auto simp: parse_entry_def)
qed

end
