(* ===== verification/Policies.thy ===== *)
theory Policies
  imports Entries "HOL-Library.Product_Lexorder"
begin

text \<open>
  Class \<open>Policy\<close> of guard.py: building the list of entries from the configured domains, and
  \<open>lookup\<close>, which decides whether a destination is allowed and by which entry. Python's
  \<open>max(xs, key=f, default=None)\<close> is \<open>max_by\<close>; its contract is the locale \<open>ranked_pick\<close>. What
  the entries mean is stated on lists of labels (\<open>covers_labels\<close>) and shown to be what the string
  tests compute.
\<close>

section \<open>Python's max with a key\<close>

fun max_from :: "('a \<Rightarrow> 'k::linorder) \<Rightarrow> 'a \<Rightarrow> 'a list \<Rightarrow> 'a" where
  "max_from f b [] = b"
| "max_from f b (x # xs) = (if f b < f x then max_from f x xs else max_from f b xs)"

definition max_by :: "('a \<Rightarrow> 'k::linorder) \<Rightarrow> 'a list \<Rightarrow> 'a option" where
  "max_by f xs = (case xs of [] \<Rightarrow> None | x # xs \<Rightarrow> Some (max_from f x xs))"

text \<open>The contract: nothing from nothing, otherwise the first of the elements of greatest key.\<close>

locale ranked_pick =
  fixes pick :: "('a \<Rightarrow> 'k::linorder) \<Rightarrow> 'a list \<Rightarrow> 'a option"
  assumes pick_None: "pick f xs = None \<longleftrightarrow> xs = []"
    and pick_first: "pick f xs = Some x \<Longrightarrow>
      \<exists>us vs. xs = us @ x # vs \<and> (\<forall>y\<in>set us. f y < f x) \<and> (\<forall>y\<in>set vs. f y \<le> f x)"
begin

lemma pick_in: "pick f xs = Some x \<Longrightarrow> x \<in> set xs"
  by (auto dest: pick_first)

lemma pick_max: "pick f xs = Some x \<Longrightarrow> y \<in> set xs \<Longrightarrow> f y \<le> f x"
  by (fastforce dest: pick_first intro: less_imp_le)

lemma pick_exists: "xs \<noteq> [] \<Longrightarrow> \<exists>x. pick f xs = Some x"
  using pick_None[of f xs] by auto

lemma pick_filter_None: "pick f (filter p xs) = None \<longleftrightarrow> \<not> list_ex p xs"
  by (auto simp: pick_None filter_empty_conv list_ex_iff)

lemma pick_set_cong:
  assumes "set xs = set ys" "inj_on f (set xs)"
  shows "pick f xs = pick f ys"
proof (cases "pick f xs")
  case None
  with assms(1) have "ys = []" by (simp add: pick_None)
  with None show ?thesis by (metis pick_None)
next
  case (Some x)
  then have "ys \<noteq> []" using assms(1) pick_in by fastforce
  then obtain y where y: "pick f ys = Some y" using pick_exists by blast
  have "f x \<le> f y" "f y \<le> f x"
    using Some y assms(1) pick_in pick_max by metis+
  then show ?thesis
    using Some y assms pick_in by (metis antisym inj_on_eq_iff)
qed

end

lemma max_from_first: "\<exists>us vs. b # xs = us @ max_from f b xs # vs \<and>
    (\<forall>y\<in>set us. f y < f (max_from f b xs)) \<and> (\<forall>y\<in>set vs. f y \<le> f (max_from f b xs))"
proof (induction xs arbitrary: b)
  case Nil
  show ?case by (intro exI[of _ "[]"]) simp
next
  case (Cons x xs)
  show ?case
  proof (cases "f b < f x")
    case True
    obtain us vs where uv: "x # xs = us @ max_from f x xs # vs"
      "\<forall>y\<in>set us. f y < f (max_from f x xs)" "\<forall>y\<in>set vs. f y \<le> f (max_from f x xs)"
      using Cons.IH[of x] by blast
    have "f x \<le> f (max_from f x xs)"
      using uv by (cases us) (auto intro: less_imp_le)
    with True have "f b < f (max_from f x xs)" by (rule less_le_trans)
    have m: "max_from f b (x # xs) = max_from f x xs" using True by simp
    show ?thesis
      unfolding m using uv \<open>f b < f (max_from f x xs)\<close>
      by (intro exI[of _ "b # us"] exI[of _ vs]) simp
  next
    case False
    obtain us vs where uv: "b # xs = us @ max_from f b xs # vs"
      "\<forall>y\<in>set us. f y < f (max_from f b xs)" "\<forall>y\<in>set vs. f y \<le> f (max_from f b xs)"
      using Cons.IH[of b] by blast
    have m: "max_from f b (x # xs) = max_from f b xs" using False by simp
    show ?thesis
    proof (cases us)
      case Nil
      with uv(1) have "b = max_from f b xs" "xs = vs" by auto
      with uv False show ?thesis
        unfolding m by (intro exI[of _ "[]"] exI[of _ "x # vs"]) auto
    next
      case (Cons a us')
      with uv(1) have "a = b" "xs = us' @ max_from f b xs # vs" by auto
      moreover from this Cons uv(2) False have "f x < f (max_from f b xs)" by auto
      ultimately show ?thesis
        using Cons uv unfolding m by (intro exI[of _ "b # x # us'"] exI[of _ vs]) simp
    qed
  qed
qed

interpretation mx: ranked_pick max_by
proof unfold_locales
  fix f :: "'a \<Rightarrow> 'b::linorder" and xs :: "'a list" and x
  show "max_by f xs = None \<longleftrightarrow> xs = []"
    by (simp add: max_by_def split: list.split)
  show "\<exists>us vs. xs = us @ x # vs \<and> (\<forall>y\<in>set us. f y < f x) \<and> (\<forall>y\<in>set vs. f y \<le> f x)"
    if "max_by f xs = Some x"
  proof (cases xs)
    case Nil
    with that show ?thesis by (simp add: max_by_def)
  next
    case (Cons b ys)
    with that have "x = max_from f b ys" by (simp add: max_by_def)
    then show ?thesis unfolding Cons using max_from_first[of b ys f] by simp
  qed
qed

section \<open>The policy\<close>

record domain =
  dom_inject :: "(pystr \<times> pystr) list option" \<comment> \<open>the optional key \<open>inject\<close>\<close>

record policy =
  entries :: "entry list"

definition get_inject :: "domain \<Rightarrow> (pystr \<times> pystr) list" where
  \<comment> \<open>\<open>v.get("inject", {})\<close>\<close>
  "get_inject v = (case dom_inject v of None \<Rightarrow> [] | Some d \<Rightarrow> d)"

fun parse_domains :: "(pystr \<times> domain) list \<Rightarrow> exn + entry list" where
  "parse_domains [] = Inr []"
| "parse_domains ((k, v) # ds) =
     (case parse_entry k (get_inject v) of
        Inl x \<Rightarrow> Inl x
      | Inr e \<Rightarrow> (case parse_domains ds of Inl x \<Rightarrow> Inl x | Inr es \<Rightarrow> Inr (e # es)))"

definition make_policy :: "(pystr \<times> domain) list \<Rightarrow> exn + policy" where
  "make_policy domains =
     (case parse_domains domains of Inl x \<Rightarrow> Inl x | Inr es \<Rightarrow> Inr \<lparr>entries = es\<rparr>)"

definition lookup :: "policy \<Rightarrow> pystr \<Rightarrow> int \<Rightarrow> entry option" where
  "lookup pol host port =
     (let host = normalize_host host
      in if is_ip_literal host then None
         else max_by rank (filter (\<lambda>e. matches e host port) (entries pol)))"

definition wf_policy :: "policy \<Rightarrow> bool" where
  "wf_policy pol \<longleftrightarrow> list_all wf_entry (entries pol)"

lemma parse_domains_wf: "parse_domains ds = Inr es \<Longrightarrow> list_all wf_entry es"
  by (induction ds arbitrary: es rule: parse_domains.induct)
    (auto split: sum.splits dest: parse_entry_wf)

lemma make_policy_wf: "make_policy ds = Inr pol \<Longrightarrow> wf_policy pol"
  by (auto simp: make_policy_def wf_policy_def parse_domains_wf split: sum.splits)

lemma parse_domains_Inr: "parse_domains ds = Inr es \<longleftrightarrow>
    map (\<lambda>(k, v). parse_entry k (get_inject v)) ds = map Inr es"
proof (induction ds arbitrary: es)
  case (Cons d ds)
  obtain k v where "d = (k, v)" by (cases d)
  with Cons.IH show ?case
    by (cases es; cases "parse_domains ds") (auto split: sum.splits)
qed auto

text \<open>
  The entry a domain of the configuration stands for: its key is read by the pattern, its port is in range,
  and it injects what the domain injects.
\<close>

definition entry_for :: "pystr \<times> domain \<Rightarrow> entry \<Rightarrow> bool" where
  "entry_for d e \<longleftrightarrow> e_key e = fst d \<and> e_inject e = get_inject (snd d) \<and>
     (\<exists>w p. entry_parts (fst d) w (e_host e) p \<and> e_wildcard e = or_empty w \<and>
       e_port e = map_option (\<lambda>t. int (parse_dec t)) p \<and> (\<forall>n. e_port e = Some n \<longrightarrow> 0 < n \<and> n < 65536))"

lemma parse_entry_for: "parse_entry k (get_inject v) = Inr e \<longleftrightarrow> entry_for (k, v) e"
proof (cases "entry_groups k")
  case None
  then show ?thesis by (simp add: parse_entry_def entry_for_def flip: entry_groups_iff)
next
  case (Some g)
  obtain w h p where "g = (w, h, p)" by (cases g)
  with Some show ?thesis
    by (cases p; cases e) (auto simp: parse_entry_def entry_for_def Let_def simp flip: entry_groups_iff)
qed

lemma parse_domains_for: "parse_domains ds = Inr es \<longleftrightarrow> list_all2 entry_for ds es"
proof (induction ds arbitrary: es)
  case (Cons d ds)
  obtain k v where "d = (k, v)" by (cases d)
  with Cons.IH show ?case
    by (cases es; cases "parse_domains ds") (auto simp: parse_entry_for[symmetric] split: sum.splits)
qed auto

lemma make_policy_for: "make_policy ds = Inr pol \<longleftrightarrow> list_all2 entry_for ds (entries pol)"
  by (cases pol) (auto simp: make_policy_def simp flip: parse_domains_for split: sum.split)

lemma parse_domains_Inl: "parse_domains ds = Inl x \<longleftrightarrow>
    (\<exists>k v. List.find (\<lambda>(k, v). isl (parse_entry k (get_inject v))) ds = Some (k, v) \<and>
       parse_entry k (get_inject v) = Inl x)"
  by (induction ds rule: parse_domains.induct) (auto split: sum.splits)

section \<open>Lookup\<close>

lemma lookup_SomeD:
  assumes "lookup pol h p = Some e"
  shows "e \<in> set (entries pol)" "matches e (normalize_host h) p" "\<not> is_ip_literal (normalize_host h)"
proof -
  have "max_by rank (filter (\<lambda>e. matches e (normalize_host h) p) (entries pol)) = Some e"
    and ip: "\<not> is_ip_literal (normalize_host h)"
    using assms by (auto simp: lookup_def Let_def split: if_splits)
  from mx.pick_in[OF this(1)] ip
  show "e \<in> set (entries pol)" "matches e (normalize_host h) p" "\<not> is_ip_literal (normalize_host h)"
    by auto
qed

lemma lookup_Some_rank:
  assumes "lookup pol h p = Some e" "e' \<in> set (entries pol)" "matches e' (normalize_host h) p"
  shows "rank e' \<le> rank e"
  using assms mx.pick_max[of rank _ e e'] by (auto simp: lookup_def Let_def split: if_splits)

lemma lookup_None: "lookup pol h p = None \<longleftrightarrow>
    is_ip_literal (normalize_host h) \<or> \<not> list_ex (\<lambda>e. matches e (normalize_host h) p) (entries pol)"
  by (simp add: lookup_def Let_def mx.pick_filter_None)

lemma lookup_cong: "normalize_host h = normalize_host h' \<Longrightarrow> lookup pol h p = lookup pol h' p"
  by (simp add: lookup_def)

lemma matches_suffix: "matches e h p \<Longrightarrow> suffix (e_host e) h"
  by (auto simp: matches_def suffix_def split: if_splits)

lemma matches_port: "matches e h p \<Longrightarrow> p \<in> (case e_port e of Some n \<Rightarrow> {n} | None \<Rightarrow> DEFAULT_PORTS)"
  by (auto simp: matches_def split: if_splits)

lemma same_rank_same_target:
  assumes "matches e h p" "matches e' h p" "rank e = rank e'"
  shows "e_host e = e_host e' \<and> e_port e = e_port e' \<and> (e_wildcard e = '''' \<longleftrightarrow> e_wildcard e' = '''')"
proof -
  have "length (e_host e) = length (e_host e')" using assms(3) by (simp add: rank_def)
  then have "e_host e = e_host e'"
    using matches_suffix[OF assms(1)] matches_suffix[OF assms(2)] by (auto dest: suffix_same_length)
  moreover have "e_port e = e_port e'"
    using assms matches_port[OF assms(1)] matches_port[OF assms(2)]
    by (auto simp: rank_def split: option.splits)
  ultimately show ?thesis using assms(3) by (simp add: rank_def)
qed

section \<open>Labels\<close>

lemma suffix_labels: "suffix (''.'' @ t) s \<longleftrightarrow> (\<exists>xs. xs \<noteq> [] \<and> split_dots s = xs @ split_dots t)"
proof
  assume "suffix (''.'' @ t) s"
  then obtain u where "s = u @ CHR ''.'' # t" by (auto simp: suffix_def)
  then show "\<exists>xs. xs \<noteq> [] \<and> split_dots s = xs @ split_dots t"
    by (intro exI[of _ "split_dots u"]) (simp add: split_on_append)
next
  assume "\<exists>xs. xs \<noteq> [] \<and> split_dots s = xs @ split_dots t"
  then obtain xs where "xs \<noteq> []" "split_dots s = xs @ split_dots t" by blast
  then have "s = join_on (CHR ''.'') xs @ CHR ''.'' # t"
    by (metis join_on_append join_split_on split_on_nonempty)
  then show "suffix (''.'' @ t) s" by (simp add: suffix_def)
qed

text \<open>
  What an entry promises, on the labels of the host: an exact entry covers its host, \<open>*.host\<close> the
  names with at least one more label in front, \<open>.host\<close> both.
\<close>

definition covers_labels :: "entry \<Rightarrow> string list \<Rightarrow> bool" where
  "covers_labels e ls \<longleftrightarrow>
     (let n = length ls - length (split_dots (e_host e)) in
      length (split_dots (e_host e)) \<le> length ls \<and> drop n ls = split_dots (e_host e) \<and>
      (e_wildcard e = '''' \<longrightarrow> n = 0) \<and> (e_wildcard e = ''*.'' \<longrightarrow> 0 < n))"

lemma covers_labels_iff: "covers_labels e ls \<longleftrightarrow>
    (\<exists>xs. ls = xs @ split_dots (e_host e) \<and> (e_wildcard e = '''' \<longrightarrow> xs = []) \<and> (e_wildcard e = ''*.'' \<longrightarrow> xs \<noteq> []))"
proof
  define n where "n = length ls - length (split_dots (e_host e))"
  assume c: "covers_labels e ls"
  then have d: "drop n ls = split_dots (e_host e)"
    unfolding covers_labels_def Let_def n_def by blast
  have "ls = take n ls @ split_dots (e_host e)"
    unfolding d[symmetric] by simp
  moreover have "take n ls = [] \<longleftrightarrow> n = 0"
    by (auto simp: n_def)
  ultimately show "\<exists>xs. ls = xs @ split_dots (e_host e) \<and>
      (e_wildcard e = '''' \<longrightarrow> xs = []) \<and> (e_wildcard e = ''*.'' \<longrightarrow> xs \<noteq> [])"
    using c unfolding covers_labels_def n_def[symmetric] Let_def
    by (intro exI[of _ "take n ls"]) simp
qed (auto simp: covers_labels_def)

lemma matches_labels:
  assumes "wf_entry e"
  shows "matches e h p \<longleftrightarrow>
    p \<in> (case e_port e of Some n \<Rightarrow> {n} | None \<Rightarrow> DEFAULT_PORTS) \<and> covers_labels e (split_dots h)"
proof -
  have w: "e_wildcard e = '''' \<or> e_wildcard e = ''*.'' \<or> e_wildcard e = ''.''"
    using assms by (auto simp: wf_entry_def)
  have eq: "(\<exists>xs. xs = [] \<and> split_dots h = xs @ split_dots (e_host e)) \<longleftrightarrow> h = e_host e"
    by (simp add: split_on_inj)
  have below: "\<not> suffix (''.'' @ e_host e) (e_host e)"
    by (auto simp: suffix_def dest: arg_cong[where f = length])
  have "(if h = e_host e then e_wildcard e \<noteq> ''*.'' else e_wildcard e \<noteq> '''' \<and> suffix (''.'' @ e_host e) h) \<longleftrightarrow>
      covers_labels e (split_dots h)"
    using w
  proof (elim disjE)
    assume "e_wildcard e = ''.''"
    moreover have "(\<exists>xs. split_dots h = xs @ split_dots (e_host e)) \<longleftrightarrow>
        h = e_host e \<or> suffix (''.'' @ e_host e) h"
      unfolding suffix_labels eq[symmetric] by auto
    ultimately show ?thesis by (simp add: covers_labels_iff)
  next
    assume "e_wildcard e = ''*.''"
    then show ?thesis
      using below by (auto simp: covers_labels_iff suffix_labels[symmetric] conj_commute)
  qed (auto simp: covers_labels_iff split_on_inj)
  then show ?thesis unfolding matches_def by simp
qed

text \<open>What an entry covers, by port and labels.\<close>

definition covers :: "entry \<Rightarrow> pystr \<Rightarrow> int \<Rightarrow> bool" where
  "covers e h p \<longleftrightarrow> p \<in> (case e_port e of Some n \<Rightarrow> {n} | None \<Rightarrow> DEFAULT_PORTS) \<and>
     covers_labels e (split_dots (normalize_host h))"

lemma matches_covers: "wf_policy pol \<Longrightarrow> e \<in> set (entries pol) \<Longrightarrow> matches e (normalize_host h) p \<longleftrightarrow> covers e h p"
  by (auto simp: covers_def wf_policy_def list_all_iff matches_labels)

lemma suffix_shorter: "suffix a c \<Longrightarrow> suffix b c \<Longrightarrow> length a \<le> length b \<Longrightarrow> suffix a b"
  by (auto simp: suffix_def append_eq_append_conv2)

lemma rank_specific:
  assumes "rank e' \<le> rank e" "matches e h p" "matches e' h p"
  shows "(e_wildcard e' = '''' \<longrightarrow> e_wildcard e = '''') \<and>
    ((e_wildcard e' = '''' \<longleftrightarrow> e_wildcard e = '''') \<longrightarrow> suffix (e_host e') (e_host e)) \<and>
    ((e_wildcard e' = '''' \<longleftrightarrow> e_wildcard e = '''') \<and> e_host e' = e_host e \<and> e_port e' = Some p \<longrightarrow> e_port e = Some p)"
  using assms(1) suffix_shorter[OF matches_suffix[OF assms(3)] matches_suffix[OF assms(2)]] matches_port[OF assms(2)]
  by (auto simp: rank_def less_eq_prod_def less_bool_def split: option.splits)

section \<open>Properties of entries and lookup\<close>

text \<open>
  C9. Most specific entry. When \<open>lookup\<close> allows a destination, the entry it returns is one of the policy's
  and covers the port and the labels of the normalised host, which is no IP address. Against every
  other entry that covers them it is the more specific one as documented: an exact entry is never
  passed over for a wildcard; between two exact or two wildcard ones its host is the longer suffix;
  and with the same host, an entry for this port is not passed over for one without.
\<close>

theorem lookup_most_specific:
  assumes "make_policy ds = Inr pol" "lookup pol h p = Some e"
  shows "e \<in> set (entries pol) \<and> covers e h p \<and> \<not> is_ip_literal (normalize_host h) \<and>
    (\<forall>e'. e' \<in> set (entries pol) \<and> covers e' h p \<longrightarrow>
      (e_wildcard e' = '''' \<longrightarrow> e_wildcard e = '''') \<and>
      ((e_wildcard e' = '''' \<longleftrightarrow> e_wildcard e = '''') \<longrightarrow> suffix (e_host e') (e_host e)) \<and>
      ((e_wildcard e' = '''' \<longleftrightarrow> e_wildcard e = '''') \<and> e_host e' = e_host e \<and> e_port e' = Some p \<longrightarrow> e_port e = Some p))"
proof -
  note cov = matches_covers[OF make_policy_wf[OF assms(1)]]
  have "covers e h p" using lookup_SomeD[OF assms(2)] cov by blast
  moreover have "rank e' \<le> rank e" "matches e' (normalize_host h) p" if "e' \<in> set (entries pol)" "covers e' h p" for e'
    using that cov lookup_Some_rank[OF assms(2)] by blast+
  ultimately show ?thesis
    using rank_specific[OF _ lookup_SomeD(2)[OF assms(2)]] lookup_SomeD[OF assms(2)] by blast
qed

definition sample_entry :: "pystr \<Rightarrow> pystr \<Rightarrow> pystr \<Rightarrow> int option \<Rightarrow> (pystr \<times> pystr) list \<Rightarrow> entry" where
  "sample_entry k h w p i = \<lparr>e_key = k, e_host = h, e_wildcard = w, e_port = p, e_inject = i\<rparr>"

definition sample_domains :: "(pystr \<times> domain) list" where
  "sample_domains =
     [(''*.m.test'', \<lparr>dom_inject = Some [(''Authorization'', ''inner'')]\<rparr>),
      (''m.test'', \<lparr>dom_inject = Some [(''Authorization'', ''outer'')]\<rparr>),
      (''.m.test:8443'', \<lparr>dom_inject = None\<rparr>)]"

definition sample_policy :: policy where
  "sample_policy = \<lparr>entries =
     [sample_entry ''*.m.test'' ''m.test'' ''*.'' None [(''Authorization'', ''inner'')],
      sample_entry ''m.test'' ''m.test'' '''' None [(''Authorization'', ''outer'')],
      sample_entry ''.m.test:8443'' ''m.test'' ''.'' (Some 8443) []]\<rparr>"

lemma make_sample_policy: "make_policy sample_domains = Inr sample_policy"
  by code_simp

definition ranked_policy :: policy where
  "ranked_policy = \<lparr>entries =
     [sample_entry ''.t'' ''t'' ''.'' None [], sample_entry ''*.a.t'' ''a.t'' ''*.'' None [],
      sample_entry ''.a.t:443'' ''a.t'' ''.'' (Some 443) [], sample_entry ''x.a.t'' ''x.a.t'' '''' None []]\<rparr>"

lemma make_ranked_policy: "make_policy
    [(''.t'', \<lparr>dom_inject = None\<rparr>), (''*.a.t'', \<lparr>dom_inject = None\<rparr>), (''.a.t:443'', \<lparr>dom_inject = None\<rparr>),
     (''x.a.t'', \<lparr>dom_inject = None\<rparr>)] = Inr ranked_policy"
  by code_simp

theorem lookup_most_specific_witness:
  "map_option e_key (lookup ranked_policy ''X.a.t.'' 443) = Some ''x.a.t'' \<and>
   map_option e_key (lookup ranked_policy ''y.a.t'' 443) = Some ''.a.t:443'' \<and>
   map_option e_key (lookup ranked_policy ''y.a.t'' 80) = Some ''*.a.t'' \<and>
   map_option e_key (lookup ranked_policy ''a.t'' 80) = Some ''.t'' \<and>
   covers (sample_entry ''.a.t:443'' ''a.t'' ''.'' (Some 443) []) ''y.a.t'' 443"
proof -
  have "lookup ranked_policy ''y.a.t'' 443 = Some (sample_entry ''.a.t:443'' ''a.t'' ''.'' (Some 443) [])" by code_simp
  from lookup_most_specific[OF make_ranked_policy this]
  have "covers (sample_entry ''.a.t:443'' ''a.t'' ''.'' (Some 443) []) ''y.a.t'' 443" by blast
  moreover have "map_option e_key (lookup ranked_policy ''X.a.t.'' 443) = Some ''x.a.t''"
    "map_option e_key (lookup ranked_policy ''y.a.t'' 443) = Some ''.a.t:443''"
    "map_option e_key (lookup ranked_policy ''y.a.t'' 80) = Some ''*.a.t''"
    "map_option e_key (lookup ranked_policy ''a.t'' 80) = Some ''.t''" by code_simp+
  ultimately show ?thesis by blast
qed

text \<open>
  C10. No IP address is ever allowed. Whatever the policy, a host that the C resolver would read as
  an IPv4 address (one to four decimal, octal or hexadecimal numbers), that holds a colon (IPv6) or
  starts with a bracket, with or without a trailing dot, is on no allowlist.
\<close>

theorem lookup_refuses_addresses:
  assumes "inet_aton_form h \<or> CHR '':'' \<in> set h \<or> prefix ''['' h"
  shows "lookup pol h p = None \<and> lookup pol (h @ ''.'') p = None"
proof -
  have "is_ip_literal (normalize_host h) \<and> is_ip_literal (normalize_host (h @ ''.''))"
    using assms
  proof (elim disjE)
    assume "inet_aton_form h"
    from numeric_last_label_is_ip[OF inet_aton_last[OF this]] show ?thesis by simp
  next
    assume "CHR '':'' \<in> set h"
    then show ?thesis
      using colon_normalize[of h] colon_normalize[of "h @ ''.''"] by (simp add: is_ip_literal_def)
  next
    assume "prefix ''['' h"
    then show ?thesis
      using bracket_normalize[of h] bracket_normalize[of "h @ ''.''"] by (simp add: is_ip_literal_def)
  qed
  then show ?thesis by (simp add: lookup_None)
qed

theorem lookup_refuses_addresses_witness:
  "lookup \<lparr>entries = [sample_entry ''.1'' ''1'' ''.'' None []]\<rparr> ''0X7f.1'' 80 = None"
proof -
  have "inet_aton_form ''0X7f.1''" by code_simp
  then show ?thesis using lookup_refuses_addresses[of "''0X7f.1''"] by blast
qed

text \<open>
  C6. Refinement to labels. For a policy built from a configuration, a destination is allowed exactly
  when its normalised host is not an IP address and some entry covers the port and the host's labels:
  all of them for an exact entry, with at least one more label in front for \<open>*.host\<close>, with any
  number in front for \<open>.host\<close>.
\<close>

theorem lookup_labels:
  assumes "make_policy ds = Inr pol"
  shows "lookup pol h p \<noteq> None \<longleftrightarrow> \<not> is_ip_literal (normalize_host h) \<and>
    list_ex (\<lambda>e. p \<in> (case e_port e of Some n \<Rightarrow> {n} | None \<Rightarrow> DEFAULT_PORTS) \<and>
      covers_labels e (split_dots (normalize_host h))) (entries pol)"
  using make_policy_wf[OF assms]
  by (auto simp: lookup_None list_ex_iff wf_policy_def list_all_iff matches_labels)

theorem lookup_labels_witness:
  "make_policy sample_domains = Inr sample_policy \<and> lookup sample_policy ''notm.test'' 443 = None"
proof -
  have "\<not> list_ex (\<lambda>e. (443::int) \<in> (case e_port e of Some n \<Rightarrow> {n} | None \<Rightarrow> DEFAULT_PORTS) \<and>
      covers_labels e (split_dots (normalize_host ''notm.test''))) (entries sample_policy)"
    by code_simp
  then show ?thesis
    using lookup_labels[OF make_sample_policy, of "''notm.test''" 443] make_sample_policy by auto
qed

text \<open>
  C40. Ties. Two entries that cover the same destination with the same rank name the same host and
  port and are both exact or both wildcards: the documented order leaves open only which of
  \<open>*.host\<close> and \<open>.host\<close> (or two spellings of one entry) decides, and the first of the file does.
\<close>

theorem lookup_ties:
  assumes "lookup pol h p = Some e" "e' \<in> set (entries pol)" "matches e' (normalize_host h) p"
    and "rank e' = rank e"
  shows "e_host e' = e_host e \<and> e_port e' = e_port e \<and> (e_wildcard e' = '''' \<longleftrightarrow> e_wildcard e = '''') \<and>
    (\<exists>us vs. filter (\<lambda>e. matches e (normalize_host h) p) (entries pol) = us @ e # vs \<and> e' \<notin> set us)"
proof -
  have "max_by rank (filter (\<lambda>e. matches e (normalize_host h) p) (entries pol)) = Some e"
    using assms(1) by (auto simp: lookup_def Let_def split: if_splits)
  from mx.pick_first[OF this] show ?thesis
    using same_rank_same_target[OF assms(3) lookup_SomeD(2)[OF assms(1)] assms(4)] assms(4) by force
qed

theorem lookup_ties_witness:
  "lookup \<lparr>entries = [sample_entry ''*.t'' ''t'' ''*.'' None [], sample_entry ''.t'' ''t'' ''.'' None []]\<rparr> ''a.t'' 80 =
     Some (sample_entry ''*.t'' ''t'' ''*.'' None []) \<and>
   e_host (sample_entry ''.t'' ''t'' ''.'' None []) = e_host (sample_entry ''*.t'' ''t'' ''*.'' None [])"
proof -
  have l: "lookup \<lparr>entries = [sample_entry ''*.t'' ''t'' ''*.'' None [], sample_entry ''.t'' ''t'' ''.'' None []]\<rparr> ''a.t'' 80 =
      Some (sample_entry ''*.t'' ''t'' ''*.'' None [])" by code_simp
  have "matches (sample_entry ''.t'' ''t'' ''.'' None []) (normalize_host ''a.t'') 80"
    and "rank (sample_entry ''.t'' ''t'' ''.'' None []) = rank (sample_entry ''*.t'' ''t'' ''*.'' None [])"
    by code_simp+
  with lookup_ties[OF l, of "sample_entry ''.t'' ''t'' ''.'' None []"] l show ?thesis by simp
qed

text \<open>
  Spelling does not matter. The decision is the same for hosts that differ in letter case, and
  one trailing dot changes nothing.
\<close>

lemma lookup_spelling:
  assumes "lower h = lower h'"
  shows "lookup pol h' p = lookup pol h p \<and> (\<not> suffix ''.'' h' \<longrightarrow> lookup pol (h' @ ''.'') p = lookup pol h p)"
  using assms normalize_host_snoc_dot normalize_host_cong by (metis lookup_cong)

text \<open>
  C35. The parts of an entry's key. The split into wildcard, host and port is exactly the match of
  the pattern \<open>ENTRY\<close>: it succeeds on the keys the pattern matches, and the groups it returns are the
  only decomposition of the key into the pattern's parts.
\<close>

theorem entry_groups_fullmatch:
  "(fullmatch ENTRY key \<longleftrightarrow> entry_groups key \<noteq> None) \<and>
   (\<forall>w h p. entry_groups key = Some (w, h, p) \<longleftrightarrow> entry_parts key w h p)"
  using lang_ENTRY[of key] entry_groups_iff[of key] by (auto simp: fullmatch_lang)

text \<open>
  Round trip of entries. The key printed from a wildcard, a host and an optional port in 1 to
  65535 parses back to an entry with exactly these parts.
\<close>

lemma parse_entry_roundtrip:
  assumes "w \<in> {'''', ''*.'', ''.''}" "fullmatch HOST h" "p = Some n \<Longrightarrow> 0 < n \<and> n < 65536"
    and "p = None \<or> p = Some n"
  shows "parse_entry (print_entry w h p) inject =
    Inr \<lparr>e_key = print_entry w h p, e_host = h, e_wildcard = w, e_port = p, e_inject = inject\<rparr>"
  using assms by (intro parse_print_entry) (auto simp: fullmatch_lang)

text \<open>
  Building the policy. Construction succeeds exactly when every key parses, and then yields one
  entry per domain in the configuration's order; otherwise it raises the error of the first bad key.
\<close>

lemma make_policy_spec:
  "(make_policy ds = Inr pol \<longleftrightarrow>
      map (\<lambda>(k, v). parse_entry k (get_inject v)) ds = map Inr (entries pol)) \<and>
   (make_policy ds = Inl x \<longleftrightarrow>
      (\<exists>k v. List.find (\<lambda>(k, v). isl (parse_entry k (get_inject v))) ds = Some (k, v) \<and>
        parse_entry k (get_inject v) = Inl x))"
proof -
  have "(make_policy ds = Inr pol) = (parse_domains ds = Inr (entries pol))"
    by (cases pol) (auto simp: make_policy_def split: sum.split)
  moreover have "(make_policy ds = Inl x) = (parse_domains ds = Inl x)"
    by (auto simp: make_policy_def split: sum.split)
  ultimately show ?thesis by (simp add: parse_domains_Inr parse_domains_Inl)
qed





end
