(* ===== verification/Secrets.thy ===== *)
theory Secrets
  imports Policies "HOL-Library.List_Lexorder"
begin

text \<open>
  \<open>read_secrets\<close> of guard.py: every credential the policy names is read from its file in the
  credentials directory, in text mode with ASCII decoding, stripped of the line end and checked to be
  one printable line. The file system is a function from paths to the file's bytes or the exception
  \<open>open\<close> raises; the order in which Python iterates over the set of names is a parameter.
\<close>

type_synonym files = "pystr \<Rightarrow> exn + bytes"
type_synonym secrets = "pystr \<rightharpoonup> pystr"

section \<open>Reading a text file\<close>

fun universal_newlines :: "pystr \<Rightarrow> pystr" where
  \<comment> \<open>text mode reads \<open>\r\n\<close> and \<open>\r\<close> as \<open>\n\<close>\<close>
  "universal_newlines [] = []"
| "universal_newlines (c # s) =
     (if c = CHR 0x0D
      then CHR 0x0A # universal_newlines (if prefix [CHR 0x0A] s then tl s else s)
      else c # universal_newlines s)"

definition read_text_ascii :: "files \<Rightarrow> pystr \<Rightarrow> exn + pystr" where
  "read_text_ascii fs path =
     (case fs path of
        Inl x \<Rightarrow> Inl x
      | Inr b \<Rightarrow> if list_all (\<lambda>c. c \<le> CHR 0x7F) b then Inr (universal_newlines b)
                 else Inl (UnicodeDecodeError path))"

definition path_join :: "pystr \<Rightarrow> pystr \<Rightarrow> pystr" where
  \<comment> \<open>\<open>os.path.join(a, b)\<close>\<close>
  "path_join a b =
     (if prefix ''/'' b then b
      else if a = '''' \<or> suffix ''/'' a then a @ b else a @ ''/'' @ b)"

section \<open>Credentials\<close>

definition line_end :: "char \<Rightarrow> bool" where
  "line_end c \<longleftrightarrow> c = CHR 0x0D \<or> c = CHR 0x0A"

definition read_credential :: "files \<Rightarrow> pystr \<Rightarrow> pystr \<Rightarrow> exn + pystr" where
  "read_credential fs directory name =
     (case read_text_ascii fs (path_join directory name) of
        Inl x \<Rightarrow> Inl x
      | Inr s \<Rightarrow>
          (let value = rstrip line_end s
           in if value = '''' \<or> list_ex (\<lambda>c. \<not> printable_ascii c) value then Inl (BadCredential name)
              else Inr value))"

definition credential_names :: "policy \<Rightarrow> pystr set" where
  "credential_names pol = set (concat (map (\<lambda>e. map snd (e_inject e)) (entries pol)))"

fun read_loop :: "files \<Rightarrow> pystr \<Rightarrow> pystr list \<Rightarrow> secrets \<Rightarrow> exn + secrets" where
  "read_loop fs directory [] secrets = Inr secrets"
| "read_loop fs directory (name # names) secrets =
     (case read_credential fs directory name of
        Inl x \<Rightarrow> Inl x
      | Inr value \<Rightarrow> read_loop fs directory names (secrets(name \<mapsto> value)))"

definition read_secrets :: "(pystr set \<Rightarrow> pystr list) \<Rightarrow> files \<Rightarrow> policy \<Rightarrow> pystr \<Rightarrow> exn + secrets" where
  "read_secrets order fs pol directory = read_loop fs directory (order (credential_names pol)) Map.empty"

text \<open>Iterating over a finite set yields each of its elements.\<close>

definition set_order :: "(pystr set \<Rightarrow> pystr list) \<Rightarrow> bool" where
  "set_order order \<longleftrightarrow> (\<forall>S. finite S \<longrightarrow> set (order S) = S)"

section \<open>Lemmas\<close>

lemma finite_credential_names [simp]: "finite (credential_names pol)"
  by (simp add: credential_names_def)

lemma credential_names_iff: "c \<in> credential_names pol \<longleftrightarrow>
    (\<exists>e h. e \<in> set (entries pol) \<and> (h, c) \<in> set (e_inject e))"
  by (force simp: credential_names_def)

lemma credential_names_set: "credential_names pol = {c. \<exists>e h. e \<in> set (entries pol) \<and> (h, c) \<in> set (e_inject e)}"
  unfolding set_eq_iff credential_names_iff by simp

lemma universal_newlines_id: "CHR 0x0D \<notin> set s \<Longrightarrow> universal_newlines s = s"
  by (induction s) auto

lemma universal_newlines_no_cr: "CHR 0x0D \<notin> set (universal_newlines s)"
  by (induction s rule: universal_newlines.induct) auto

lemma universal_newlines_append: "\<not> suffix [CHR 0x0D] s \<Longrightarrow>
    universal_newlines (s @ t) = universal_newlines s @ universal_newlines t"
proof (induction s rule: universal_newlines.induct)
  case (2 c s)
  show ?case
  proof (cases "c = CHR 0x0D")
    case True
    with "2.prems" obtain d u where s: "s = d # u" by (cases s) (auto simp: suffix_def)
    have "\<not> suffix [CHR 0x0D] (if prefix [CHR 0x0A] s then tl s else s)"
      using "2.prems" s True by (auto simp: suffix_def Cons_eq_append_conv)
    from "2.IH"(1)[OF True this] s True show ?thesis by (auto split: if_splits)
  next
    case False
    moreover have "\<not> suffix [CHR 0x0D] s" using "2.prems" by (auto simp: suffix_def)
    ultimately show ?thesis using "2.IH"(2) by simp
  qed
qed simp

lemma universal_newlines_line_ends: "list_all line_end t \<Longrightarrow> list_all line_end (universal_newlines t)"
proof (induction t rule: universal_newlines.induct)
  case (2 c s)
  then show ?case by (cases s) (auto simp: line_end_def)
qed simp

lemma read_credential_valid:
  "read_credential fs d name = Inr v \<Longrightarrow> v \<noteq> [] \<and> list_all printable_ascii v"
  by (auto simp: read_credential_def Let_def list_ex_iff list_all_iff split: sum.splits if_splits)

lemma read_credential_file:
  assumes "fs (path_join d name) = Inr (v @ t)" "list_all line_end t" "v \<noteq> []" "list_all printable_ascii v"
  shows "read_credential fs d name = Inr v"
proof -
  have p: "of_char c \<ge> (32::nat) \<and> of_char c \<le> (126::nat)" if "c \<in> set v" for c
    using assms(4) that by (auto simp: list_all_iff printable_ascii_def between_of_char)
  have le: "\<not> line_end c" if "c \<in> set v" for c
    using p[OF that] by (auto simp: line_end_def)
  have "list_all (\<lambda>c. c \<le> CHR 0x7F) (v @ t)"
    using p assms(2) by (fastforce simp: list_all_iff less_eq_char_def line_end_def)
  moreover have "CHR 0x0D \<notin> set v" using le by (auto simp: line_end_def)
  moreover from this have "\<not> suffix [CHR 0x0D] v" by (auto simp: suffix_def)
  ultimately have r: "read_text_ascii fs (path_join d name) = Inr (v @ universal_newlines t)"
    using assms(1) by (simp add: read_text_ascii_def universal_newlines_append universal_newlines_id)
  have "rstrip line_end (v @ universal_newlines t) = v"
    using assms(3) le universal_newlines_line_ends[OF assms(2)]
    by (simp add: rstrip_append_stripped rstrip_id)
  then show ?thesis
    using assms(3,4) r by (auto simp: read_credential_def list_ex_iff list_all_iff)
qed

lemma universal_newlines_front:
  "universal_newlines b = v @ u \<Longrightarrow> CHR 0x0A \<notin> set v \<Longrightarrow> \<exists>t. b = v @ t \<and> universal_newlines t = u"
proof (induction v arbitrary: b)
  case (Cons c v)
  then obtain d b' where b: "b = d # b'" by (cases b) auto
  with Cons.prems have "d \<noteq> CHR 0x0D" by auto
  with Cons.prems b have "d = c" "universal_newlines b' = v @ u" "CHR 0x0A \<notin> set v" by auto
  with Cons.IH b show ?case by auto
qed simp

lemma universal_newlines_keeps: "x \<in> set t \<Longrightarrow> \<not> line_end x \<Longrightarrow> x \<in> set (universal_newlines t)"
proof (induction t rule: universal_newlines.induct)
  case (2 c s)
  show ?case
  proof (cases "c = CHR 0x0D")
    case True
    with 2(3,4) have "x \<in> set s" "x \<noteq> CHR 0x0A" by (auto simp: line_end_def)
    then have "x \<in> set (if prefix [CHR 0x0A] s then tl s else s)" by (cases s) auto
    from 2(1)[OF True this 2(4)] True show ?thesis by simp
  next
    case False
    with 2(2)[OF False _ 2(4)] 2(3) show ?thesis by auto
  qed
qed simp

lemma universal_newlines_ends: "list_all line_end (universal_newlines t) \<Longrightarrow> list_all line_end t"
  unfolding list_all_iff using universal_newlines_keeps by blast

text \<open>What a credential file may hold: one line of printable ASCII, not empty, and line ends after it.\<close>

definition one_line :: "files \<Rightarrow> pystr \<Rightarrow> pystr \<Rightarrow> bool" where
  "one_line fs path v \<longleftrightarrow>
     (\<exists>t. fs path = Inr (v @ t) \<and> list_all line_end t) \<and> v \<noteq> [] \<and> list_all printable_ascii v"

lemma rstrip_front: "\<exists>u. s = rstrip p s @ u \<and> list_all p u"
proof (induction s rule: rev_induct)
  case (snoc c s)
  show ?case
  proof (cases "p c")
    case True
    with snoc obtain u where "s = rstrip p s @ u" "list_all p u" by blast
    with True have "s @ [c] = rstrip p (s @ [c]) @ u @ [c]" "list_all p (u @ [c])" by (simp_all add: rstrip_def)
    then show ?thesis by blast
  qed (simp add: rstrip_def)
qed (simp add: rstrip_def)

lemma read_credential_iff: "read_credential fs d name = Inr v \<longleftrightarrow> one_line fs (path_join d name) v"
proof
  assume "one_line fs (path_join d name) v"
  then show "read_credential fs d name = Inr v" by (auto simp: one_line_def intro: read_credential_file)
next
  assume r: "read_credential fs d name = Inr v"
  then obtain b where b: "fs (path_join d name) = Inr b" "rstrip line_end (universal_newlines b) = v"
    by (auto simp: read_credential_def read_text_ascii_def Let_def split: sum.splits if_splits)
  obtain u where u: "universal_newlines b = v @ u" "list_all line_end u"
    using rstrip_front[of "universal_newlines b" line_end] b(2) by auto
  have v: "v \<noteq> []" "list_all printable_ascii v" using read_credential_valid[OF r] by auto
  obtain t where "b = v @ t" "universal_newlines t = u"
    using universal_newlines_front[OF u(1) printable_no_newline[OF v(2)]] by blast
  with b(1) u(2) v show "one_line fs (path_join d name) v"
    using universal_newlines_ends by (auto simp: one_line_def)
qed

lemma read_credential_error: "read_credential fs d name = Inl x \<Longrightarrow>
    x = (case fs (path_join d name) of Inl y \<Rightarrow> y
         | Inr b \<Rightarrow> if list_all (\<lambda>c. c \<le> CHR 0x7F) b then BadCredential name else UnicodeDecodeError (path_join d name))"
  by (auto simp: read_credential_def read_text_ascii_def Let_def split: sum.splits if_splits)

lemma read_loop_Inr: "read_loop fs d ns m = Inr m' \<longleftrightarrow>
    (\<forall>n\<in>set ns. \<not> isl (read_credential fs d n)) \<and>
    m' = (\<lambda>n. if n \<in> set ns then Some (projr (read_credential fs d n)) else m n)"
proof (induction ns arbitrary: m)
  case (Cons n ns)
  show ?case
  proof (cases "read_credential fs d n")
    case (Inr v)
    have eq: "(\<lambda>k. if k \<in> set ns then Some (projr (read_credential fs d k)) else (m(n \<mapsto> v)) k) =
        (\<lambda>k. if k \<in> set (n # ns) then Some (projr (read_credential fs d k)) else m k)"
      using Inr by (auto simp: fun_eq_iff)
    have step: "read_loop fs d (n # ns) m = read_loop fs d ns (m(n \<mapsto> v))" using Inr by simp
    show ?thesis unfolding step Cons.IH eq using Inr by simp
  qed simp
qed auto

lemma read_loop_Inl: "read_loop fs d ns m = Inl x \<Longrightarrow> \<exists>n\<in>set ns. read_credential fs d n = Inl x"
  by (induction ns arbitrary: m) (auto split: sum.splits)

definition secrets_of :: "files \<Rightarrow> policy \<Rightarrow> pystr \<Rightarrow> secrets" where
  "secrets_of fs pol d =
     (\<lambda>n. if n \<in> credential_names pol then Some (projr (read_credential fs d n)) else None)"

lemma read_secrets_Inr:
  assumes "set_order order"
  shows "read_secrets order fs pol d = Inr m \<longleftrightarrow>
    (\<forall>n\<in>credential_names pol. \<not> isl (read_credential fs d n)) \<and> m = secrets_of fs pol d"
  using assms by (simp add: read_secrets_def read_loop_Inr set_order_def secrets_of_def)

lemma read_secrets_Inl:
  assumes "set_order order" "read_secrets order fs pol d = Inl x"
  shows "\<exists>n. n \<in> credential_names pol \<and> read_credential fs d n = Inl x"
proof -
  have "set (order (credential_names pol)) = credential_names pol"
    using assms(1) by (simp add: set_order_def)
  then show ?thesis
    using read_loop_Inl assms(2) unfolding read_secrets_def by metis
qed

lemma read_secrets_dom:
  "set_order order \<Longrightarrow> read_secrets order fs pol d = Inr m \<Longrightarrow> dom m = credential_names pol"
  by (auto simp: read_secrets_Inr secrets_of_def split: if_splits)

lemma read_secrets_valid:
  assumes "set_order order" "read_secrets order fs pol d = Inr m" "m n = Some v"
  shows "v \<noteq> [] \<and> list_all printable_ascii v"
proof -
  have "\<not> isl (read_credential fs d n)" "v = projr (read_credential fs d n)"
    using assms by (auto simp: read_secrets_Inr secrets_of_def split: if_splits)
  then have "read_credential fs d n = Inr v" by (cases "read_credential fs d n") auto
  then show ?thesis by (rule read_credential_valid)
qed

section \<open>Properties\<close>

text \<open>
  C29. Reading the secrets. Whatever order the set of names is visited in: reading succeeds exactly when
  the file of every credential that an entry injects holds one non-empty line of printable ASCII, with
  any number of line ends after it, and then it maps these names, and no other, to these lines. When
  it fails, one of the files is not such a line, and the exception says why: it is the file system's
  own, a decoding error if a byte is not ASCII, and otherwise the error that names the credential.
\<close>

theorem read_secrets_spec:
  assumes "set_order order"
  shows "(read_secrets order fs pol d = Inr m \<longleftrightarrow>
      dom m = {c. \<exists>e h. e \<in> set (entries pol) \<and> (h, c) \<in> set (e_inject e)} \<and>
      (\<forall>c v. m c = Some v \<longrightarrow> one_line fs (path_join d c) v)) \<and>
    (read_secrets order fs pol d = Inl x \<longrightarrow>
      (\<exists>e h c. e \<in> set (entries pol) \<and> (h, c) \<in> set (e_inject e) \<and> (\<forall>v. \<not> one_line fs (path_join d c) v) \<and>
        x = (case fs (path_join d c) of Inl y \<Rightarrow> y
             | Inr b \<Rightarrow> if list_all (\<lambda>k. k \<le> CHR 0x7F) b then BadCredential c else UnicodeDecodeError (path_join d c))))"
proof (intro conjI impI)
  have ok: "(\<exists>v. one_line fs (path_join d n) v) \<longleftrightarrow> \<not> isl (read_credential fs d n)"
    and val: "one_line fs (path_join d n) v \<Longrightarrow> projr (read_credential fs d n) = v" for n v
    by (cases "read_credential fs d n"; simp flip: read_credential_iff)+
  show "read_secrets order fs pol d = Inr m \<longleftrightarrow>
      dom m = {c. \<exists>e h. e \<in> set (entries pol) \<and> (h, c) \<in> set (e_inject e)} \<and>
      (\<forall>c v. m c = Some v \<longrightarrow> one_line fs (path_join d c) v)"
    unfolding credential_names_set[symmetric] read_secrets_Inr[OF assms]
  proof (intro iffI conjI; (elim conjE)?)
    assume "m = secrets_of fs pol d" "\<forall>n\<in>credential_names pol. \<not> isl (read_credential fs d n)"
    then show "dom m = credential_names pol" "\<forall>c v. m c = Some v \<longrightarrow> one_line fs (path_join d c) v"
      using ok val by (auto simp: secrets_of_def split: if_splits)
  next
    assume m: "dom m = credential_names pol" "\<forall>c v. m c = Some v \<longrightarrow> one_line fs (path_join d c) v"
    then show "\<forall>n\<in>credential_names pol. \<not> isl (read_credential fs d n)" using ok by (metis domD)
    show "m = secrets_of fs pol d"
    proof
      fix n show "m n = secrets_of fs pol d n"
        using m val[of n] by (cases "m n") (auto simp: secrets_of_def)
    qed
  qed
  assume "read_secrets order fs pol d = Inl x"
  from read_secrets_Inl[OF assms this] obtain n where n: "n \<in> credential_names pol" "read_credential fs d n = Inl x" by blast
  moreover have "\<forall>v. \<not> one_line fs (path_join d n) v" using n(2) by (simp flip: read_credential_iff)
  ultimately show "\<exists>e h c. e \<in> set (entries pol) \<and> (h, c) \<in> set (e_inject e) \<and> (\<forall>v. \<not> one_line fs (path_join d c) v) \<and>
        x = (case fs (path_join d c) of Inl y \<Rightarrow> y
             | Inr b \<Rightarrow> if list_all (\<lambda>k. k \<le> CHR 0x7F) b then BadCredential c else UnicodeDecodeError (path_join d c))"
    using read_credential_error[OF n(2)] unfolding credential_names_iff by blast
qed

definition sample_files :: files where
  "sample_files p =
     (if p = ''/creds/inner'' then Inr (''inner-secret'' @ [CHR 0x0A])
      else if p = ''/creds/outer'' then Inr (''outer-secret'' @ [CHR 0x0D, CHR 0x0A])
      else Inl (FileNotFoundError p))"

lemma sorted_set_order: "set_order sorted_list_of_set"
  by (simp add: set_order_def)

lemma sample_credentials: "read_credential sample_files ''/creds'' ''inner'' = Inr ''inner-secret''"
  "read_credential sample_files ''/creds'' ''outer'' = Inr ''outer-secret''"
  by code_simp+

theorem read_secrets_spec_witness:
  "read_secrets sorted_list_of_set sample_files sample_policy ''/creds'' =
     Inr [''inner'' \<mapsto> ''inner-secret'', ''outer'' \<mapsto> ''outer-secret'']"
proof -
  let ?m = "[''inner'' \<mapsto> ''inner-secret'', ''outer'' \<mapsto> ''outer-secret'']"
  have "one_line sample_files (path_join ''/creds'' ''inner'') ''inner-secret''"
    "one_line sample_files (path_join ''/creds'' ''outer'') ''outer-secret''"
    by (simp_all add: sample_credentials flip: read_credential_iff)
  then have "\<forall>c v. ?m c = Some v \<longrightarrow> one_line sample_files (path_join ''/creds'' c) v" by simp
  moreover have "dom ?m = {c. \<exists>e h. e \<in> set (entries sample_policy) \<and> (h, c) \<in> set (e_inject e)}"
    unfolding credential_names_set[symmetric] by (simp add: credential_names_def sample_policy_def sample_entry_def insert_commute)
  ultimately show ?thesis
    using read_secrets_spec[OF sorted_set_order, of sample_files sample_policy "''/creds''" ?m] by blast
qed

text \<open>
  A secret is one header line. Every value read is non-empty and printable ASCII, so it holds
  neither a carriage return nor a line feed and cannot end the header it is put into.
\<close>

lemma secrets_are_header_values:
  assumes "set_order order" "read_secrets order fs pol d = Inr m" "m n = Some v"
  shows "v \<noteq> [] \<and> list_all printable_ascii v \<and> CHR 0x0D \<notin> set v \<and> CHR 0x0A \<notin> set v"
proof -
  have "\<not> printable_ascii (CHR 0x0D)" "\<not> printable_ascii (CHR 0x0A)"
    by (simp_all add: printable_ascii_def between_def)
  then show ?thesis using read_secrets_valid[OF assms] by (auto simp: list_all_iff)
qed

text \<open>
  What a credential file may hold. A file with one printable ASCII line, followed by any line
  ends, yields exactly that line.
\<close>

lemma credential_file_roundtrip:
  assumes "fs (path_join d name) = Inr (v @ t)" "list_all line_end t" "v \<noteq> []" "list_all printable_ascii v"
  shows "read_credential fs d name = Inr v"
  using assms by (rule read_credential_file)

end
