(* ===== verification/Flows.thy ===== *)
theory Flows
  imports Secrets
begin

text \<open>
  The flows guard.py works on and its access log (\<open>printable\<close>, \<open>Guard.access\<close>). A flow belongs to
  mitmproxy, which is not part of the repository: its headers and responses are type parameters, and
  the operations guard.py calls on them are the fields of the record \<open>mitm\<close>, an argument of every
  definition that uses them. \<open>header_laws\<close> and \<open>response_laws\<close> state what mitmproxy documents of
  them: header names are case-insensitive, assignment replaces all values, \<open>pop\<close> removes them.
\<close>

section \<open>The interface of mitmproxy\<close>

record 'h request =
  r_method :: pystr
  r_host :: pystr
  r_port :: int
  r_path :: pystr
  r_headers :: 'h

datatype mval = MTrue | MStr pystr \<comment> \<open>the values guard.py stores in \<open>flow.metadata\<close>\<close>

record ('h, 'r) flow =
  f_request :: "'h request"
  f_response :: "'r option"
  f_meta :: "pystr \<rightharpoonup> mval"

record ('h, 'r) mitm =
  headers_pop :: "pystr \<Rightarrow> 'h \<Rightarrow> 'h" \<comment> \<open>\<open>headers.pop(name, None)\<close>\<close>
  headers_set :: "pystr \<Rightarrow> pystr \<Rightarrow> 'h \<Rightarrow> 'h" \<comment> \<open>\<open>headers[name] = value\<close>\<close>
  headers_all :: "'h \<Rightarrow> pystr \<Rightarrow> pystr list" \<comment> \<open>\<open>headers.get_all(name)\<close>\<close>
  pretty_host :: "'h request \<Rightarrow> pystr" \<comment> \<open>\<open>request.pretty_host\<close>\<close>
  response_make :: "int \<Rightarrow> pystr \<Rightarrow> (pystr \<times> pystr) list \<Rightarrow> 'r" \<comment> \<open>\<open>http.Response.make\<close>\<close>
  status_code :: "'r \<Rightarrow> int"
  response_header :: "'r \<Rightarrow> pystr \<Rightarrow> pystr \<Rightarrow> pystr" \<comment> \<open>\<open>response.headers.get(name, default)\<close>\<close>
  set_stream :: "'r \<Rightarrow> 'r" \<comment> \<open>\<open>response.stream = True\<close>\<close>

definition same_header :: "pystr \<Rightarrow> pystr \<Rightarrow> bool" where
  "same_header m n \<longleftrightarrow> ascii_lower m = ascii_lower n"

definition header_laws :: "('h, 'r) mitm \<Rightarrow> bool" where
  "header_laws M \<longleftrightarrow>
     (\<forall>n h m. headers_all M (headers_pop M n h) m = (if same_header m n then [] else headers_all M h m)) \<and>
     (\<forall>n v h m. headers_all M (headers_set M n v h) m = (if same_header m n then [v] else headers_all M h m))"

definition response_laws :: "('h, 'r) mitm \<Rightarrow> bool" where
  "response_laws M \<longleftrightarrow> (\<forall>c b hs. status_code M (response_make M c b hs) = c)"

section \<open>The access log\<close>

datatype log_record =
    CheckFailed pystr exn \<comment> \<open>\<open>log.error("guest=%s check failed: %s", ...)\<close>\<close>
  | Access pystr \<comment> \<open>\<open>log.info\<close>, the formatted line\<close>

definition UNPRINTABLE :: "char \<Rightarrow> bool" where
  "UNPRINTABLE c \<longleftrightarrow> \<not> between CHR 0x21 CHR 0x7E c"

definition printable :: "pystr \<Rightarrow> nat \<Rightarrow> pystr" where
  "printable s limit = take limit (map (\<lambda>c. if UNPRINTABLE c then CHR ''?'' else c) s)"

definition truthy :: "mval option \<Rightarrow> bool" where
  "truthy v = (case v of None \<Rightarrow> False | Some MTrue \<Rightarrow> True | Some (MStr s) \<Rightarrow> s \<noteq> '''')"

definition log_path :: "pystr \<Rightarrow> pystr \<Rightarrow> pystr" where
  "log_path method path = (if method = ''CONNECT'' then ''-'' else printable (split_head (CHR ''?'') path) 200)"

definition access_line :: "pystr \<Rightarrow> ('h, 'r) flow \<Rightarrow> int \<Rightarrow> pystr" where
  "access_line instance flow status =
     (let req = f_request flow;
          path = log_path (r_method req) (r_path req)
      in ''guest='' @ instance @
         '' method='' @ printable (r_method req) 16 @
         '' host='' @ printable (r_host req) 200 @
         '' port='' @ dec_int (r_port req) @
         '' path='' @ path @
         '' status='' @ dec_int status @
         '' decision='' @ (if f_meta flow ''a_box_blocked'' \<noteq> None then ''blocked'' else ''allowed'') @
         '' credential_injected='' @ (if truthy (f_meta flow ''credential_injected'') then ''true'' else ''false''))"

definition access :: "pystr \<Rightarrow> ('h, 'r) flow \<Rightarrow> int \<Rightarrow> log_record list \<Rightarrow> ('h, 'r) flow \<times> log_record list" where
  "access instance flow status log =
     (if truthy (f_meta flow ''a_box_logged'') then (flow, log)
      else let flow = flow\<lparr>f_meta := (f_meta flow)(''a_box_logged'' \<mapsto> MTrue)\<rparr>
           in (flow, log @ [Access (access_line instance flow status)]))"

section \<open>Lemmas\<close>

lemma length_printable: "length (printable s n) \<le> n"
  by (simp add: printable_def)

lemma printable_chars: "c \<in> set (printable s n) \<Longrightarrow> between CHR 0x21 CHR 0x7E c"
  by (auto simp: printable_def UNPRINTABLE_def between_def dest!: in_set_takeD)

lemma printable_no_space: "CHR '' '' \<notin> set (printable s n)"
  by (auto dest: printable_chars simp: between_def)

lemma dec_int_no_space: "CHR '' '' \<notin> set (dec_int i)"
proof -
  have "CHR '' '' \<notin> set (dec n)" for n
    using dec_digits[of n] by (auto simp: list_all_iff is_digit_def between_def)
  then show ?thesis by (simp add: dec_int_def)
qed

lemma log_path_no_space: "CHR '' '' \<notin> set (log_path m p)"
  by (simp add: log_path_def printable_no_space)

lemma printable_ascii_printable: "list_all printable_ascii (printable s n)"
proof -
  have "printable_ascii c" if "c \<in> set (printable s n)" for c
    using printable_chars[OF that] by (simp add: printable_ascii_def between_of_char)
  then show ?thesis by (simp add: list_all_iff)
qed

lemma access_line_upd [simp]:
  "access_line i (flow\<lparr>f_meta := m(''a_box_logged'' \<mapsto> v)\<rparr>) s = access_line i (flow\<lparr>f_meta := m\<rparr>) s"
  by (simp add: access_line_def Let_def)

lemma access_cases:
  "access i flow s log = (flow', log') \<Longrightarrow>
     truthy (f_meta flow' ''a_box_logged'') \<and>
     f_request flow' = f_request flow \<and> f_response flow' = f_response flow \<and>
     (\<forall>k. k \<noteq> ''a_box_logged'' \<longrightarrow> f_meta flow' k = f_meta flow k) \<and>
     log' = log @ (if truthy (f_meta flow ''a_box_logged'') then [] else [Access (access_line i flow s)])"
  by (auto simp: access_def Let_def truthy_def split: if_splits)

definition access_fields :: "pystr \<Rightarrow> ('h, 'r) flow \<Rightarrow> int \<Rightarrow> pystr list" where
  "access_fields instance flow status =
     (let req = f_request flow in
      [''guest='' @ instance,
       ''method='' @ printable (r_method req) 16,
       ''host='' @ printable (r_host req) 200,
       ''port='' @ dec_int (r_port req),
       ''path='' @ log_path (r_method req) (r_path req),
       ''status='' @ dec_int status,
       ''decision='' @ (if f_meta flow ''a_box_blocked'' \<noteq> None then ''blocked'' else ''allowed''),
       ''credential_injected='' @ (if truthy (f_meta flow ''credential_injected'') then ''true'' else ''false'')])"

lemma access_line_join: "access_line i flow s = join_on (CHR '' '') (access_fields i flow s)"
  by (simp add: access_line_def access_fields_def Let_def)

lemma split_join_on: "ps \<noteq> [] \<Longrightarrow> \<forall>p\<in>set ps. x \<notin> set p \<Longrightarrow> split_on x (join_on x ps) = ps"
  by (induction x ps rule: join_on.induct) auto

lemma access_fields_no_space:
  "CHR '' '' \<notin> set i \<Longrightarrow> p \<in> set (access_fields i flow s) \<Longrightarrow> CHR '' '' \<notin> set p"
  by (auto simp: access_fields_def Let_def printable_no_space dec_int_no_space log_path_no_space
      split: if_splits)

lemma access_line_printable:
  "list_all printable_ascii i \<Longrightarrow> list_all printable_ascii (access_line i flow s)"
  using printable_ascii_printable dec_int_printable
  by (simp add: access_line_def Let_def log_path_def printable_ascii_def[abs_def] between_def)

text \<open>A small implementation of the interface, to show that its laws can hold.\<close>

definition sample_mitm :: "((pystr \<times> pystr) list, int) mitm" where
  "sample_mitm =
     \<lparr>headers_pop = (\<lambda>n h. filter (\<lambda>(m, v). \<not> same_header m n) h),
      headers_set = (\<lambda>n v h. filter (\<lambda>(m, v). \<not> same_header m n) h @ [(n, v)]),
      headers_all = (\<lambda>h n. map snd (filter (\<lambda>(m, v). same_header n m) h)),
      pretty_host = (\<lambda>req. case filter (\<lambda>(m, v). same_header m ''host'') (r_headers req) of
                             [] \<Rightarrow> r_host req | (m, v) # _ \<Rightarrow> v),
      response_make = (\<lambda>c b hs. c), status_code = (\<lambda>r. r),
      response_header = (\<lambda>r n d. d), set_stream = (\<lambda>r. r)\<rparr>"

lemma sample_mitm_laws: "header_laws sample_mitm" "response_laws sample_mitm"
proof -
  have "filter (\<lambda>(m', v). same_header m m') (filter (\<lambda>(m', v). \<not> same_header m' n) h) =
      (if same_header m n then [] else filter (\<lambda>(m', v). same_header m m') h)" for m n and h :: "(pystr \<times> pystr) list"
    by (auto simp: filter_empty_conv same_header_def intro!: filter_cong)
  then show "header_laws sample_mitm"
    by (simp add: header_laws_def sample_mitm_def)
  show "response_laws sample_mitm" by (simp add: response_laws_def sample_mitm_def)
qed

section \<open>Properties\<close>

text \<open>
  Nothing secret in the log. The access line of a flow is determined by the instance, the
  request's method, host, port and path up to the query, the status and the two flags: headers, query
  string, response and the reason of a block have no influence on it.
\<close>

lemma access_line_noninterference:
  assumes "r_method (f_request a) = r_method (f_request b)" "r_host (f_request a) = r_host (f_request b)"
    and "r_port (f_request a) = r_port (f_request b)"
    and "split_head (CHR ''?'') (r_path (f_request a)) = split_head (CHR ''?'') (r_path (f_request b))"
    and "f_meta a ''a_box_blocked'' = None \<longleftrightarrow> f_meta b ''a_box_blocked'' = None"
    and "truthy (f_meta a ''credential_injected'') \<longleftrightarrow> truthy (f_meta b ''credential_injected'')"
  shows "access_line i a s = access_line i b s"
  using assms by (simp add: access_line_def log_path_def Let_def)

definition sample_request :: "pystr \<Rightarrow> (pystr \<times> pystr) list \<Rightarrow> (pystr \<times> pystr) list request" where
  "sample_request path hs =
     \<lparr>r_method = ''GET'', r_host = ''m.test'', r_port = 443, r_path = path, r_headers = hs\<rparr>"

definition sample_flow :: "pystr \<Rightarrow> (pystr \<times> pystr) list \<Rightarrow> ((pystr \<times> pystr) list, int) flow" where
  "sample_flow path hs = \<lparr>f_request = sample_request path hs, f_response = None, f_meta = Map.empty\<rparr>"

text \<open>
  C28. A guest cannot forge log fields. For an instance name of printable ASCII without spaces the
  access line is printable ASCII (one line), and splitting it at spaces gives back exactly its eight
  fields, whatever the method, host and path of the request hold.
\<close>

theorem access_line_fields:
  assumes "list_all printable_ascii i" "CHR '' '' \<notin> set i"
  shows "list_all printable_ascii (access_line i flow s) \<and>
    split_on (CHR '' '') (access_line i flow s) = access_fields i flow s \<and> length (access_fields i flow s) = 8"
proof -
  have "access_fields i flow s \<noteq> []" by (simp add: access_fields_def Let_def)
  then have "split_on (CHR '' '') (access_line i flow s) = access_fields i flow s"
    unfolding access_line_join using assms(2) by (intro split_join_on) (auto dest: access_fields_no_space)
  moreover have "length (access_fields i flow s) = 8" by (simp add: access_fields_def Let_def)
  ultimately show ?thesis using access_line_printable[OF assms(1)] by blast
qed

theorem access_line_fields_witness:
  "split_on (CHR '' '') (access_line ''1'' (sample_flow ''/a b?q'' []) 403) =
     [''guest=1'', ''method=GET'', ''host=m.test'', ''port=443'', ''path=/a?b'', ''status=403'',
      ''decision=allowed'', ''credential_injected=false'']"
proof -
  have "list_all printable_ascii ''1'' \<and> CHR '' '' \<notin> set ''1''" by code_simp
  then have "split_on (CHR '' '') (access_line ''1'' (sample_flow ''/a b?q'' []) 403) =
      access_fields ''1'' (sample_flow ''/a b?q'' []) 403"
    using access_line_fields by blast
  also have "\<dots> = [''guest=1'', ''method=GET'', ''host=m.test'', ''port=443'', ''path=/a?b'', ''status=403'',
      ''decision=allowed'', ''credential_injected=false'']" by code_simp
  finally show ?thesis .
qed

end
