(* ===== verification/Guards.thy ===== *)
theory Guards
  imports Flows
begin

text \<open>
  Class \<open>Guard\<close> of guard.py: the checks of a CONNECT and of a request, the fail-closed wrapper
  \<open>guarded\<close>, and the hooks mitmproxy calls. A check takes a flow and returns it (mutated) with an
  exception or the reason for a block. The contract between \<open>guarded\<close> and a check is the locale
  \<open>flow_check\<close>, interpreted on both checks.
\<close>

record guard =
  g_instance :: pystr
  g_policy :: policy
  g_secrets :: secrets

definition HOP_BY_HOP :: "pystr list" where
  "HOP_BY_HOP = [''Proxy-Authorization'', ''Proxy-Connection'']"

section \<open>Checks\<close>

definition not_allowed :: pystr where
  "not_allowed = ''not on this guest's allowlist''"

definition check_connect :: "guard \<Rightarrow> ('h, 'r) flow \<Rightarrow> ('h, 'r) flow \<times> (exn + pystr option)" where
  "check_connect g flow =
     (if lookup (g_policy g) (r_host (f_request flow)) (r_port (f_request flow)) = None
      then (flow, Inr (Some not_allowed))
      else (flow, Inr None))"

fun pop_loop :: "('h, 'r) mitm \<Rightarrow> pystr list \<Rightarrow> 'h \<Rightarrow> 'h" where
  "pop_loop M [] h = h"
| "pop_loop M (n # ns) h = pop_loop M ns (headers_pop M n h)"

fun inject_loop :: "('h, 'r) mitm \<Rightarrow> secrets \<Rightarrow> (pystr \<times> pystr) list \<Rightarrow> 'h \<Rightarrow> 'h \<times> (exn + unit)" where
  "inject_loop M secrets [] h = (h, Inr ())"
| "inject_loop M secrets ((header, credential) # rest) h =
     (case secrets credential of
        None \<Rightarrow> (h, Inl (KeyError credential))
      | Some v \<Rightarrow> inject_loop M secrets rest (headers_set M header v h))"

definition set_headers :: "'h \<Rightarrow> ('h, 'r) flow \<Rightarrow> ('h, 'r) flow" where
  "set_headers h flow = flow\<lparr>f_request := (f_request flow)\<lparr>r_headers := h\<rparr>\<rparr>"

definition check_request ::
  "('h, 'r) mitm \<Rightarrow> guard \<Rightarrow> ('h, 'r) flow \<Rightarrow> ('h, 'r) flow \<times> (exn + pystr option)" where
  "check_request M g flow =
     (let req = f_request flow in
      case lookup (g_policy g) (r_host req) (r_port req) of
        None \<Rightarrow> (flow, Inr (Some not_allowed))
      | Some entry \<Rightarrow>
          if normalize_host (pretty_host M req) \<noteq> normalize_host (r_host req)
          then (flow, Inr (Some ''Host header differs from the destination''))
          else
            let h = pop_loop M HOP_BY_HOP (r_headers req);
                (h, res) = inject_loop M (g_secrets g) (e_inject entry) h;
                flow = set_headers h flow
            in case res of
                 Inl x \<Rightarrow> (flow, Inl x)
               | Inr _ \<Rightarrow>
                   ((if e_inject entry \<noteq> []
                     then flow\<lparr>f_meta := (f_meta flow)(''credential_injected'' \<mapsto> MTrue)\<rparr> else flow),
                    Inr None))"

section \<open>The wrapper and the hooks\<close>

definition block_text :: "'h request \<Rightarrow> pystr \<Rightarrow> pystr" where
  "block_text req reason =
     ''a-box: '' @ printable (r_host req) 200 @ '':'' @ dec_int (r_port req) @
     '' is blocked: '' @ reason @ [CHR 0x0A]"

definition guarded :: "('h, 'r) mitm \<Rightarrow> pystr \<Rightarrow> (('h, 'r) flow \<Rightarrow> ('h, 'r) flow \<times> (exn + pystr option)) \<Rightarrow>
    ('h, 'r) flow \<Rightarrow> log_record list \<Rightarrow> ('h, 'r) flow \<times> log_record list" where
  "guarded M instance check flow log =
     (let (flow, res) = check flow;
          (reason, log) = (case res of
             Inl x \<Rightarrow> (Some ''internal error'', log @ [CheckFailed instance x])
           | Inr r \<Rightarrow> (r, log))
      in case reason of
           None \<Rightarrow> (flow, log)
         | Some reason \<Rightarrow>
             if reason = '''' then (flow, log)
             else
               let flow = flow\<lparr>f_response := Some (response_make M 403
                      (block_text (f_request flow) reason)
                      [(''Content-Type'', ''text/plain''), (''Connection'', ''close'')])\<rparr>;
                   flow = flow\<lparr>f_meta := (f_meta flow)(''a_box_blocked'' \<mapsto> MStr reason)\<rparr>
               in access instance flow 403 log)"

definition http_connect :: "('h, 'r) mitm \<Rightarrow> guard \<Rightarrow> ('h, 'r) flow \<Rightarrow> log_record list \<Rightarrow>
    ('h, 'r) flow \<times> log_record list" where
  "http_connect M g flow log = guarded M (g_instance g) (check_connect g) flow log"

definition request_hook :: "('h, 'r) mitm \<Rightarrow> guard \<Rightarrow> ('h, 'r) flow \<Rightarrow> log_record list \<Rightarrow>
    ('h, 'r) flow \<times> log_record list" where
  "request_hook M g flow log = guarded M (g_instance g) (check_request M g) flow log"

definition responseheaders :: "('h, 'r) mitm \<Rightarrow> ('h, 'r) flow \<Rightarrow> exn + ('h, 'r) flow" where
  "responseheaders M flow =
     (case f_response flow of
        None \<Rightarrow> Inl (OtherError ''NoneType has no attribute headers'')
      | Some r \<Rightarrow>
          if prefix ''text/event-stream'' (response_header M r ''content-type'' '''')
          then Inr (flow\<lparr>f_response := Some (set_stream M r)\<rparr>)
          else Inr flow)"

definition response_hook :: "('h, 'r) mitm \<Rightarrow> guard \<Rightarrow> ('h, 'r) flow \<Rightarrow> log_record list \<Rightarrow>
    ('h, 'r) flow \<times> log_record list" where
  "response_hook M g flow log =
     access (g_instance g) flow (case f_response flow of Some r \<Rightarrow> status_code M r | None \<Rightarrow> 0) log"

definition error_hook :: "guard \<Rightarrow> ('h, 'r) flow \<Rightarrow> log_record list \<Rightarrow> ('h, 'r) flow \<times> log_record list" where
  "error_hook g flow log = access (g_instance g) flow 502 log"

text \<open>
  The life of a flow: mitmproxy calls hooks in some order, and sets the response when one arrives
  from the server. It catches an exception of a hook and goes on.
\<close>

datatype 'r event = HttpConnect | Request | Arrives 'r | ResponseHeaders | Response | Error

fun run_event :: "('h, 'r) mitm \<Rightarrow> guard \<Rightarrow> 'r event \<Rightarrow> ('h, 'r) flow \<times> log_record list \<Rightarrow>
    ('h, 'r) flow \<times> log_record list" where
  "run_event M g HttpConnect (flow, log) = http_connect M g flow log"
| "run_event M g Request (flow, log) = request_hook M g flow log"
| "run_event M g (Arrives r) (flow, log) = (flow\<lparr>f_response := Some r\<rparr>, log)"
| "run_event M g ResponseHeaders (flow, log) =
     (case responseheaders M flow of Inl _ \<Rightarrow> (flow, log) | Inr flow \<Rightarrow> (flow, log))"
| "run_event M g Response (flow, log) = response_hook M g flow log"
| "run_event M g Error (flow, log) = error_hook g flow log"

fun run_events :: "('h, 'r) mitm \<Rightarrow> guard \<Rightarrow> 'r event list \<Rightarrow> ('h, 'r) flow \<times> log_record list \<Rightarrow>
    ('h, 'r) flow \<times> log_record list" where
  "run_events M g [] s = s"
| "run_events M g (ev # evs) s = run_events M g evs (run_event M g ev s)"

section \<open>The contract of a check\<close>

definition same_target :: "'h request \<Rightarrow> 'h request \<Rightarrow> bool" where
  "same_target a b \<longleftrightarrow> r_method a = r_method b \<and> r_host a = r_host b \<and> r_port a = r_port b \<and> r_path a = r_path b"

definition verdict :: "(('h, 'r) flow \<Rightarrow> ('h, 'r) flow \<times> (exn + pystr option)) \<Rightarrow> ('h, 'r) flow \<Rightarrow> pystr option" where
  \<comment> \<open>the reason a check gives, or the one an exception stands for\<close>
  "verdict check flow = (case snd (check flow) of Inl _ \<Rightarrow> Some ''internal error'' | Inr r \<Rightarrow> r)"

locale flow_check =
  fixes check :: "('h, 'r) flow \<Rightarrow> ('h, 'r) flow \<times> (exn + pystr option)"
  assumes check_frame: "check flow = (flow', res) \<Longrightarrow>
      same_target (f_request flow') (f_request flow) \<and> f_response flow' = f_response flow \<and>
      f_meta flow' ''a_box_blocked'' = f_meta flow ''a_box_blocked'' \<and>
      f_meta flow' ''a_box_logged'' = f_meta flow ''a_box_logged''"
    and check_reason: "check flow = (flow', Inr (Some reason)) \<Longrightarrow> reason \<noteq> ''''"
begin

lemma guarded_passes:
  "verdict check flow = None \<Longrightarrow> guarded M i check flow log = (fst (check flow), log)"
  by (auto simp: guarded_def verdict_def split: prod.splits sum.splits)

lemma guarded_blocks:
  assumes "verdict check flow = Some reason" "guarded M i check flow log = (flow', log')"
  shows "f_response flow' = Some (response_make M 403 (block_text (f_request flow) reason)
      [(''Content-Type'', ''text/plain''), (''Connection'', ''close'')])"
    and "f_meta flow' ''a_box_blocked'' = Some (MStr reason)"
    and "truthy (f_meta flow' ''a_box_logged'')"
    and "f_request flow' = f_request (fst (check flow))"
    and "f_meta flow' ''credential_injected'' = f_meta (fst (check flow)) ''credential_injected''"
    and "\<exists>es l. log' = log @ es @ (if truthy (f_meta flow ''a_box_logged'') then [] else [Access l]) \<and>
      (case snd (check flow) of Inl x \<Rightarrow> es = [CheckFailed i x] | Inr _ \<Rightarrow> es = [])"
proof -
  obtain f1 res where c: "check flow = (f1, res)" by (cases "check flow")
  have fr: "same_target (f_request f1) (f_request flow)"
      "f_meta f1 ''a_box_logged'' = f_meta flow ''a_box_logged''"
    using check_frame[OF c] by blast+
  have bt: "block_text (f_request f1) r = block_text (f_request flow) r" for r
    using fr(1) by (simp add: block_text_def same_target_def)
  define es where "es = (case res of Inl x \<Rightarrow> [CheckFailed i x] | Inr _ \<Rightarrow> [])"
  define f2 where "f2 = f1\<lparr>f_response := Some (response_make M 403 (block_text (f_request f1) reason)
      [(''Content-Type'', ''text/plain''), (''Connection'', ''close'')]),
      f_meta := (f_meta f1)(''a_box_blocked'' \<mapsto> MStr reason)\<rparr>"
  have ne: "reason \<noteq> ''''"
    using assms(1) c check_reason by (auto simp: verdict_def split: sum.splits)
  have "access i f2 403 (log @ es) = (flow', log')"
    using assms c ne by (auto simp: guarded_def verdict_def es_def f2_def split: sum.splits)
  note a = access_cases[OF this]
  show "f_response flow' = Some (response_make M 403 (block_text (f_request flow) reason)
      [(''Content-Type'', ''text/plain''), (''Connection'', ''close'')])"
    and "f_meta flow' ''a_box_blocked'' = Some (MStr reason)"
    and "truthy (f_meta flow' ''a_box_logged'')"
    and "f_request flow' = f_request (fst (check flow))"
    and "f_meta flow' ''credential_injected'' = f_meta (fst (check flow)) ''credential_injected''"
    using a by (auto simp: f2_def bt c)
  have "f_meta f2 ''a_box_logged'' = f_meta flow ''a_box_logged''"
    using fr(2) by (simp add: f2_def)
  with a show "\<exists>es l. log' = log @ es @ (if truthy (f_meta flow ''a_box_logged'') then [] else [Access l]) \<and>
      (case snd (check flow) of Inl x \<Rightarrow> es = [CheckFailed i x] | Inr _ \<Rightarrow> es = [])"
    by (intro exI[of _ es] exI[of _ "access_line i f2 403"]) (auto simp: es_def c split: sum.split)
qed

end

lemma check_connect_result: "check_connect g flow = (flow', res) \<Longrightarrow>
    flow' = flow \<and> (res = Inr None \<or> res = Inr (Some not_allowed))"
  by (auto simp: check_connect_def split: if_splits)

lemma check_request_frame:
  assumes "check_request M g flow = (flow', res)"
  shows "same_target (f_request flow') (f_request flow)" "f_response flow' = f_response flow"
    "f_meta flow' = f_meta flow \<or> f_meta flow' = (f_meta flow)(''credential_injected'' \<mapsto> MTrue)"
  using assms
  by (auto simp: check_request_def Let_def same_target_def set_headers_def
      split: option.splits if_splits prod.splits sum.splits)

lemma check_request_reason: "check_request M g flow = (flow', Inr (Some reason)) \<Longrightarrow>
    reason = not_allowed \<or> reason = ''Host header differs from the destination''"
  by (auto simp: check_request_def Let_def split: option.splits if_splits prod.splits sum.splits)

interpretation chk_connect: flow_check "check_connect g" for g
  by unfold_locales (auto dest!: check_connect_result simp: same_target_def not_allowed_def)

interpretation chk_request: flow_check "check_request M g" for M g
proof unfold_locales
  fix flow flow' :: "('a, 'b) flow" and res
  assume "check_request M g flow = (flow', res)"
  from check_request_frame[OF this]
  show "same_target (f_request flow') (f_request flow) \<and> f_response flow' = f_response flow \<and>
      f_meta flow' ''a_box_blocked'' = f_meta flow ''a_box_blocked'' \<and>
      f_meta flow' ''a_box_logged'' = f_meta flow ''a_box_logged''"
    by auto
qed (auto dest!: check_request_reason simp: not_allowed_def)

section \<open>Headers after the checks\<close>

text \<open>The credential the entry injects into a header: the last one configured under that name.\<close>

fun injected :: "(pystr \<times> pystr) list \<Rightarrow> pystr \<Rightarrow> pystr option" where
  "injected [] n = None"
| "injected ((header, credential) # rest) n =
     (case injected rest n of
        Some c \<Rightarrow> Some c
      | None \<Rightarrow> if same_header n header then Some credential else None)"

definition guard_ok :: "guard \<Rightarrow> bool" where
  \<comment> \<open>every credential the policy names has a value\<close>
  "guard_ok g \<longleftrightarrow> (\<forall>e h c. e \<in> set (entries (g_policy g)) \<and> (h, c) \<in> set (e_inject e) \<longrightarrow> g_secrets g c \<noteq> None)"

lemma injected_in: "injected ins n = Some c \<Longrightarrow> \<exists>h. (h, c) \<in> set ins \<and> same_header n h"
  by (induction ins n rule: injected.induct) (auto split: option.splits if_splits)

lemma pop_loop_all: "header_laws M \<Longrightarrow>
    headers_all M (pop_loop M ns h) m = (if list_ex (same_header m) ns then [] else headers_all M h m)"
  by (induction ns arbitrary: h) (auto simp: header_laws_def)

lemma inject_loop_all: "header_laws M \<Longrightarrow> inject_loop M secrets ins h = (h', Inr u) \<Longrightarrow>
    headers_all M h' n = (case injected ins n of Some c \<Rightarrow> [the (secrets c)] | None \<Rightarrow> headers_all M h n)"
proof (induction ins arbitrary: h)
  case (Cons x ins)
  obtain m c where x: "x = (m, c)" by (cases x)
  with Cons.prems obtain v where v: "secrets c = Some v"
    and l: "inject_loop M secrets ins (headers_set M m v h) = (h', Inr u)"
    by (auto split: option.splits)
  show ?case
    using Cons.IH[OF Cons.prems(1) l] Cons.prems(1) x v
    by (auto simp: header_laws_def split: option.split)
qed simp

lemma inject_loop_ok: "(\<And>m c. (m, c) \<in> set ins \<Longrightarrow> secrets c \<noteq> None) \<Longrightarrow>
    \<exists>h'. inject_loop M secrets ins h = (h', Inr ())"
proof (induction ins arbitrary: h)
  case (Cons x ins)
  obtain m c where x: "x = (m, c)" by (cases x)
  have "secrets c \<noteq> None" and ins: "\<And>m c. (m, c) \<in> set ins \<Longrightarrow> secrets c \<noteq> None"
    using Cons.prems unfolding x by (meson list.set_intros)+
  then obtain v where "secrets c = Some v" by blast
  with Cons.IH[OF ins] x show ?case by simp
qed simp

lemma check_request_allowed:
  assumes "guard_ok g" "lookup (g_policy g) (r_host (f_request flow)) (r_port (f_request flow)) = Some e"
    and "normalize_host (pretty_host M (f_request flow)) = normalize_host (r_host (f_request flow))"
  obtains h' where
    "inject_loop M (g_secrets g) (e_inject e) (pop_loop M HOP_BY_HOP (r_headers (f_request flow))) = (h', Inr ())"
    "check_request M g flow =
      ((if e_inject e \<noteq> [] then (set_headers h' flow)\<lparr>f_meta := (f_meta flow)(''credential_injected'' \<mapsto> MTrue)\<rparr>
        else set_headers h' flow), Inr None)"
proof -
  have "e \<in> set (entries (g_policy g))" using assms(2) by (rule lookup_SomeD)
  with assms(1) have "\<And>m c. (m, c) \<in> set (e_inject e) \<Longrightarrow> g_secrets g c \<noteq> None"
    unfolding guard_ok_def by blast
  then have "\<exists>h'. inject_loop M (g_secrets g) (e_inject e)
      (pop_loop M HOP_BY_HOP (r_headers (f_request flow))) = (h', Inr ())"
    by (rule inject_loop_ok)
  then obtain h' where h': "inject_loop M (g_secrets g) (e_inject e)
      (pop_loop M HOP_BY_HOP (r_headers (f_request flow))) = (h', Inr ())" by blast
  moreover have "check_request M g flow =
      ((if e_inject e \<noteq> [] then (set_headers h' flow)\<lparr>f_meta := (f_meta flow)(''credential_injected'' \<mapsto> MTrue)\<rparr>
        else set_headers h' flow), Inr None)"
    using assms(2,3) h' by (simp add: check_request_def Let_def set_headers_def)
  ultimately show ?thesis using that by blast
qed

lemma check_request_refused:
  assumes "lookup (g_policy g) (r_host (f_request flow)) (r_port (f_request flow)) = None \<or>
    normalize_host (pretty_host M (f_request flow)) \<noteq> normalize_host (r_host (f_request flow))"
  shows "\<exists>reason. check_request M g flow = (flow, Inr (Some reason))"
  using assms by (auto simp: check_request_def Let_def split: option.splits)

definition header_after :: "('h, 'r) mitm \<Rightarrow> guard \<Rightarrow> entry \<Rightarrow> 'h \<Rightarrow> pystr \<Rightarrow> pystr list" where
  "header_after M g e h n =
     (case injected (e_inject e) n of
        Some c \<Rightarrow> [the (g_secrets g c)]
      | None \<Rightarrow> if list_ex (same_header n) HOP_BY_HOP then [] else headers_all M h n)"

lemma check_request_headers:
  assumes "header_laws M" "guard_ok g"
    and "lookup (g_policy g) (r_host (f_request flow)) (r_port (f_request flow)) = Some e"
    and "normalize_host (pretty_host M (f_request flow)) = normalize_host (r_host (f_request flow))"
  shows "\<exists>flow'. check_request M g flow = (flow', Inr None) \<and>
    (\<forall>n. headers_all M (r_headers (f_request flow')) n = header_after M g e (r_headers (f_request flow)) n) \<and>
    f_meta flow' = (if e_inject e \<noteq> [] then (f_meta flow)(''credential_injected'' \<mapsto> MTrue) else f_meta flow)"
proof -
  obtain h' where
    l: "inject_loop M (g_secrets g) (e_inject e) (pop_loop M HOP_BY_HOP (r_headers (f_request flow))) = (h', Inr ())" and
    c: "check_request M g flow =
      ((if e_inject e \<noteq> [] then (set_headers h' flow)\<lparr>f_meta := (f_meta flow)(''credential_injected'' \<mapsto> MTrue)\<rparr>
        else set_headers h' flow), Inr None)"
    using check_request_allowed[OF assms(2,3,4)] by blast
  have "headers_all M h' n = header_after M g e (r_headers (f_request flow)) n" for n
    by (auto simp: inject_loop_all[OF assms(1) l] pop_loop_all[OF assms(1)] header_after_def
        split: option.split)
  with c show ?thesis by (auto simp: set_headers_def)
qed

section \<open>One access line per flow\<close>

fun accesses :: "log_record list \<Rightarrow> nat" where
  "accesses [] = 0"
| "accesses (Access _ # log) = Suc (accesses log)"
| "accesses (CheckFailed _ _ # log) = accesses log"

lemma accesses_append [simp]: "accesses (a @ b) = accesses a + accesses b"
  by (induction a rule: accesses.induct) auto

abbreviation logged :: "('h, 'r) flow \<Rightarrow> bool" where
  "logged flow \<equiv> truthy (f_meta flow ''a_box_logged'')"

definition once :: "('h, 'r) flow \<times> log_record list \<Rightarrow> bool" where
  "once s \<longleftrightarrow> accesses (snd s) = (if logged (fst s) then 1 else 0)"

lemma access_once: "once (flow, log) \<Longrightarrow> once (access i flow s log) \<and> logged (fst (access i flow s log))"
  by (auto simp: once_def access_def Let_def truthy_def)

context flow_check
begin

lemma guarded_once:
  assumes "once (flow, log)"
  shows "once (guarded M i check flow log) \<and> (logged flow \<longrightarrow> logged (fst (guarded M i check flow log)))"
proof (cases "verdict check flow")
  case None
  have "f_meta (fst (check flow)) ''a_box_logged'' = f_meta flow ''a_box_logged''"
    using check_frame[of flow "fst (check flow)" "snd (check flow)"] by simp
  with assms guarded_passes[OF None, of M i log] show ?thesis by (simp add: once_def)
next
  case (Some reason)
  obtain flow' log' where g: "guarded M i check flow log = (flow', log')" by (cases "guarded M i check flow log")
  from guarded_blocks(6)[OF Some g] obtain es l where
    l: "log' = log @ es @ (if logged flow then [] else [Access l])" and
    es: "case snd (check flow) of Inl x \<Rightarrow> es = [CheckFailed i x] | Inr _ \<Rightarrow> es = []" by blast
  have "accesses es = 0" using es by (cases "snd (check flow)") auto
  with l guarded_blocks(3)[OF Some g] assms show ?thesis by (auto simp: once_def g)
qed

end

lemma run_event_once:
  assumes "once s"
  shows "once (run_event M g ev s) \<and> (logged (fst s) \<longrightarrow> logged (fst (run_event M g ev s))) \<and>
    (ev = Response \<or> ev = Error \<longrightarrow> logged (fst (run_event M g ev s)))"
proof (cases s)
  case (Pair flow log)
  with assms have o: "once (flow, log)" by simp
  show ?thesis
  proof (cases ev)
    case HttpConnect
    then show ?thesis using chk_connect.guarded_once[OF o] Pair by (simp add: http_connect_def)
  next
    case Request
    then show ?thesis using chk_request.guarded_once[OF o] Pair by (simp add: request_hook_def)
  next
    case ResponseHeaders
    then show ?thesis using o Pair by (auto simp: once_def responseheaders_def split: sum.splits option.splits if_splits)
  qed (use access_once[OF o] o Pair in \<open>auto simp: response_hook_def error_hook_def once_def\<close>)
qed

lemma run_events_once:
  "once s \<Longrightarrow> once (run_events M g evs s) \<and> (logged (fst s) \<longrightarrow> logged (fst (run_events M g evs s))) \<and>
    (Response \<in> set evs \<or> Error \<in> set evs \<longrightarrow> logged (fst (run_events M g evs s)))"
proof (induction evs arbitrary: s)
  case (Cons ev evs)
  from run_event_once[OF Cons.prems, of M g ev]
    Cons.IH[of "run_event M g ev s"] show ?case by auto
qed simp

section \<open>Properties\<close>

text \<open>
  C2. What is forwarded. For a guard with all its secrets, a request to an allowed destination whose
  Host header names that destination passes: no response is set and nothing is logged. Its headers
  are then, name by name: the entry's credential alone where the entry injects one (every copy the
  guest sent is gone), nothing for the two proxy headers, and the guest's own values otherwise; and
  the flow is marked exactly when the entry injects something.
\<close>

theorem request_forwards:
  assumes "header_laws M" "guard_ok g"
    and "lookup (g_policy g) (r_host (f_request flow)) (r_port (f_request flow)) = Some e"
    and "normalize_host (pretty_host M (f_request flow)) = normalize_host (r_host (f_request flow))"
  shows "\<exists>flow'. request_hook M g flow log = (flow', log) \<and>
    f_response flow' = f_response flow \<and> same_target (f_request flow') (f_request flow) \<and>
    (\<forall>n. headers_all M (r_headers (f_request flow')) n = header_after M g e (r_headers (f_request flow)) n) \<and>
    f_meta flow' = (if e_inject e \<noteq> [] then (f_meta flow)(''credential_injected'' \<mapsto> MTrue) else f_meta flow)"
proof -
  obtain flow' where c: "check_request M g flow = (flow', Inr None)"
    and h: "\<forall>n. headers_all M (r_headers (f_request flow')) n = header_after M g e (r_headers (f_request flow)) n"
    and m: "f_meta flow' = (if e_inject e \<noteq> [] then (f_meta flow)(''credential_injected'' \<mapsto> MTrue) else f_meta flow)"
    using check_request_headers[OF assms] by blast
  have "verdict (check_request M g) flow = None" by (simp add: verdict_def c)
  from chk_request.guarded_passes[OF this] have "request_hook M g flow log = (flow', log)"
    by (simp add: request_hook_def c)
  with check_request_frame(1,2)[OF c] h m show ?thesis by blast
qed

definition sample_guard :: guard where
  "sample_guard = \<lparr>g_instance = ''1'', g_policy = sample_policy,
     g_secrets = [''inner'' \<mapsto> ''inner-secret'', ''outer'' \<mapsto> ''outer-secret'']\<rparr>"

lemma sample_guard_ok: "guard_ok sample_guard"
  by (auto simp: guard_ok_def sample_guard_def sample_policy_def sample_entry_def)

lemma sample_lookup: "lookup (g_policy sample_guard) ''m.test'' 443 =
    Some (sample_entry ''m.test'' ''m.test'' '''' None [(''Authorization'', ''outer'')])"
  by code_simp

definition forged_flow :: "((pystr \<times> pystr) list, int) flow" where
  "forged_flow = sample_flow ''/'' [(''host'', ''M.test''), (''authorization'', ''forged''),
     (''proxy-connection'', ''x''), (''accept'', ''y'')]"

lemma forged_flow_host: "normalize_host (pretty_host sample_mitm (f_request forged_flow)) =
    normalize_host (r_host (f_request forged_flow))"
  by code_simp

theorem request_forwards_witness:
  "\<exists>flow'. request_hook sample_mitm sample_guard forged_flow [] = (flow', []) \<and>
     headers_all sample_mitm (r_headers (f_request flow')) ''AUTHORIZATION'' = [''outer-secret''] \<and>
     headers_all sample_mitm (r_headers (f_request flow')) ''Proxy-Connection'' = []"
proof -
  have l: "lookup (g_policy sample_guard) (r_host (f_request forged_flow)) (r_port (f_request forged_flow)) =
      Some (sample_entry ''m.test'' ''m.test'' '''' None [(''Authorization'', ''outer'')])"
    using sample_lookup by (simp add: forged_flow_def sample_flow_def sample_request_def)
  have "header_after sample_mitm sample_guard (sample_entry ''m.test'' ''m.test'' '''' None [(''Authorization'', ''outer'')])
      (r_headers (f_request forged_flow)) ''AUTHORIZATION'' = [''outer-secret'']"
    and "header_after sample_mitm sample_guard (sample_entry ''m.test'' ''m.test'' '''' None [(''Authorization'', ''outer'')])
      (r_headers (f_request forged_flow)) ''Proxy-Connection'' = []"
    by code_simp+
  with request_forwards[OF sample_mitm_laws(1) sample_guard_ok l forged_flow_host, of "[]"]
  show ?thesis by metis
qed

text \<open>
  C5. What is refused. A request to a destination that is not on the allowlist, or whose Host header
  names another one, gets a 403 response and is marked as blocked; the request is not changed at all,
  so it carries no credential, and exactly one access line is written (none if the flow has one).
\<close>

theorem request_refuses:
  assumes "response_laws M" "request_hook M g flow log = (flow', log')"
    and "lookup (g_policy g) (r_host (f_request flow)) (r_port (f_request flow)) = None \<or>
      normalize_host (pretty_host M (f_request flow)) \<noteq> normalize_host (r_host (f_request flow))"
  shows "map_option (status_code M) (f_response flow') = Some 403 \<and> f_meta flow' ''a_box_blocked'' \<noteq> None \<and>
    f_request flow' = f_request flow \<and>
    f_meta flow' ''credential_injected'' = f_meta flow ''credential_injected'' \<and>
    (\<exists>l. log' = log @ (if logged flow then [] else [Access l]))"
proof -
  obtain reason where c: "check_request M g flow = (flow, Inr (Some reason))"
    using check_request_refused[OF assms(3)] by blast
  then have v: "verdict (check_request M g) flow = Some reason" by (simp add: verdict_def)
  note b = chk_request.guarded_blocks[OF v assms(2)[unfolded request_hook_def]]
  from b(6) c have "\<exists>l. log' = log @ (if logged flow then [] else [Access l])" by simp
  with b(1,2,4,5) c assms(1) show ?thesis by (simp add: response_laws_def)
qed

theorem request_refuses_witness:
  "\<exists>flow' l. request_hook sample_mitm sample_guard (sample_flow ''/'' [(''host'', ''other.test'')]) [] = (flow', [Access l]) \<and>
     f_response flow' = Some 403"
proof -
  let ?f = "sample_flow ''/'' [(''host'', ''other.test'')]"
  obtain flow' log' where r: "request_hook sample_mitm sample_guard ?f [] = (flow', log')"
    by (cases "request_hook sample_mitm sample_guard ?f []")
  have "normalize_host (pretty_host sample_mitm (f_request ?f)) \<noteq> normalize_host (r_host (f_request ?f))"
    by code_simp
  with request_refuses[OF sample_mitm_laws(2) r]
  have a: "map_option (status_code sample_mitm) (f_response flow') = Some 403"
    and l: "\<exists>l. log' = [] @ (if logged ?f then [] else [Access l])" by blast+
  have "\<not> logged ?f" by (simp add: sample_flow_def truthy_def)
  with l obtain l where "log' = [Access l]" by auto
  with a r show ?thesis by (auto simp: sample_mitm_def)
qed

text \<open>
  C11. Fail closed. Whatever the check does before it raises an exception, the flow ends with a 403
  response and the mark of a blocked flow, and the failure is logged.
\<close>

theorem guarded_fail_closed:
  assumes "response_laws M" "check flow = (flow1, Inl x)" "guarded M i check flow log = (flow', log')"
  shows "map_option (status_code M) (f_response flow') = Some 403 \<and>
    f_meta flow' ''a_box_blocked'' = Some (MStr ''internal error'') \<and>
    f_request flow' = f_request flow1 \<and> logged flow' \<and>
    (\<exists>l. log' = log @ CheckFailed i x # (if logged flow1 then [] else [Access l]))"
proof -
  define f2 where "f2 = flow1\<lparr>f_response := Some (response_make M 403 (block_text (f_request flow1) ''internal error'')
      [(''Content-Type'', ''text/plain''), (''Connection'', ''close'')]),
      f_meta := (f_meta flow1)(''a_box_blocked'' \<mapsto> MStr ''internal error'')\<rparr>"
  have "access i f2 403 (log @ [CheckFailed i x]) = (flow', log')"
    using assms by (simp add: guarded_def f2_def)
  from access_cases[OF this] show ?thesis
    using assms(1) by (auto simp: f2_def response_laws_def)
qed

theorem guarded_fail_closed_witness:
  "\<exists>flow' log'. guarded sample_mitm ''1'' (\<lambda>f. (f, Inl (KeyError ''key''))) forged_flow [] = (flow', log') \<and>
     f_response flow' = Some 403"
proof -
  obtain flow' log' where g: "guarded sample_mitm ''1'' (\<lambda>f. (f, Inl (KeyError ''key''))) forged_flow [] = (flow', log')"
    by (cases "guarded sample_mitm ''1'' (\<lambda>f. (f, Inl (KeyError ''key''))) forged_flow []")
  from guarded_fail_closed[OF sample_mitm_laws(2) _ g] have "map_option (status_code sample_mitm) (f_response flow') = Some 403"
    by blast
  then have "f_response flow' = Some 403" by (auto simp: sample_mitm_def)
  with g show ?thesis by blast
qed

text \<open>
  C33. CONNECT. A CONNECT to an allowed destination leaves flow and log as they are; any other gets a
  403 response, the mark of a blocked flow and one access line, and its request is unchanged.
\<close>

theorem connect_decision:
  assumes "response_laws M" "http_connect M g flow log = (flow', log')"
  shows "if lookup (g_policy g) (r_host (f_request flow)) (r_port (f_request flow)) \<noteq> None
    then flow' = flow \<and> log' = log
    else map_option (status_code M) (f_response flow') = Some 403 \<and>
      f_meta flow' ''a_box_blocked'' = Some (MStr not_allowed) \<and> f_request flow' = f_request flow \<and>
      (\<exists>l. log' = log @ (if logged flow then [] else [Access l]))"
proof (cases "lookup (g_policy g) (r_host (f_request flow)) (r_port (f_request flow))")
  case None
  then have c: "check_connect g flow = (flow, Inr (Some not_allowed))" by (simp add: check_connect_def)
  then have v: "verdict (check_connect g) flow = Some not_allowed" by (simp add: verdict_def)
  note b = chk_connect.guarded_blocks[OF v assms(2)[unfolded http_connect_def]]
  from b(6) c have "\<exists>l. log' = log @ (if logged flow then [] else [Access l])" by simp
  with b(1,2,4) c assms(1) None show ?thesis by (simp add: response_laws_def)
next
  case (Some e)
  then have c: "check_connect g flow = (flow, Inr None)" by (simp add: check_connect_def)
  then have v: "verdict (check_connect g) flow = None" by (simp add: verdict_def)
  from chk_connect.guarded_passes[OF v, of M "g_instance g" log] assms(2) c Some
  show ?thesis by (simp add: http_connect_def)
qed

theorem connect_decision_witness:
  "\<exists>flow' l. http_connect sample_mitm sample_guard (forged_flow\<lparr>f_request := (f_request forged_flow)\<lparr>r_port := 22\<rparr>\<rparr>) [] =
     (flow', [Access l]) \<and> f_response flow' = Some 403"
proof -
  let ?f = "forged_flow\<lparr>f_request := (f_request forged_flow)\<lparr>r_port := 22\<rparr>\<rparr>"
  obtain flow' log' where r: "http_connect sample_mitm sample_guard ?f [] = (flow', log')"
    by (cases "http_connect sample_mitm sample_guard ?f []")
  have n: "lookup (g_policy sample_guard) (r_host (f_request ?f)) (r_port (f_request ?f)) = None" by code_simp
  have "\<not> logged ?f" by (simp add: forged_flow_def sample_flow_def truthy_def)
  with connect_decision[OF sample_mitm_laws(2) r] n
  have "map_option (status_code sample_mitm) (f_response flow') = Some 403" "\<exists>l. log' = [] @ [Access l]"
    by auto
  with r show ?thesis by (auto simp: sample_mitm_def)
qed

text \<open>
  One access line per flow. In whatever order mitmproxy calls the hooks on a fresh flow, at most
  one access line is written, and exactly one if the flow reaches its response or error hook.
\<close>

lemma one_access_line:
  assumes "\<not> logged flow" "accesses log = 0" "run_events M g evs (flow, log) = (flow', log')"
  shows "accesses log' \<le> 1 \<and> (Response \<in> set evs \<or> Error \<in> set evs \<longrightarrow> accesses log' = 1)"
proof -
  have "once (flow, log)" using assms(1,2) by (simp add: once_def)
  from run_events_once[OF this, of M g evs] assms(3) show ?thesis by (auto simp: once_def)
qed

end
