(* ===== verification/Startup.thy ===== *)
theory Startup
  imports Guards
begin

text \<open>
  Start of the proxy addon (\<open>from_environment\<close>, \<open>setup_logging\<close>, \<open>sd_notify\<close> of guard.py, and
  addon.py): the guard is built from the policy file and the credentials directory named in the
  environment. JSON parsing is an argument (\<open>json_load\<close>) that returns the two keys guard.py reads;
  the configuration is of the schema in guard.py's documentation. The file system and the order of
  set iteration are the arguments of \<open>Secrets\<close>.
\<close>

type_synonym environ = "pystr \<rightharpoonup> pystr"

record config =
  c_instance :: "pystr option"
  c_domains :: "(pystr \<times> domain) list option"

definition from_environment ::
  "environ \<Rightarrow> (bytes \<Rightarrow> exn + config) \<Rightarrow> (pystr set \<Rightarrow> pystr list) \<Rightarrow> files \<Rightarrow> exn + guard" where
  "from_environment env json_load order fs =
     (case env ''A_BOX_POLICY'' of None \<Rightarrow> Inl (KeyError ''A_BOX_POLICY'') | Some path \<Rightarrow>
      (case fs path of Inl x \<Rightarrow> Inl x | Inr b \<Rightarrow>
      (case json_load b of Inl x \<Rightarrow> Inl x | Inr config \<Rightarrow>
      (case c_domains config of None \<Rightarrow> Inl (KeyError ''domains'') | Some domains \<Rightarrow>
      (case make_policy domains of Inl x \<Rightarrow> Inl x | Inr pol \<Rightarrow>
      (case (if list_ex (\<lambda>e. e_inject e \<noteq> []) (entries pol)
             then (case env ''CREDENTIALS_DIRECTORY'' of
                     None \<Rightarrow> Inl (KeyError ''CREDENTIALS_DIRECTORY'')
                   | Some d \<Rightarrow> read_secrets order fs pol d)
             else Inr Map.empty) of Inl x \<Rightarrow> Inl x | Inr secrets \<Rightarrow>
      (case c_instance config of None \<Rightarrow> Inl (KeyError ''instance'') | Some i \<Rightarrow>
         Inr \<lparr>g_instance = i, g_policy = pol, g_secrets = secrets\<rparr>)))))))"

section \<open>Readiness and logging\<close>

definition sd_notify :: "environ \<Rightarrow> pystr \<Rightarrow> (bytes \<times> bytes) option" where
  \<comment> \<open>the address connected to and the datagram sent, if any\<close>
  "sd_notify env state =
     (case env ''NOTIFY_SOCKET'' of
        None \<Rightarrow> None
      | Some path \<Rightarrow>
          if path = '''' then None
          else Some (if prefix ''@'' path then CHR 0x00 # drop 1 path else path, state))"

definition running :: "environ \<Rightarrow> (bytes \<times> bytes) option" where
  "running env = sd_notify env ''READY=1''"

datatype handler = StderrHandler pystr \<comment> \<open>a stream handler on stderr with its format\<close>

record logger =
  l_handlers :: "handler list"
  l_level :: int
  l_propagate :: bool

definition setup_logging :: "logger \<Rightarrow> logger" where
  "setup_logging log =
     log\<lparr>l_handlers := l_handlers log @ [StderrHandler ''%(message)s''], l_level := 20, l_propagate := False\<rparr>"

definition addon_main ::
  "environ \<Rightarrow> (bytes \<Rightarrow> exn + config) \<Rightarrow> (pystr set \<Rightarrow> pystr list) \<Rightarrow> files \<Rightarrow> logger \<Rightarrow> logger \<times> (exn + guard list)" where
  "addon_main env json_load order fs log =
     (setup_logging log,
      case from_environment env json_load order fs of Inl x \<Rightarrow> Inl x | Inr g \<Rightarrow> Inr [g])"

section \<open>What a started guard has\<close>

lemma from_environment_files:
  assumes "from_environment env json_load order fs = Inr g"
  shows "\<exists>path b config ds. env ''A_BOX_POLICY'' = Some path \<and> fs path = Inr b \<and> json_load b = Inr config \<and>
    c_domains config = Some ds \<and> make_policy ds = Inr (g_policy g) \<and> c_instance config = Some (g_instance g)"
  using assms by (auto simp: from_environment_def split: option.splits sum.splits if_splits)

lemma from_environment_secrets:
  assumes "from_environment env json_load order fs = Inr g"
  shows "if list_ex (\<lambda>e. e_inject e \<noteq> []) (entries (g_policy g))
    then \<exists>d. env ''CREDENTIALS_DIRECTORY'' = Some d \<and> read_secrets order fs (g_policy g) d = Inr (g_secrets g)
    else g_secrets g = Map.empty"
  using assms by (auto simp: from_environment_def split: option.splits sum.splits if_splits)

lemma no_inject_no_names:
  "\<not> list_ex (\<lambda>e. e_inject e \<noteq> []) (entries pol) \<Longrightarrow> e \<in> set (entries pol) \<Longrightarrow> e_inject e = []"
  by (auto simp: list_ex_iff)

lemma from_environment_guard:
  assumes "set_order order" "from_environment env json_load order fs = Inr g"
  shows "guard_ok g" "wf_policy (g_policy g)"
    "g_secrets g c = Some v \<Longrightarrow> v \<noteq> [] \<and> list_all printable_ascii v"
proof -
  note s = from_environment_secrets[OF assms(2)]
  show "wf_policy (g_policy g)"
    using from_environment_files[OF assms(2)] by (auto dest: make_policy_wf)
  have "guard_ok g \<and> (\<forall>c v. g_secrets g c = Some v \<longrightarrow> v \<noteq> [] \<and> list_all printable_ascii v)"
  proof (cases "list_ex (\<lambda>e. e_inject e \<noteq> []) (entries (g_policy g))")
    case True
    with s obtain d where r: "read_secrets order fs (g_policy g) d = Inr (g_secrets g)" by auto
    have "dom (g_secrets g) = credential_names (g_policy g)"
      using read_secrets_dom[OF assms(1) r] .
    then have "guard_ok g"
      unfolding guard_ok_def by (metis credential_names_iff domIff)
    then show ?thesis using read_secrets_valid[OF assms(1) r] by blast
  next
    case False
    with s show ?thesis by (auto simp: guard_ok_def dest: no_inject_no_names)
  qed
  then show "guard_ok g" "g_secrets g c = Some v \<Longrightarrow> v \<noteq> [] \<and> list_all printable_ascii v" by blast+
qed

lemma check_request_no_error: "guard_ok g \<Longrightarrow> \<not> isl (snd (check_request M g flow))"
proof (cases "lookup (g_policy g) (r_host (f_request flow)) (r_port (f_request flow)) = None \<or>
    normalize_host (pretty_host M (f_request flow)) \<noteq> normalize_host (r_host (f_request flow))")
  case True
  from check_request_refused[OF this] show ?thesis by auto
next
  case False
  assume g: "guard_ok g"
  from False obtain e where "lookup (g_policy g) (r_host (f_request flow)) (r_port (f_request flow)) = Some e"
    and "normalize_host (pretty_host M (f_request flow)) = normalize_host (r_host (f_request flow))" by auto
  from check_request_allowed[OF g this] show ?thesis by (metis isl_def sum.distinct(1) snd_conv)
qed

fun check_failures :: "log_record list \<Rightarrow> nat" where
  "check_failures [] = 0"
| "check_failures (CheckFailed _ _ # log) = Suc (check_failures log)"
| "check_failures (Access _ # log) = check_failures log"

lemma check_failures_append [simp]: "check_failures (a @ b) = check_failures a + check_failures b"
  by (induction a rule: check_failures.induct) auto

lemma access_no_failure: "check_failures (snd (access i flow s log)) = check_failures log"
  by (simp add: access_def Let_def)

lemma guarded_no_failure: "\<not> isl (snd (check flow)) \<Longrightarrow>
    check_failures (snd (guarded M i check flow log)) = check_failures log"
  by (cases "check flow") (auto simp: guarded_def access_no_failure Let_def split: sum.splits option.splits)

lemma run_event_no_failure:
  assumes "guard_ok g"
  shows "check_failures (snd (run_event M g ev s)) = check_failures (snd s)"
proof (cases s)
  case (Pair flow log)
  have "\<not> isl (snd (check_connect g flow))" by (simp add: check_connect_def)
  then have c: "check_failures (snd (http_connect M g flow log)) = check_failures log"
    unfolding http_connect_def by (rule guarded_no_failure)
  have r: "check_failures (snd (request_hook M g flow log)) = check_failures log"
    unfolding request_hook_def by (rule guarded_no_failure) (rule check_request_no_error[OF assms])
  show ?thesis
    unfolding Pair using c r
    by (cases ev) (simp_all add: response_hook_def error_hook_def access_no_failure split: sum.split)
qed

lemma run_events_no_failure:
  "guard_ok g \<Longrightarrow> check_failures (snd (run_events M g evs s)) = check_failures (snd s)"
  by (induction evs arbitrary: s) (simp_all add: run_event_no_failure)

section \<open>Properties\<close>

text \<open>
  C12. No proxy without its policy. If start-up succeeds, the policy file was named, readable and parsed, and
  the guard has one entry for each of its domains, in order: the entry the key denotes by the pattern,
  with a port in range, and with the injections of the domain. For every credential that a domain
  injects, the credentials directory was named, its file holds one non-empty line of printable ASCII
  (and line ends), and this line is the guard's value for it.
\<close>

theorem startup_complete:
  assumes "set_order order" "from_environment env json_load order fs = Inr g"
  shows "\<exists>path b config ds. env ''A_BOX_POLICY'' = Some path \<and> fs path = Inr b \<and> json_load b = Inr config \<and>
    c_domains config = Some ds \<and> c_instance config = Some (g_instance g) \<and>
    list_all2 entry_for ds (entries (g_policy g)) \<and>
    (\<forall>k v h c. (k, v) \<in> set ds \<and> (h, c) \<in> set (get_inject v) \<longrightarrow>
      (\<exists>d s. env ''CREDENTIALS_DIRECTORY'' = Some d \<and> g_secrets g c = Some s \<and> one_line fs (path_join d c) s))"
proof -
  obtain path b config ds where f: "env ''A_BOX_POLICY'' = Some path" "fs path = Inr b" "json_load b = Inr config"
    "c_domains config = Some ds" "make_policy ds = Inr (g_policy g)" "c_instance config = Some (g_instance g)"
    using from_environment_files[OF assms(2)] by blast
  then have for_ds: "list_all2 entry_for ds (entries (g_policy g))" by (simp add: make_policy_for)
  have "\<exists>d s. env ''CREDENTIALS_DIRECTORY'' = Some d \<and> g_secrets g c = Some s \<and> one_line fs (path_join d c) s"
    if kv: "(k, v) \<in> set ds" and hc: "(h, c) \<in> set (get_inject v)" for k v h c
  proof -
    obtain i where n: "i < length ds" "ds ! i = (k, v)" using kv by (metis in_set_conv_nth)
    define e where "e = entries (g_policy g) ! i"
    have e: "e \<in> set (entries (g_policy g))" "entry_for (k, v) e"
      using list_all2_nthD[OF for_ds n(1)] list_all2_lengthD[OF for_ds] n by (simp_all add: e_def)
    then have i: "(h, c) \<in> set (e_inject e)" using hc by (simp add: entry_for_def)
    then have c: "c \<in> credential_names (g_policy g)" using e(1) by (auto simp: credential_names_iff)
    have "list_ex (\<lambda>e. e_inject e \<noteq> []) (entries (g_policy g))" using e(1) i by (force simp: list_ex_iff)
    with from_environment_secrets[OF assms(2)] obtain d where
      d: "env ''CREDENTIALS_DIRECTORY'' = Some d" "read_secrets order fs (g_policy g) d = Inr (g_secrets g)" by auto
    from d(2) c obtain s where "g_secrets g c = Some s" "read_credential fs d c = Inr s"
      unfolding read_secrets_Inr[OF assms(1)] secrets_of_def by (metis sum.collapse(2))
    with d(1) show ?thesis by (auto simp: read_credential_iff)
  qed
  with f for_ds show ?thesis by (intro exI conjI) blast+
qed

definition sample_env :: environ where
  "sample_env = [''A_BOX_POLICY'' \<mapsto> ''/policy.json'', ''CREDENTIALS_DIRECTORY'' \<mapsto> ''/creds'']"

definition sample_fs :: files where
  "sample_fs p = (if p = ''/policy.json'' then Inr ''{}'' else sample_files p)"

definition sample_json :: "bytes \<Rightarrow> exn + config" where
  "sample_json b = Inr \<lparr>c_instance = Some ''1'', c_domains = Some sample_domains\<rparr>"

lemma sample_start_with:
  assumes "fs ''/policy.json'' = Inr ''{}''"
    and "\<not> isl (read_credential fs ''/creds'' ''inner'')" "\<not> isl (read_credential fs ''/creds'' ''outer'')"
  shows "\<exists>g. from_environment sample_env sample_json sorted_list_of_set fs = Inr g \<and> g_policy g = sample_policy \<and>
    g_secrets g = secrets_of fs sample_policy ''/creds''"
proof -
  have "\<forall>n\<in>credential_names sample_policy. \<not> isl (read_credential fs ''/creds'' n)"
    using assms(2,3) by (auto simp: credential_names_def sample_policy_def sample_entry_def)
  then have r: "read_secrets sorted_list_of_set fs sample_policy ''/creds'' = Inr (secrets_of fs sample_policy ''/creds'')"
    by (simp add: read_secrets_Inr[OF sorted_set_order])
  have "list_ex (\<lambda>e. e_inject e \<noteq> []) (entries sample_policy)" by code_simp
  then show ?thesis
    by (simp add: from_environment_def sample_env_def sample_json_def make_sample_policy r assms(1))
qed

lemma sample_start: "\<exists>g. from_environment sample_env sample_json sorted_list_of_set sample_fs = Inr g \<and>
    g_policy g = sample_policy"
proof -
  have "\<not> isl (read_credential sample_fs ''/creds'' ''inner'')" "\<not> isl (read_credential sample_fs ''/creds'' ''outer'')"
    by code_simp+
  moreover have "sample_fs ''/policy.json'' = Inr ''{}''" by (simp add: sample_fs_def)
  ultimately show ?thesis using sample_start_with[of sample_fs] by blast
qed

theorem startup_complete_witness:
  "\<exists>g. from_environment sample_env sample_json sorted_list_of_set sample_fs = Inr g \<and>
     map e_key (entries (g_policy g)) = [''*.m.test'', ''m.test'', ''.m.test:8443''] \<and>
     g_secrets g ''inner'' = Some ''inner-secret''"
proof -
  obtain g where g: "from_environment sample_env sample_json sorted_list_of_set sample_fs = Inr g"
    using sample_start by blast
  from startup_complete[OF sorted_set_order g] obtain b config ds where
    ds: "sample_json b = Inr config" "c_domains config = Some ds" "list_all2 entry_for ds (entries (g_policy g))"
      "\<forall>k v h c. (k, v) \<in> set ds \<and> (h, c) \<in> set (get_inject v) \<longrightarrow>
        (\<exists>d s. sample_env ''CREDENTIALS_DIRECTORY'' = Some d \<and> g_secrets g c = Some s \<and> one_line sample_fs (path_join d c) s)"
    by (elim exE conjE) (rule that)
  then have "ds = sample_domains" by (auto simp: sample_json_def)
  with ds(3) have "map e_key (entries (g_policy g)) = map fst sample_domains"
    by (auto simp: list_all2_conv_all_nth entry_for_def intro: nth_equalityI)
  moreover have "(''*.m.test'', \<lparr>dom_inject = Some [(''Authorization'', ''inner'')]\<rparr>) \<in> set sample_domains"
    "(''Authorization'', ''inner'') \<in> set (get_inject \<lparr>dom_inject = Some [(''Authorization'', ''inner'')]\<rparr>)"
    by (simp_all add: sample_domains_def get_inject_def)
  then obtain s where s: "g_secrets g ''inner'' = Some s" "read_credential sample_fs ''/creds'' ''inner'' = Inr s"
    using ds(4) \<open>ds = _\<close> by (fastforce simp: sample_env_def read_credential_iff)
  moreover have "read_credential sample_fs ''/creds'' ''inner'' = Inr ''inner-secret''" by code_simp
  ultimately show ?thesis using g by (simp add: sample_domains_def)
qed

text \<open>
  A started guard never fails internally. After a successful start no sequence of hooks ever logs
  a failed check: every block is one the policy decided.
\<close>

lemma started_guard_never_fails:
  assumes "set_order order" "from_environment env json_load order fs = Inr g"
    and "run_events M g evs (flow, log) = (flow', log')"
  shows "check_failures log' = check_failures log"
  using run_events_no_failure[OF from_environment_guard(1)[OF assms(1,2)], of M evs "(flow, log)"] assms(3)
  by simp

text \<open>
  C1. Credentials stay with their hosts. Take a started guard and a request it does not block. A value
  that a header has afterwards and did not have in the guest's request is the value of a credential
  that an entry injects under that header's name, and the entry's port and labels cover the request's
  destination.
\<close>

theorem credential_confinement:
  assumes "set_order order" "from_environment env json_load order fs = Inr g" "header_laws M"
    and "request_hook M g flow log = (flow', log')"
    and "f_response flow' = None"
    and "v \<in> set (headers_all M (r_headers (f_request flow')) n)"
    and "v \<notin> set (headers_all M (r_headers (f_request flow)) n)"
  shows "\<exists>e h c. e \<in> set (entries (g_policy g)) \<and> (h, c) \<in> set (e_inject e) \<and> same_header n h \<and> g_secrets g c = Some v \<and>
    r_port (f_request flow) \<in> (case e_port e of Some p \<Rightarrow> {p} | None \<Rightarrow> DEFAULT_PORTS) \<and>
    covers_labels e (split_dots (normalize_host (r_host (f_request flow))))"
proof -
  note g = from_environment_guard[OF assms(1,2)]
  let ?l = "lookup (g_policy g) (r_host (f_request flow)) (r_port (f_request flow))"
  have pass: "?l \<noteq> None \<and> normalize_host (pretty_host M (f_request flow)) = normalize_host (r_host (f_request flow))"
  proof (rule ccontr)
    assume "\<not> ?thesis"
    then have "?l = None \<or> normalize_host (pretty_host M (f_request flow)) \<noteq> normalize_host (r_host (f_request flow))"
      by blast
    from check_request_refused[OF this] obtain reason where
      c: "check_request M g flow = (flow, Inr (Some reason))" by blast
    then have "verdict (check_request M g) flow = Some reason" by (simp add: verdict_def)
    from chk_request.guarded_blocks(1)[OF this assms(4)[unfolded request_hook_def]] assms(5)
    show False by simp
  qed
  then obtain e where e: "?l = Some e" by blast
  obtain f2 where c: "check_request M g flow = (f2, Inr None)" and
    h: "\<forall>n. headers_all M (r_headers (f_request f2)) n = header_after M g e (r_headers (f_request flow)) n"
    using check_request_headers[OF assms(3) g(1) e conjunct2[OF pass]] by blast
  have "verdict (check_request M g) flow = None" by (simp add: verdict_def c)
  from chk_request.guarded_passes[OF this, of M "g_instance g" log] assms(4) c
  have "flow' = f2" by (simp add: request_hook_def)
  with h assms(6) have "v \<in> set (header_after M g e (r_headers (f_request flow)) n)" by simp
  with assms(7) obtain c where i: "injected (e_inject e) n = Some c" "v = the (g_secrets g c)"
    by (auto simp: header_after_def split: option.splits if_splits)
  from injected_in[OF i(1)] obtain hd where hd: "(hd, c) \<in> set (e_inject e)" "same_header n hd" by blast
  have eset: "e \<in> set (entries (g_policy g))" and m: "matches e (normalize_host (r_host (f_request flow))) (r_port (f_request flow))"
    using lookup_SomeD[OF e] by blast+
  have "g_secrets g c = Some v" using g(1) eset hd(1) i(2) unfolding guard_ok_def by fastforce
  moreover have "wf_entry e" using g(2) eset by (simp add: wf_policy_def list_all_iff)
  ultimately show ?thesis using eset hd m matches_labels by blast
qed

theorem credential_confinement_witness:
  "\<exists>g flow' log' v. from_environment sample_env sample_json sorted_list_of_set sample_fs = Inr g \<and>
     request_hook sample_mitm g forged_flow [] = (flow', log') \<and>
     v \<in> set (headers_all sample_mitm (r_headers (f_request flow')) ''Authorization'') \<and>
     (\<exists>e h c. e \<in> set (entries (g_policy g)) \<and> (h, c) \<in> set (e_inject e) \<and> g_secrets g c = Some v)"
proof -
  let ?e = "sample_entry ''m.test'' ''m.test'' '''' None [(''Authorization'', ''outer'')]"
  obtain g where g: "from_environment sample_env sample_json sorted_list_of_set sample_fs = Inr g"
    "g_policy g = sample_policy" using sample_start by blast
  note ok = from_environment_guard[OF sorted_set_order g(1)]
  have "''outer'' \<in> credential_names sample_policy" by code_simp
  then have "g_secrets g ''outer'' \<noteq> None"
    using ok(1) unfolding guard_ok_def credential_names_iff g(2) by blast
  then obtain v where v: "g_secrets g ''outer'' = Some v" by blast
  have vv: "v = ''outer-secret''"
  proof -
    have "list_ex (\<lambda>e. e_inject e \<noteq> []) (entries (g_policy g))" unfolding g(2) by code_simp
    with from_environment_secrets[OF g(1)] obtain d where "sample_env ''CREDENTIALS_DIRECTORY'' = Some d"
        "read_secrets sorted_list_of_set sample_fs (g_policy g) d = Inr (g_secrets g)"
      by auto
    then have "g_secrets g = secrets_of sample_fs sample_policy ''/creds''"
      using g(2) by (simp add: sample_env_def read_secrets_Inr[OF sorted_set_order])
    moreover have "read_credential sample_fs ''/creds'' ''outer'' = Inr ''outer-secret''" by code_simp
    ultimately show ?thesis using v by (simp add: secrets_of_def split: if_splits)
  qed
  have l: "lookup (g_policy g) (r_host (f_request forged_flow)) (r_port (f_request forged_flow)) = Some ?e"
    unfolding g(2) by code_simp
  obtain f2 where c: "check_request sample_mitm g forged_flow = (f2, Inr None)" and
    h: "\<forall>n. headers_all sample_mitm (r_headers (f_request f2)) n =
        header_after sample_mitm g ?e (r_headers (f_request forged_flow)) n"
    using check_request_headers[OF sample_mitm_laws(1) ok(1) l forged_flow_host] by blast
  have "verdict (check_request sample_mitm g) forged_flow = None" by (simp add: verdict_def c)
  from chk_request.guarded_passes[OF this, of sample_mitm "g_instance g" "[]"] c
  have r: "request_hook sample_mitm g forged_flow [] = (f2, [])" by (simp add: request_hook_def)
  have "injected (e_inject ?e) ''Authorization'' = Some ''outer''" by code_simp
  with h v have a: "headers_all sample_mitm (r_headers (f_request f2)) ''Authorization'' = [v]"
    by (simp add: header_after_def)
  have "f_response f2 = None" using check_request_frame(2)[OF c] by (simp add: forged_flow_def sample_flow_def)
  moreover have "v \<notin> set (headers_all sample_mitm (r_headers (f_request forged_flow)) ''Authorization'')"
    unfolding vv by code_simp
  ultimately show ?thesis
    using credential_confinement[OF sorted_set_order g(1) sample_mitm_laws(1) r, of v "''Authorization''"] g r a
    by (auto simp: forged_flow_def sample_flow_def)
qed

end
