(* ===== verification/Confidentiality.thy ===== *)
theory Confidentiality
  imports Startup
begin

text \<open>
  What the values of the credentials have influence on. Two guards with the same policy and different
  credentials are run side by side on flows that may differ in the headers of their requests: whatever
  hooks are called, the two write the same log, give the same responses and make the same decisions.
  The only use of \<open>pretty_host\<close> is its Host header, so \<open>host_law\<close> says of mitmproxy that it does not
  depend on the other headers.
\<close>

definition host_law :: "('h, 'r) mitm \<Rightarrow> bool" where
  "host_law M \<longleftrightarrow> (\<forall>req h. headers_all M h ''Host'' = headers_all M (r_headers req) ''Host'' \<longrightarrow>
     pretty_host M (req\<lparr> r_headers := h \<rparr>) = pretty_host M req)"

definition alike :: "('h, 'r) mitm \<Rightarrow> ('h, 'r) flow \<Rightarrow> ('h, 'r) flow \<Rightarrow> bool" where
  \<comment> \<open>the same but for the request's headers, of which Host is the same\<close>
  "alike M f f' \<longleftrightarrow>
     (\<exists>h. f_request f' = (f_request f)\<lparr> r_headers := h \<rparr> \<and>
        headers_all M h ''Host'' = headers_all M (r_headers (f_request f)) ''Host'') \<and>
     f_response f' = f_response f \<and> f_meta f' = f_meta f"

definition keeps_host :: "policy \<Rightarrow> bool" where
  \<comment> \<open>no credential is injected as the Host header\<close>
  "keeps_host pol \<longleftrightarrow> list_all (\<lambda>e. list_all (\<lambda>(h, c). \<not> same_header ''Host'' h) (e_inject e)) (entries pol)"

definition twins :: "('h, 'r) mitm \<Rightarrow> guard \<Rightarrow> guard \<Rightarrow> bool" where
  "twins M g g' \<longleftrightarrow> header_laws M \<and> host_law M \<and> g_instance g' = g_instance g \<and> g_policy g' = g_policy g \<and>
     guard_ok g \<and> guard_ok g' \<and> keeps_host (g_policy g)"

lemma twinsD:
  assumes "twins M g g'"
  shows "header_laws M" "host_law M" "g_instance g' = g_instance g" "g_policy g' = g_policy g" "guard_ok g" "guard_ok g'"
    "keeps_host (g_policy g)" "keeps_host (g_policy g')"
  using assms by (simp_all add: twins_def)

section \<open>The parts\<close>

lemma alike_parts:
  assumes "alike M f f'"
  shows "r_host (f_request f') = r_host (f_request f)" "r_port (f_request f') = r_port (f_request f)"
    "r_method (f_request f') = r_method (f_request f)" "r_path (f_request f') = r_path (f_request f)"
    "headers_all M (r_headers (f_request f')) ''Host'' = headers_all M (r_headers (f_request f)) ''Host''"
    "f_response f' = f_response f" "f_meta f' = f_meta f"
  using assms by (auto simp: alike_def)

lemma alike_upd:
  assumes "alike M f f'"
  shows "alike M (f\<lparr> f_response := r \<rparr>) (f'\<lparr> f_response := r \<rparr>)" "alike M (f\<lparr> f_meta := m \<rparr>) (f'\<lparr> f_meta := m \<rparr>)"
  using assms by (simp_all add: alike_def)

lemma alike_pretty: "host_law M \<Longrightarrow> alike M f f' \<Longrightarrow> pretty_host M (f_request f') = pretty_host M (f_request f)"
  by (auto simp: alike_def host_law_def)

lemma alike_line: "alike M f f' \<Longrightarrow> access_line i f' s = access_line i f s"
  by (simp add: access_line_def Let_def alike_parts)

lemma access_alike:
  assumes "alike M f f'"
  shows "snd (access i f' s log) = snd (access i f s log)" "alike M (fst (access i f s log)) (fst (access i f' s log))"
proof -
  have "access_line i (f'\<lparr> f_meta := m \<rparr>) s = access_line i (f\<lparr> f_meta := m \<rparr>) s" for m
    by (rule alike_line) (rule alike_upd(2)[OF assms])
  then show "snd (access i f' s log) = snd (access i f s log)"
    by (simp add: access_def Let_def alike_parts[OF assms])
  show "alike M (fst (access i f s log)) (fst (access i f' s log))"
    using assms alike_upd(2)[OF assms] by (simp add: access_def Let_def alike_parts[OF assms])
qed

lemma guarded_alike:
  assumes "snd (check' f') = snd (check f)" "alike M (fst (check f)) (fst (check' f'))"
  shows "snd (guarded M i check' f' log) = snd (guarded M i check f log)"
    "alike M (fst (guarded M i check f log)) (fst (guarded M i check' f' log))"
proof -
  obtain f1 res f1' where c: "check f = (f1, res)" "check' f' = (f1', res)"
    using assms(1) by (cases "check f"; cases "check' f'") auto
  then have a: "alike M f1 f1'" using assms(2) by simp
  have same_text: "block_text (f_request f1') r = block_text (f_request f1) r" for r
    by (simp add: block_text_def alike_parts[OF a])
  note blocked = access_alike[OF alike_upd(2)[OF alike_upd(1)[OF a]]]
  show "snd (guarded M i check' f' log) = snd (guarded M i check f log)"
    "alike M (fst (guarded M i check f log)) (fst (guarded M i check' f' log))"
    using a blocked by (auto simp: guarded_def c same_text alike_parts[OF a] Let_def split: sum.split option.split)
qed

lemma check_request_keeps_host:
  assumes "header_laws M" "guard_ok g" "keeps_host (g_policy g)"
    and "lookup (g_policy g) (r_host (f_request f)) (r_port (f_request f)) = Some e"
    and "normalize_host (pretty_host M (f_request f)) = normalize_host (r_host (f_request f))"
  shows "\<exists>h. headers_all M h ''Host'' = headers_all M (r_headers (f_request f)) ''Host'' \<and>
    check_request M g f = ((set_headers h f)\<lparr> f_meta := if e_inject e \<noteq> []
      then (f_meta f)(''credential_injected'' \<mapsto> MTrue) else f_meta f \<rparr>, Inr None)"
proof -
  obtain h where
    l: "inject_loop M (g_secrets g) (e_inject e) (pop_loop M HOP_BY_HOP (r_headers (f_request f))) = (h, Inr ())" and
    c: "check_request M g f =
      ((if e_inject e \<noteq> [] then (set_headers h f)\<lparr>f_meta := (f_meta f)(''credential_injected'' \<mapsto> MTrue)\<rparr>
        else set_headers h f), Inr None)"
    using check_request_allowed[OF assms(2,4,5)] by blast
  have "e \<in> set (entries (g_policy g))" using assms(4) by (rule lookup_SomeD)
  then have "injected (e_inject e) ''Host'' = None"
    using assms(3) injected_in[of "e_inject e" "''Host''"]
    by (cases "injected (e_inject e) ''Host''") (fastforce simp: keeps_host_def list_all_iff)+
  moreover have "\<not> list_ex (same_header ''Host'') HOP_BY_HOP" by code_simp
  ultimately have "headers_all M h ''Host'' = headers_all M (r_headers (f_request f)) ''Host''"
    using inject_loop_all[OF assms(1) l] pop_loop_all[OF assms(1)] by simp
  with c show ?thesis by (intro exI[of _ h]) (simp add: set_headers_def)
qed

section \<open>Hooks\<close>

lemma check_request_alike:
  assumes "twins M g g'" "alike M f f'"
  shows "snd (check_request M g' f') = snd (check_request M g f)"
    "alike M (fst (check_request M g f)) (fst (check_request M g' f'))"
proof -
  note tw = twinsD[OF assms(1)]
  note p = alike_parts[OF assms(2)] alike_pretty[OF tw(2) assms(2)] tw(4)
  let ?l = "lookup (g_policy g) (r_host (f_request f)) (r_port (f_request f))"
  let ?same = "normalize_host (pretty_host M (f_request f)) = normalize_host (r_host (f_request f))"
  have "snd (check_request M g' f') = snd (check_request M g f) \<and>
      alike M (fst (check_request M g f)) (fst (check_request M g' f'))"
  proof (cases "?l = None \<or> \<not> ?same")
    case True
    then show ?thesis using assms(2) by (cases ?l) (simp_all add: check_request_def p Let_def)
  next
    case False
    then obtain e where e: "?l = Some e" ?same by auto
    have e': "lookup (g_policy g') (r_host (f_request f')) (r_port (f_request f')) = Some e"
      "normalize_host (pretty_host M (f_request f')) = normalize_host (r_host (f_request f'))" using e by (simp_all add: p)
    from check_request_keeps_host[OF tw(1,6,8) e'] check_request_keeps_host[OF tw(1,5,7) e]
    obtain h h' where "headers_all M h ''Host'' = headers_all M (r_headers (f_request f)) ''Host''"
      "headers_all M h' ''Host'' = headers_all M (r_headers (f_request f')) ''Host''"
      "check_request M g f = ((set_headers h f)\<lparr> f_meta := if e_inject e \<noteq> []
        then (f_meta f)(''credential_injected'' \<mapsto> MTrue) else f_meta f \<rparr>, Inr None)"
      "check_request M g' f' = ((set_headers h' f')\<lparr> f_meta := if e_inject e \<noteq> []
        then (f_meta f')(''credential_injected'' \<mapsto> MTrue) else f_meta f' \<rparr>, Inr None)" by blast
    then show ?thesis using assms(2) by (auto simp: alike_def set_headers_def)
  qed
  then show "snd (check_request M g' f') = snd (check_request M g f)"
    "alike M (fst (check_request M g f)) (fst (check_request M g' f'))" by blast+
qed

lemma check_connect_alike:
  assumes "twins M g g'" "alike M f f'"
  shows "snd (check_connect g' f') = snd (check_connect g f)"
    "alike M (fst (check_connect g f)) (fst (check_connect g' f'))"
  using assms by (simp_all add: check_connect_def twinsD alike_parts)

lemma run_event_alike:
  assumes "twins M g g'" "alike M f f'"
  shows "snd (run_event M g' ev (f', log)) = snd (run_event M g ev (f, log)) \<and>
    alike M (fst (run_event M g ev (f, log))) (fst (run_event M g' ev (f', log)))"
proof (cases ev)
  case HttpConnect
  then show ?thesis using guarded_alike[of "check_connect g'" f' "check_connect g" f, OF check_connect_alike[OF assms]] by (simp add: http_connect_def twinsD(3)[OF assms(1)])
next
  case Request
  then show ?thesis using guarded_alike[of "check_request M g'" f' "check_request M g" f, OF check_request_alike[OF assms]] by (simp add: request_hook_def twinsD(3)[OF assms(1)])
next
  case (Arrives r)
  then show ?thesis using alike_upd(1)[OF assms(2)] by simp
next
  case ResponseHeaders
  then show ?thesis
    using assms(2) alike_upd(1)[OF assms(2)] by (simp add: responseheaders_def alike_parts[OF assms(2)] split: option.split)
next
  case Response
  then show ?thesis using access_alike[OF assms(2)] by (simp add: response_hook_def twinsD(3)[OF assms(1)] alike_parts[OF assms(2)])
next
  case Error
  then show ?thesis using access_alike[OF assms(2)] by (simp add: error_hook_def twinsD(3)[OF assms(1)])
qed

lemma run_events_alike:
  "twins M g g' \<Longrightarrow> alike M f f' \<Longrightarrow> snd (run_events M g' evs (f', log)) = snd (run_events M g evs (f, log)) \<and>
    alike M (fst (run_events M g evs (f, log))) (fst (run_events M g' evs (f', log)))"
proof (induction evs arbitrary: f f' log)
  case (Cons ev evs)
  obtain f1 log1 f1' where "run_event M g ev (f, log) = (f1, log1)" "run_event M g' ev (f', log) = (f1', log1)"
    "alike M f1 f1'"
    using run_event_alike[OF Cons.prems, of ev log]
    by (cases "run_event M g ev (f, log)"; cases "run_event M g' ev (f', log)") auto
  then show ?case using Cons.IH[OF Cons.prems(1)] by simp
qed simp

section \<open>Properties\<close>

text \<open>
  C3. Credentials influence nothing but the headers of forwarded requests. Let two guards start from the
  same policy file and different credentials, none of which is injected as the Host header, and let
  any sequence of hooks be called on a flow. Then with both the log is the same, so is the response
  the guest gets and the mark of a blocked flow, and the requests differ in their headers only.
\<close>

theorem credentials_confidential:
  assumes "set_order order" "from_environment env json_load order fs = Inr g" "from_environment env json_load order fs' = Inr g'"
    and "\<forall>p. env ''A_BOX_POLICY'' = Some p \<longrightarrow> fs p = fs' p"
    and "header_laws M" "host_law M" "keeps_host (g_policy g)"
    and "run_events M g evs (flow, log) = (flow1, log1)" "run_events M g' evs (flow, log) = (flow2, log2)"
  shows "log1 = log2 \<and> f_response flow1 = f_response flow2 \<and> f_meta flow1 = f_meta flow2 \<and>
    (\<exists>h. f_request flow2 = (f_request flow1)\<lparr> r_headers := h \<rparr>)"
proof -
  have "g_instance g' = g_instance g \<and> g_policy g' = g_policy g"
    using from_environment_files[OF assms(2)] from_environment_files[OF assms(3)] assms(4) by auto
  then have "twins M g g'"
    using assms(5,6,7) from_environment_guard(1)[OF assms(1,2)] from_environment_guard(1)[OF assms(1,3)]
    by (simp add: twins_def)
  moreover have "alike M flow flow" by (auto simp: alike_def intro: exI[of _ "r_headers (f_request flow)"])
  ultimately have "log2 = log1 \<and> alike M flow1 flow2"
    using run_events_alike[of M g g' flow flow evs log] assms(8,9) by simp
  then show ?thesis by (auto simp: alike_def)
qed

lemma sample_mitm_host: "host_law sample_mitm"
proof -
  have first: "(case xs of [] \<Rightarrow> d | (m, v) # _ \<Rightarrow> v) = (case map snd xs of [] \<Rightarrow> d | v # _ \<Rightarrow> v)"
    for xs :: "(pystr \<times> pystr) list" and d by (cases xs) auto
  have "same_header m ''host'' \<longleftrightarrow> same_header ''Host'' m" for m
  proof -
    have "ascii_lower ''Host'' = ascii_lower ''host''" by code_simp
    then show ?thesis by (auto simp: same_header_def)
  qed
  then show ?thesis by (simp add: host_law_def sample_mitm_def first split: list.split)
qed

definition other_fs :: files where
  "other_fs p = (if p = ''/creds/outer'' then Inr ''another-secret'' else sample_fs p)"

theorem credentials_confidential_witness:
  "\<exists>g g' flow1 flow2 log. from_environment sample_env sample_json sorted_list_of_set sample_fs = Inr g \<and>
     from_environment sample_env sample_json sorted_list_of_set other_fs = Inr g' \<and>
     g_secrets g ''outer'' \<noteq> g_secrets g' ''outer'' \<and>
     run_events sample_mitm g [Request, Arrives 200, Response] (forged_flow, []) = (flow1, log) \<and>
     run_events sample_mitm g' [Request, Arrives 200, Response] (forged_flow, []) = (flow2, log) \<and>
     f_meta flow1 = f_meta flow2"
proof -
  have creds: "read_credential sample_fs ''/creds'' ''outer'' = Inr ''outer-secret''"
    "read_credential other_fs ''/creds'' ''outer'' = Inr ''another-secret''"
    "\<not> isl (read_credential sample_fs ''/creds'' ''inner'')" "\<not> isl (read_credential other_fs ''/creds'' ''inner'')"
    by code_simp+
  have pol: "sample_fs ''/policy.json'' = Inr ''{}''" "other_fs ''/policy.json'' = Inr ''{}''"
    by (simp_all add: sample_fs_def other_fs_def)
  obtain g g' where g: "from_environment sample_env sample_json sorted_list_of_set sample_fs = Inr g"
    "g_policy g = sample_policy" "g_secrets g = secrets_of sample_fs sample_policy ''/creds''"
    "from_environment sample_env sample_json sorted_list_of_set other_fs = Inr g'"
    "g_secrets g' = secrets_of other_fs sample_policy ''/creds''"
    using sample_start_with[of sample_fs] sample_start_with[of other_fs] creds pol by auto
  have pf: "\<forall>p. sample_env ''A_BOX_POLICY'' = Some p \<longrightarrow> sample_fs p = other_fs p"
    by (simp add: sample_env_def pol)
  have kh: "keeps_host (g_policy g)" unfolding g(2) by code_simp
  let ?run = "\<lambda>g. run_events sample_mitm g [Request, Arrives 200, Response] (forged_flow, [])"
  obtain flow1 log1 flow2 log2 where r: "?run g = (flow1, log1)" "?run g' = (flow2, log2)"
    by (metis surj_pair)
  have "log1 = log2 \<and> f_meta flow1 = f_meta flow2"
    using credentials_confidential[OF sorted_set_order g(1,4) pf sample_mitm_laws(1) sample_mitm_host kh r] by simp
  moreover have "''outer'' \<in> credential_names sample_policy" by code_simp
  then have "g_secrets g ''outer'' \<noteq> g_secrets g' ''outer''" by (simp add: g(3,5) secrets_of_def creds)
  ultimately show ?thesis using g(1,4) r by (intro exI[of _ g] exI[of _ g'] exI[of _ flow1] exI[of _ flow2] exI[of _ log1]) simp
qed

end
