(* ===== verification/Proxy.thy ===== *)
theory Proxy
  imports Confidentiality
begin

text \<open>
  The running proxy: one guard and any number of flows whose hooks mitmproxy calls in any order, one
  at a time. What it writes goes through the logger \<open>setup_logging\<close> set up, to stderr (\<open>emit\<close>: a record
  below the level is dropped, each handler formats the others and ends them with a line feed). A hook gets its
  flow and nothing of the others, so their hooks in between change neither the flow nor its records. Stderr is
  shown to hold at most one whole line for each flow, and no line to depend on the values of the credentials.
\<close>

section \<open>Many flows\<close>

record ('h, 'r) proxy =
  px_flows :: "nat \<Rightarrow> ('h, 'r) flow"
  px_log :: "(nat \<times> log_record) list" \<comment> \<open>with the flow whose hook wrote the record\<close>

definition handle :: "('h, 'r) mitm \<Rightarrow> guard \<Rightarrow> nat \<Rightarrow> 'r event \<Rightarrow> ('h, 'r) proxy \<Rightarrow> ('h, 'r) proxy" where
  "handle M g i ev p =
     (case run_event M g ev (px_flows p i, []) of
        (flow, recs) \<Rightarrow> p\<lparr> px_flows := (px_flows p)(i := flow), px_log := px_log p @ map (Pair i) recs \<rparr>)"

fun handle_all :: "('h, 'r) mitm \<Rightarrow> guard \<Rightarrow> (nat \<times> 'r event) list \<Rightarrow> ('h, 'r) proxy \<Rightarrow> ('h, 'r) proxy" where
  "handle_all M g [] p = p"
| "handle_all M g ((i, ev) # evs) p = handle_all M g evs (handle M g i ev p)"

definition of_flow :: "nat \<Rightarrow> (nat \<times> 'a) list \<Rightarrow> 'a list" where
  "of_flow i xs = map snd (filter (\<lambda>(j, x). j = i) xs)"

lemma of_flow_simps [simp]:
  "of_flow i [] = []" "of_flow i ((j, x) # xs) = (if j = i then x # of_flow i xs else of_flow i xs)"
  "of_flow i (xs @ ys) = of_flow i xs @ of_flow i ys"
  "of_flow i (map (Pair j) rs) = (if j = i then rs else [])"
  by (auto simp: of_flow_def filter_map o_def)

lemma of_flow_in: "x \<in> set (of_flow i xs) \<longleftrightarrow> (i, x) \<in> set xs"
  by (force simp: of_flow_def)

text \<open>A hook only appends to the log, and what it appends does not depend on the log.\<close>

lemma access_append: "access i flow s log = (fst (access i flow s []), log @ snd (access i flow s []))"
  by (simp add: access_def Let_def)

lemma guarded_append: "guarded M i check flow log = (fst (guarded M i check flow []), log @ snd (guarded M i check flow []))"
  by (cases "check flow"; cases "snd (check flow)")
    (simp_all add: guarded_def access_def Let_def split: option.split)

lemma run_event_append:
  "run_event M g ev (flow, log) = (fst (run_event M g ev (flow, [])), log @ snd (run_event M g ev (flow, [])))"
proof (cases ev)
  case HttpConnect
  then show ?thesis using guarded_append[of M "g_instance g" "check_connect g" flow log] by (simp add: http_connect_def)
next
  case Request
  then show ?thesis using guarded_append[of M "g_instance g" "check_request M g" flow log] by (simp add: request_hook_def)
next
  case Response
  then show ?thesis using access_append[of "g_instance g" flow _ log] by (simp add: response_hook_def)
next
  case Error
  then show ?thesis using access_append[of "g_instance g" flow 502 log] by (simp add: error_hook_def)
qed (simp_all split: sum.split)

lemma handle_flow:
  "(px_flows (handle M g j ev p) i, of_flow i (px_log (handle M g j ev p))) =
   (if j = i then run_event M g ev (px_flows p i, of_flow i (px_log p)) else (px_flows p i, of_flow i (px_log p)))"
  using run_event_append[of M g ev "px_flows p i" "of_flow i (px_log p)"]
  by (auto simp: handle_def split: prod.split)

lemma handle_all_flow:
  "(px_flows (handle_all M g evs p) i, of_flow i (px_log (handle_all M g evs p))) =
   run_events M g (of_flow i evs) (px_flows p i, of_flow i (px_log p))"
proof (induction M g evs p rule: handle_all.induct)
  case (2 M g j ev evs p)
  then show ?case using handle_flow[of M g j ev p i] by simp
qed simp

section \<open>The log on stderr\<close>

fun record_level :: "log_record \<Rightarrow> int" where
  "record_level (CheckFailed _ _) = 40"
| "record_level (Access _) = 20"

fun message :: "(exn \<Rightarrow> pystr) \<Rightarrow> log_record \<Rightarrow> pystr" where
  \<comment> \<open>the text of an exception is a parameter\<close>
  "message str (CheckFailed i x) = ''guest='' @ i @ '' check failed: '' @ str x"
| "message str (Access line) = line"

function percent :: "pystr \<Rightarrow> pystr \<Rightarrow> pystr" where
  \<comment> \<open>formatting with \<open>%(message)s\<close>\<close>
  "percent [] m = []"
| "percent (c # s) m =
     (if prefix ''%(message)s'' (c # s) then m @ percent (drop 10 s) m else c # percent s m)"
  by pat_completeness auto
termination by (relation "measure (length \<circ> fst)") auto

fun handler_text :: "pystr \<Rightarrow> handler \<Rightarrow> pystr" where
  "handler_text m (StderrHandler fmt) = percent fmt m @ [CHR 0x0A]"

definition emit :: "(exn \<Rightarrow> pystr) \<Rightarrow> logger \<Rightarrow> log_record \<Rightarrow> pystr" where
  "emit str log r =
     (if record_level r < l_level log then [] else concat (map (handler_text (message str r)) (l_handlers log)))"

definition stderr_text :: "(exn \<Rightarrow> pystr) \<Rightarrow> logger \<Rightarrow> log_record list \<Rightarrow> pystr" where
  "stderr_text str log recs = concat (map (emit str log) recs)"

lemma percent_message: "percent ''%(message)s'' m = m"
  by simp

lemma emit_setup:
  "l_handlers log0 = [] \<Longrightarrow> emit str (setup_logging log0) r = message str r @ [CHR 0x0A]"
  by (cases r) (simp_all add: emit_def setup_logging_def percent_message del: percent.simps)

lemma stderr_setup: "l_handlers log0 = [] \<Longrightarrow>
    stderr_text str (setup_logging log0) recs = concat (map (\<lambda>r. message str r @ [CHR 0x0A]) recs)"
  by (simp add: stderr_text_def emit_setup cong: map_cong)

lemma split_lines: "\<forall>l \<in> set lines. x \<notin> set l \<Longrightarrow> split_on x (concat (map (\<lambda>l. l @ [x]) lines)) = lines @ [[]]"
proof (induction lines)
  case (Cons l lines)
  then show ?case using split_on_append[of x l "concat (map (\<lambda>l. l @ [x]) lines)"] by simp
qed simp

section \<open>What a guard logs\<close>

fun written_by :: "pystr \<Rightarrow> log_record \<Rightarrow> bool" where
  "written_by i (CheckFailed j x) \<longleftrightarrow> j = i"
| "written_by i (Access l) \<longleftrightarrow> list_all printable_ascii l \<and> length (split_on (CHR '' '') l) = 8 \<and>
     hd (split_on (CHR '' '') l) = ''guest='' @ i"

lemma access_line_written:
  assumes "list_all printable_ascii i" "CHR '' '' \<notin> set i"
  shows "written_by i (Access (access_line i flow s))"
proof -
  have "access_fields i flow s \<noteq> []" "length (access_fields i flow s) = 8" "hd (access_fields i flow s) = ''guest='' @ i"
    by (simp_all add: access_fields_def Let_def)
  moreover have "split_on (CHR '' '') (access_line i flow s) = access_fields i flow s"
    unfolding access_line_join using calculation(1) assms(2) by (intro split_join_on) (auto dest: access_fields_no_space)
  ultimately show ?thesis using access_line_printable[OF assms(1)] by simp
qed

lemma access_written:
  "list_all printable_ascii i \<Longrightarrow> CHR '' '' \<notin> set i \<Longrightarrow> r \<in> set (snd (access i flow s [])) \<Longrightarrow> written_by i r"
  by (auto simp: access_def Let_def access_line_written simp del: written_by.simps(2) split: if_splits)

lemma guarded_written:
  assumes "list_all printable_ascii i" "CHR '' '' \<notin> set i" "r \<in> set (snd (guarded M i check flow []))"
  shows "written_by i r"
  using assms(3) access_line_written[OF assms(1,2)]
  by (cases "check flow"; cases "snd (check flow)")
    (auto simp: guarded_def access_def Let_def simp del: written_by.simps(2) split: option.splits if_splits)

lemma run_event_written:
  assumes "list_all printable_ascii (g_instance g)" "CHR '' '' \<notin> set (g_instance g)"
    and "r \<in> set (snd (run_event M g ev (flow, [])))"
  shows "written_by (g_instance g) r"
  using assms(3) guarded_written[OF assms(1,2)] access_written[OF assms(1,2)]
  by (cases ev) (auto simp: http_connect_def request_hook_def response_hook_def error_hook_def split: sum.splits)

lemma handle_written:
  assumes "list_all printable_ascii (g_instance g)" "CHR '' '' \<notin> set (g_instance g)"
    and "\<forall>x \<in> set (px_log p). written_by (g_instance g) (snd x)" "x \<in> set (px_log (handle M g j ev p))"
  shows "written_by (g_instance g) (snd x)"
proof (cases "run_event M g ev (px_flows p j, [])")
  case (Pair flow recs)
  have "\<And>r. r \<in> set recs \<Longrightarrow> written_by (g_instance g) r"
    using run_event_written[OF assms(1,2), of _ M ev "px_flows p j"] Pair by simp
  with Pair assms(3,4) show ?thesis by (auto simp: handle_def)
qed

lemma handle_all_written:
  assumes "list_all printable_ascii (g_instance g)" "CHR '' '' \<notin> set (g_instance g)"
  shows "\<forall>x \<in> set (px_log p). written_by (g_instance g) (snd x) \<Longrightarrow>
    \<forall>x \<in> set (px_log (handle_all M g evs p)). written_by (g_instance g) (snd x)"
proof (induction evs arbitrary: p)
  case (Cons jev evs)
  obtain j ev where [simp]: "jev = (j, ev)" by (cases jev)
  have "\<forall>x \<in> set (px_log (handle M g j ev p)). written_by (g_instance g) (snd x)"
    using handle_written[OF assms Cons.prems] by blast
  from Cons.IH[OF this] show ?case by simp
qed simp

section \<open>One line for each flow\<close>

lemma no_failures: "check_failures recs = 0 \<Longrightarrow> accesses recs = length recs \<and> (r \<in> set recs \<longrightarrow> (\<exists>l. r = Access l))"
  by (induction recs rule: check_failures.induct) auto

lemma distinct_of_flow: "(\<And>i. length (of_flow i xs) \<le> 1) \<Longrightarrow> distinct (map fst xs)"
proof (induction xs)
  case (Cons x xs)
  obtain j y where [simp]: "x = (j, y)" by (cases x)
  have "length (of_flow i xs) \<le> 1" for i
    using Cons.prems[of i] by (simp split: if_splits)
  moreover have "j \<notin> fst ` set xs"
    using Cons.prems[of j] of_flow_in[of _ j xs] by (fastforce simp: image_iff)
  ultimately show ?case using Cons.IH by simp
qed simp

lemma flow_once:
  assumes "guard_ok g" "\<not> logged flow" "run_events M g evs (flow, []) = (flow', recs)"
  shows "length recs \<le> 1 \<and> (r \<in> set recs \<longrightarrow> (\<exists>l. r = Access l)) \<and>
    (Response \<in> set evs \<or> Error \<in> set evs \<longrightarrow> recs \<noteq> [])"
proof -
  have "once (flow, [])" using assms(2) by (simp add: once_def)
  from run_events_once[OF this, of M g evs]
  have "accesses recs \<le> 1" "Response \<in> set evs \<or> Error \<in> set evs \<longrightarrow> accesses recs = 1"
    by (auto simp: once_def assms(3))
  moreover have "check_failures recs = 0"
    using run_events_no_failure[OF assms(1), of M evs "(flow, [])"] assms(3) by simp
  ultimately show ?thesis using no_failures[of recs r] by auto
qed

lemma proxy_log:
  assumes "guard_ok g" "\<And>i. \<not> logged (px_flows p i)" "px_log p = []"
    and recs_def: "recs = px_log (handle_all M g evs p)"
  shows "distinct (map fst recs)"
    and "(i, r) \<in> set recs \<Longrightarrow> \<exists>l. r = Access l \<and> Access l \<in> set (snd (run_events M g (of_flow i evs) (px_flows p i, [])))"
    and "(i, Response) \<in> set evs \<or> (i, Error) \<in> set evs \<Longrightarrow> i \<in> fst ` set recs"
proof -
  have f: "run_events M g (of_flow i evs) (px_flows p i, []) = (px_flows (handle_all M g evs p) i, of_flow i recs)" for i
    using handle_all_flow[of M g evs p i] assms(3) by (simp add: recs_def)
  note o = flow_once[OF assms(1,2) f]
  show "distinct (map fst recs)" using o by (intro distinct_of_flow) blast
  show "\<exists>l. r = Access l \<and> Access l \<in> set (snd (run_events M g (of_flow i evs) (px_flows p i, [])))"
    if "(i, r) \<in> set recs"
  proof -
    have "r \<in> set (of_flow i recs)" using that by (simp add: of_flow_in)
    then show ?thesis using o[of i r] f[of i] by auto
  qed
  assume "(i, Response) \<in> set evs \<or> (i, Error) \<in> set evs"
  then have "of_flow i recs \<noteq> []" using o[of i] by (auto simp: of_flow_in)
  then obtain r where "r \<in> set (of_flow i recs)" by (meson list.set_sel(1))
  then show "i \<in> fst ` set recs" by (force simp: of_flow_in)
qed

section \<open>Credentials and stderr\<close>

text \<open>With other credentials the whole proxy goes the same way: the same decisions, and the same text on stderr.\<close>

definition proxies_alike :: "('h, 'r) mitm \<Rightarrow> ('h, 'r) proxy \<Rightarrow> ('h, 'r) proxy \<Rightarrow> bool" where
  "proxies_alike M p p' \<longleftrightarrow> (\<forall>i. alike M (px_flows p i) (px_flows p' i)) \<and> px_log p' = px_log p"

lemma handle_alike:
  assumes "twins M g g'" "proxies_alike M p p'"
  shows "proxies_alike M (handle M g i ev p) (handle M g' i ev p')"
proof -
  have "alike M (px_flows p i) (px_flows p' i)" using assms(2) by (simp add: proxies_alike_def)
  from run_event_alike[OF assms(1) this, of ev "[]"] assms(2) show ?thesis
    by (auto simp: handle_def proxies_alike_def split: prod.split)
qed

lemma handle_all_alike:
  "twins M g g' \<Longrightarrow> proxies_alike M p p' \<Longrightarrow> proxies_alike M (handle_all M g evs p) (handle_all M g' evs p')"
  by (induction evs arbitrary: p p') (auto simp: handle_alike)

lemma stderr_confidential:
  assumes "twins M g g'" "proxies_alike M p p'"
  shows "stderr_text str log (map snd (px_log (handle_all M g' evs p'))) =
      stderr_text str log (map snd (px_log (handle_all M g evs p)))"
    and "f_response (px_flows (handle_all M g' evs p') i) = f_response (px_flows (handle_all M g evs p) i)"
  using handle_all_alike[OF assms, of evs] by (auto simp: proxies_alike_def dest: alike_parts(6))

section \<open>Properties\<close>

text \<open>
  C13. What the proxy writes. After a start-up with a logger that had no handler, and with an
  instance name that is printable and has no space, stderr splits at line feeds into whole lines, for
  any hooks of any number of flows in any order. Each line belongs to another flow, is the one that
  flow writes alone, and has eight fields of printable ASCII of which the first names the guest.
  Every flow that reached its response or error hook has its line.
\<close>

theorem proxy_stderr:
  assumes "set_order order" "addon_main env json_load order fs log0 = (log, Inr [g])" "l_handlers log0 = []"
    and "list_all printable_ascii (g_instance g)" "CHR '' '' \<notin> set (g_instance g)"
    and "\<And>i. \<not> logged (px_flows p i)" "px_log p = []"
  shows "\<exists>ls. split_on (CHR 0x0A) (stderr_text str log (map snd (px_log (handle_all M g evs p)))) = map snd ls @ [[]] \<and>
    distinct (map fst ls) \<and>
    (\<forall>(i, l) \<in> set ls. Access l \<in> set (snd (run_events M g (of_flow i evs) (px_flows p i, []))) \<and>
       list_all printable_ascii l \<and> length (split_on (CHR '' '') l) = 8 \<and>
       hd (split_on (CHR '' '') l) = ''guest='' @ g_instance g) \<and>
    (\<forall>i. (i, Response) \<in> set evs \<or> (i, Error) \<in> set evs \<longrightarrow> i \<in> fst ` set ls)"
proof -
  have ok: "guard_ok g" and log: "log = setup_logging log0"
    using assms(2) from_environment_guard(1)[OF assms(1)] by (auto simp: addon_main_def split: sum.splits)
  define recs where "recs = px_log (handle_all M g evs p)"
  define ls where "ls = map (\<lambda>(i, r). (i, message str r)) recs"
  note pl = proxy_log[OF ok assms(6,7) recs_def]
  have w: "\<forall>x \<in> set recs. written_by (g_instance g) (snd x)"
    unfolding recs_def by (rule handle_all_written[OF assms(4,5)]) (simp add: assms(7))
  have line: "Access l \<in> set (snd (run_events M g (of_flow i evs) (px_flows p i, []))) \<and> written_by (g_instance g) (Access l)"
    if il: "(i, l) \<in> set ls" for i l
  proof -
    obtain r where r: "(i, r) \<in> set recs" "l = message str r" using il by (auto simp: ls_def)
    from pl(2)[OF r(1)] r(2) have a: "r = Access l" "Access l \<in> set (snd (run_events M g (of_flow i evs) (px_flows p i, [])))"
      by auto
    with w r(1) show ?thesis by (metis snd_conv)
  qed
  have "CHR 0x0A \<notin> set l" if l: "l \<in> set (map snd ls)" for l
  proof -
    obtain i where "(i, l) \<in> set ls" using l by auto
    from line[OF this] show ?thesis by (simp add: printable_no_newline)
  qed
  then have "\<forall>l \<in> set (map snd ls). CHR 0x0A \<notin> set l" by blast
  from split_lines[OF this]
  have "split_on (CHR 0x0A) (stderr_text str log (map snd recs)) = map snd ls @ [[]]"
    by (simp add: log stderr_setup[OF assms(3)] ls_def o_def case_prod_unfold)
  moreover have "map fst ls = map fst recs" by (simp add: ls_def o_def case_prod_unfold)
  moreover have "fst ` set ls = fst ` set recs" using calculation(2) by (metis set_map)
  ultimately show ?thesis
    using line pl(1,3) unfolding recs_def[symmetric] by (intro exI[of _ ls]) auto
qed

theorem proxy_stderr_witness:
  "\<exists>ls log g. addon_main sample_env sample_json sorted_list_of_set sample_fs \<lparr>l_handlers = [], l_level = 0, l_propagate = True\<rparr> =
      (log, Inr [g]) \<and>
    split_on (CHR 0x0A) (stderr_text (\<lambda>x. '''') log (map snd (px_log
      (handle_all sample_mitm g [(7, Request), (8, Request), (8, Response), (7, Error)]
        \<lparr>px_flows = \<lambda>i. forged_flow, px_log = []\<rparr>)))) = map snd ls @ [[]] \<and> {7::nat, 8} \<subseteq> fst ` set ls"
proof -
  let ?log0 = "\<lparr>l_handlers = [], l_level = 0, l_propagate = True\<rparr>"
  let ?p = "\<lparr>px_flows = \<lambda>i. forged_flow, px_log = []\<rparr>"
  let ?evs = "[(7::nat, Request :: int event), (8, Request), (8, Response), (7, Error)]"
  obtain g where g: "from_environment sample_env sample_json sorted_list_of_set sample_fs = Inr g"
    using sample_start by blast
  have i: "g_instance g = ''1''" using from_environment_files[OF g] by (auto simp: sample_json_def)
  have a: "addon_main sample_env sample_json sorted_list_of_set sample_fs ?log0 = (setup_logging ?log0, Inr [g])"
    by (simp add: addon_main_def g)
  have pr: "list_all printable_ascii (g_instance g)" "CHR '' '' \<notin> set (g_instance g)"
    unfolding i by code_simp+
  have fresh: "\<not> logged (px_flows ?p i)" "px_log ?p = []" for i
    by (simp_all add: forged_flow_def sample_flow_def truthy_def)
  obtain ls where
    ls: "split_on (CHR 0x0A) (stderr_text (\<lambda>x. '''') (setup_logging ?log0) (map snd (px_log (handle_all sample_mitm g ?evs ?p)))) =
      map snd ls @ [[]]" "\<forall>i. (i, Response) \<in> set ?evs \<or> (i, Error) \<in> set ?evs \<longrightarrow> i \<in> fst ` set ls"
    using proxy_stderr[OF sorted_set_order a _ pr fresh, OF logger.simps(1), of "\<lambda>x. ''''" sample_mitm ?evs]
    by (elim exE conjE) (rule that)
  from ls(2)[rule_format, of 7] ls(2)[rule_format, of 8] have "{7::nat, 8} \<subseteq> fst ` set ls" by simp
  with a ls(1) show ?thesis by (intro exI conjI)
qed

end
