(* ===== verification/Examples.thy ===== *)
theory Examples
  imports Startup
begin

text \<open>
  The cases of test_guard.py, evaluated on the model: the same policy, the same requests, the results the
  tests expect of guard.py. Each lemma has the name of its test. The implementation of mitmproxy's
  interface is \<open>sample_mitm\<close>.
\<close>

definition DOMAINS :: "(pystr \<times> domain) list" where
  "DOMAINS =
     [(''api.example.com'', \<lparr> dom_inject = Some [(''X-Api-Key'', ''key'')] \<rparr>),
      (''*.wild.test'', \<lparr> dom_inject = None \<rparr>),
      (''.dot.test'', \<lparr> dom_inject = None \<rparr>),
      (''plain.test'', \<lparr> dom_inject = None \<rparr>),
      (''port.test:8443'', \<lparr> dom_inject = None \<rparr>),
      (''mixed.test'', \<lparr> dom_inject = Some [(''Authorization'', ''outer'')] \<rparr>),
      (''*.mixed.test'', \<lparr> dom_inject = Some [(''Authorization'', ''inner'')] \<rparr>)]"

definition SECRETS :: secrets where
  "SECRETS = [''key'' \<mapsto> ''s3cret-value'', ''outer'' \<mapsto> ''outer-secret'', ''inner'' \<mapsto> ''inner-secret'']"

definition entry_of :: "pystr \<Rightarrow> pystr \<Rightarrow> pystr \<Rightarrow> int option \<Rightarrow> (pystr \<times> pystr) list \<Rightarrow> entry" where
  "entry_of k h w p inject = \<lparr> e_key = k, e_host = h, e_wildcard = w, e_port = p, e_inject = inject \<rparr>"

definition test_policy :: policy where
  "test_policy = \<lparr> entries =
     [entry_of ''api.example.com'' ''api.example.com'' '''' None [(''X-Api-Key'', ''key'')],
      entry_of ''*.wild.test'' ''wild.test'' ''*.'' None [],
      entry_of ''.dot.test'' ''dot.test'' ''.'' None [],
      entry_of ''plain.test'' ''plain.test'' '''' None [],
      entry_of ''port.test:8443'' ''port.test'' '''' (Some 8443) [],
      entry_of ''mixed.test'' ''mixed.test'' '''' None [(''Authorization'', ''outer'')],
      entry_of ''*.mixed.test'' ''mixed.test'' ''*.'' None [(''Authorization'', ''inner'')]] \<rparr>"

definition test_guard :: guard where
  "test_guard = \<lparr> g_instance = ''1'', g_policy = test_policy, g_secrets = SECRETS \<rparr>"

definition key :: "pystr \<Rightarrow> int \<Rightarrow> pystr option" where
  "key host port = map_option e_key (lookup test_policy host port)"

lemma parse_8443: "parse_entry ''port.test:8443'' [] = Inr (entry_of ''port.test:8443'' ''port.test'' '''' (Some 8443) [])"
proof -
  have "entry_groups ''port.test:8443'' = Some (None, ''port.test'', Some ''8443'')" by code_simp
  moreover have "parse_dec ''8443'' = 8443" by (simp add: parse_dec_def digit_val_def)
  ultimately show ?thesis by (simp add: parse_entry_def entry_of_def or_empty_def)
qed

lemma parse_plain:
  "parse_entry ''api.example.com'' i = Inr (entry_of ''api.example.com'' ''api.example.com'' '''' None i)"
  "parse_entry ''*.wild.test'' i = Inr (entry_of ''*.wild.test'' ''wild.test'' ''*.'' None i)"
  "parse_entry ''.dot.test'' i = Inr (entry_of ''.dot.test'' ''dot.test'' ''.'' None i)"
  "parse_entry ''plain.test'' i = Inr (entry_of ''plain.test'' ''plain.test'' '''' None i)"
  "parse_entry ''mixed.test'' i = Inr (entry_of ''mixed.test'' ''mixed.test'' '''' None i)"
  "parse_entry ''*.mixed.test'' i = Inr (entry_of ''*.mixed.test'' ''mixed.test'' ''*.'' None i)"
  by code_simp+

lemma DOMAINS_parse: "make_policy DOMAINS = Inr test_policy"
  by (simp add: make_policy_def DOMAINS_def test_policy_def parse_plain parse_8443 get_inject_def)

section \<open>PolicyTest\<close>

lemma test_exact_and_default_ports:
  "key ''plain.test'' 443 = Some ''plain.test''" "key ''plain.test'' 80 = Some ''plain.test''"
  "key ''plain.test'' 8443 = None" "key ''other.test'' 443 = None"
  by code_simp+

lemma test_case_and_trailing_dot: "key ''PLAIN.test.'' 443 = Some ''plain.test''"
  by code_simp

lemma test_wildcards:
  "key ''a.wild.test'' 443 = Some ''*.wild.test''" "key ''a.b.wild.test'' 443 = Some ''*.wild.test''"
  "key ''wild.test'' 443 = None" "key ''notwild.test'' 443 = None"
  "key ''dot.test'' 443 = Some ''.dot.test''" "key ''a.dot.test'' 443 = Some ''.dot.test''"
  by code_simp+

lemma test_port_entry_covers_only_its_port:
  "key ''port.test'' 8443 = Some ''port.test:8443''" "key ''port.test'' 443 = None"
  by code_simp+

lemma test_most_specific_entry_wins:
  "key ''mixed.test'' 443 = Some ''mixed.test''" "key ''a.mixed.test'' 443 = Some ''*.mixed.test''"
  by code_simp+

definition ip_policy :: policy where
  "ip_policy = \<lparr> entries = [entry_of ''*.1.1'' ''1.1'' ''*.'' None [], entry_of ''.1'' ''1'' ''.'' None []] \<rparr>"

lemma test_ip_literals_are_never_allowed:
  "make_policy [(''*.1.1'', \<lparr> dom_inject = None \<rparr>), (''.1'', \<lparr> dom_inject = None \<rparr>)] = Inr ip_policy"
  "list_all (\<lambda>h. lookup ip_policy h 80 = None) [''1.1.1.1'', ''[::1]'', ''::1'', ''127.0.0.1'', ''0x7f.1'']"
  by code_simp+

lemma test_bad_entries:
  "list_all (\<lambda>k. parse_entry k [] = Inl (InvalidEntry k)) ['''', ''UPPER.test'', ''a b.test'', ''https://a.test'', ''a.test/x'']"
  "parse_entry ''a.test:0'' [] = Inl (InvalidPort ''a.test:0'')"
  by code_simp+

lemma test_bad_port: "parse_entry ''a.test:99999'' [] = Inl (InvalidPort ''a.test:99999'')"
proof -
  have "entry_groups ''a.test:99999'' = Some (None, ''a.test'', Some ''99999'')" by code_simp
  moreover have "parse_dec ''99999'' = 99999" by (simp add: parse_dec_def digit_val_def)
  ultimately show ?thesis by (simp add: parse_entry_def)
qed

section \<open>GuardTest\<close>

definition make_flow :: "pystr \<Rightarrow> int \<Rightarrow> (pystr \<times> pystr) list \<Rightarrow> pystr \<Rightarrow> pystr \<Rightarrow> ((pystr \<times> pystr) list, int) flow" where
  "make_flow host port headers path method =
     \<lparr> f_request = \<lparr> r_method = method, r_host = host, r_port = port, r_path = path, r_headers = headers \<rparr>,
       f_response = None, f_meta = Map.empty \<rparr>"

definition after_request :: "((pystr \<times> pystr) list, int) flow \<Rightarrow> ((pystr \<times> pystr) list, int) flow" where
  "after_request flow = fst (request_hook sample_mitm test_guard flow [])"

abbreviation get_all :: "((pystr \<times> pystr) list, int) flow \<Rightarrow> pystr \<Rightarrow> pystr list" where
  "get_all flow name \<equiv> headers_all sample_mitm (r_headers (f_request flow)) name"

lemma test_allowed_request_is_untouched:
  "let flow = after_request (make_flow ''plain.test'' 80 [(''host'', ''plain.test''), (''X-Api-Key'', ''mine'')] ''/p?q=1'' ''GET'')
   in f_response flow = None \<and> get_all flow ''X-Api-Key'' = [''mine''] \<and> f_meta flow ''credential_injected'' = None"
  by code_simp

lemma test_injection_replaces_every_guest_copy:
  "let flow = after_request (make_flow ''api.example.com'' 443
       [(''host'', ''api.example.com''), (''x-api-key'', ''forged''), (''X-API-KEY'', ''forged2'')] ''/p?q=1'' ''GET'')
   in f_response flow = None \<and> get_all flow ''X-Api-Key'' = [''s3cret-value''] \<and>
      truthy (f_meta flow ''credential_injected'')"
  by code_simp

lemma test_injection_is_per_destination:
  "get_all (after_request (make_flow ''a.mixed.test'' 443 [(''host'', ''a.mixed.test'')] ''/p?q=1'' ''GET'')) ''Authorization'' =
     [''inner-secret'']"
  "get_all (after_request (make_flow ''mixed.test'' 443 [(''host'', ''mixed.test'')] ''/p?q=1'' ''GET'')) ''Authorization'' =
     [''outer-secret'']"
  by code_simp+

lemma test_blocked_request:
  "let flow = after_request (make_flow ''other.test'' 443 [(''host'', ''other.test''), (''X-Api-Key'', ''x'')] ''/p?q=1'' ''GET'')
   in f_response flow = Some 403 \<and> f_meta flow ''a_box_blocked'' = Some (MStr not_allowed) \<and>
      f_meta flow ''credential_injected'' = None"
  by code_simp

lemma test_blocked_response_text:
  "sublist ''other.test:443''
     (block_text (f_request (make_flow ''other.test'' 443 [] ''/p?q=1'' ''GET'')) not_allowed)"
  by code_simp

lemma test_host_header_must_match_the_destination:
  "let flow = after_request (make_flow ''api.example.com'' 443 [(''host'', ''plain.test'')] ''/p?q=1'' ''GET'')
   in f_response flow = Some 403 \<and> get_all flow ''X-Api-Key'' = []"
  "f_response (after_request (make_flow ''api.example.com'' 443 [(''host'', ''API.example.com'')] ''/p?q=1'' ''GET'')) = None"
  by code_simp+

lemma test_proxy_headers_are_dropped:
  "let flow = after_request (make_flow ''plain.test'' 80
       [(''host'', ''plain.test''), (''Proxy-Authorization'', ''x''), (''Proxy-Connection'', ''keep-alive'')] ''/p?q=1'' ''GET'')
   in get_all flow ''Proxy-Authorization'' = [] \<and> get_all flow ''Proxy-Connection'' = []"
  by code_simp

text \<open>A response as its content type and whether it is streamed.\<close>

definition stream_mitm :: "(unit, pystr \<times> bool) mitm" where
  "stream_mitm = \<lparr> headers_pop = (\<lambda>n h. h), headers_set = (\<lambda>n v h. h), headers_all = (\<lambda>h n. []),
     pretty_host = (\<lambda>req. r_host req), response_make = (\<lambda>c b hs. ('''', False)), status_code = (\<lambda>r. 200),
     response_header = (\<lambda>(t, s) n d. if same_header n ''content-type'' then t else d),
     set_stream = (\<lambda>(t, s). (t, True)) \<rparr>"

definition streamed :: "pystr \<Rightarrow> bool" where
  "streamed content_type =
     (case responseheaders stream_mitm
        \<lparr> f_request = \<lparr> r_method = ''GET'', r_host = ''plain.test'', r_port = 80, r_path = ''/'', r_headers = () \<rparr>,
          f_response = Some (content_type, False), f_meta = Map.empty \<rparr> of
        Inl _ \<Rightarrow> False | Inr flow \<Rightarrow> (case f_response flow of None \<Rightarrow> False | Some (t, s) \<Rightarrow> s))"

lemma test_event_streams_are_streamed:
  "streamed ''text/event-stream; charset=utf-8''" "\<not> streamed ''application/json''"
  by code_simp+

definition connect :: "pystr \<Rightarrow> int \<Rightarrow> int option" where
  "connect host port = f_response (fst (http_connect sample_mitm test_guard (make_flow host port [] ''/p?q=1'' ''CONNECT'') []))"

lemma test_connect:
  "connect ''plain.test'' 443 = None"
  "list_all (\<lambda>(h, p). connect h p = Some 403) [(''other.test'', 443), (''plain.test'', 22), (''127.0.0.1'', 443)]"
  by code_simp+

lemma test_a_failing_check_blocks:
  "let (flow, log) = guarded sample_mitm ''1'' (\<lambda>f. (f, Inl (OtherError ''boom'')))
       (make_flow ''plain.test'' 80 [(''host'', ''plain.test'')] ''/p?q=1'' ''GET'') []
   in f_response flow = Some 403 \<and> hd log = CheckFailed ''1'' (OtherError ''boom'')"
  by code_simp

definition logged_flow :: "log_record list" where
  \<comment> \<open>the request, a response and its hook twice\<close>
  "logged_flow = snd (run_events sample_mitm test_guard [Request, Arrives 200, Response, Response]
     (make_flow ''api.example.com'' 443 [(''host'', ''api.example.com'')] ''/v1/x?token=hunter2'' ''GET'', []))"

definition blocked_flow :: "log_record list" where
  "blocked_flow = snd (request_hook sample_mitm test_guard
     (make_flow ''other.test'' 443 [(''host'', ''other.test'')] (''/a'' @ [CHR 0x01] @ ''b?x=1'') ''GET'') [])"

lemma test_access_log_has_no_query_and_no_secret:
  "logged_flow = [Access (''guest=1 method=GET host=api.example.com port=443 path=/v1/x '' @
     ''status=200 decision=allowed credential_injected=true'')]"
  "blocked_flow = [Access (''guest=1 method=GET host=other.test port=443 path=/a?b '' @
     ''status=403 decision=blocked credential_injected=false'')]"
  by code_simp+

section \<open>ConfigTest\<close>

definition creds :: "bytes \<Rightarrow> files" where
  \<comment> \<open>the directory of the tests, with \<open>bad\<close> in the file \<open>key\<close>\<close>
  "creds bad p =
     (if p = ''/d/key'' then Inr bad
      else if p = ''/d/outer'' then Inr (''outer-secret'' @ [CHR 0x0A])
      else if p = ''/d/inner'' then Inr (''inner-secret'' @ [CHR 0x0A])
      else Inl (FileNotFoundError p))"

lemma test_names: "credential_names test_policy = set [''key'', ''outer'', ''inner'']"
  by (auto simp: credential_names_def test_policy_def entry_of_def)

lemma test_secrets_are_read:
  "read_loop (creds (''s3cret-value'' @ [CHR 0x0A])) ''/d'' [''inner'', ''key'', ''outer''] Map.empty = Inr SECRETS"
proof -
  have "read_credential (creds (''s3cret-value'' @ [CHR 0x0A])) ''/d'' ''inner'' = Inr ''inner-secret''"
    "read_credential (creds (''s3cret-value'' @ [CHR 0x0A])) ''/d'' ''key'' = Inr ''s3cret-value''"
    "read_credential (creds (''s3cret-value'' @ [CHR 0x0A])) ''/d'' ''outer'' = Inr ''outer-secret''"
    by code_simp+
  then show ?thesis by (simp add: SECRETS_def fun_upd_twist)
qed

lemma test_secrets_are_checked:
  "list_all (\<lambda>bad. read_credential (creds bad) ''/d'' ''key'' = Inl (BadCredential ''key''))
     ['''', [CHR 0x0A], ''a'' @ [CHR 0x00] @ ''b'', ''a'' @ [CHR 0x0A] @ ''b'', ''tab'' @ [CHR 0x09] @ ''here'']"
  "read_credential (creds [CHR 0xC3, CHR 0xBC, CHR ''n'']) ''/d'' ''key'' = Inl (UnicodeDecodeError ''/d/key'')"
  by code_simp+

lemma test_missing_credential_fails:
  "read_credential (\<lambda>p. Inl (FileNotFoundError p)) ''/d'' ''key'' = Inl (FileNotFoundError ''/d/key'')"
  by code_simp

lemma test_from_environment:
  "let g = projr (from_environment
        [''A_BOX_POLICY'' \<mapsto> ''/d/policy.json'', ''CREDENTIALS_DIRECTORY'' \<mapsto> ''/d'']
        (\<lambda>b. Inr \<lparr> c_instance = Some ''2'', c_domains = Some [(''plain.test'', \<lparr> dom_inject = None \<rparr>)] \<rparr>)
        (\<lambda>S. []) (\<lambda>p. if p = ''/d/policy.json'' then Inr ''{}'' else Inl (FileNotFoundError p)))
   in g_instance g = ''2'' \<and> lookup (g_policy g) ''plain.test'' 80 \<noteq> None"
  by code_simp

end
