(* ===== verification/Systems.thy ===== *)
theory Systems
  imports Main
begin

text \<open>
  State machines given by a step relation: the states that can be reached from a state, and the
  interface of an invariant, a predicate every step preserves. The step relation of a session is one.
\<close>

inductive run :: "('s \<Rightarrow> 's \<Rightarrow> bool) \<Rightarrow> 's \<Rightarrow> 's \<Rightarrow> bool" for step s0 where
  here: "run step s0 s0"
| more: "run step s0 s \<Longrightarrow> step s s' \<Longrightarrow> run step s0 s'"

lemma run_step [trans]: "run step s0 s \<Longrightarrow> step s s' \<Longrightarrow> run step s0 s'"
  by (rule run.more)

lemma run_one: "step s s' \<Longrightarrow> run step s s'"
  by (rule run.more[OF run.here])

lemma run_trans: "run step s0 s1 \<Longrightarrow> run step s1 s2 \<Longrightarrow> run step s0 s2"
  by (rotate_tac, induction rule: run.induct) (auto intro: run.more)

locale invariant_system =
  fixes step :: "'s \<Rightarrow> 's \<Rightarrow> bool" and ok :: "'s \<Rightarrow> bool"
  assumes preserved: "step s s' \<Longrightarrow> ok s \<Longrightarrow> ok s'"
begin

lemma invariant: "run step s0 s \<Longrightarrow> ok s0 \<Longrightarrow> ok s"
  by (induction rule: run.induct) (auto intro: preserved)

end

text \<open>Two invariants hold together, the second with the first as a hypothesis.\<close>

locale invariant_pair = invariant_system step ok
  for step :: "'s \<Rightarrow> 's \<Rightarrow> bool" and ok :: "'s \<Rightarrow> bool" +
  fixes more_ok :: "'s \<Rightarrow> bool"
  assumes more_preserved: "step s s' \<Longrightarrow> ok s \<Longrightarrow> more_ok s \<Longrightarrow> more_ok s'"
begin

lemma both: "run step s0 s \<Longrightarrow> ok s0 \<Longrightarrow> more_ok s0 \<Longrightarrow> ok s \<and> more_ok s"
  by (induction rule: run.induct) (auto intro: preserved more_preserved)

end

end
