(* ===== verification/Base64.thy ===== *)
theory Base64
  imports Prelude
begin

text \<open>
  \<open>base64.b64encode\<close>, which the transcript writer uses for the payload of a line, and a decoder for
  it: three bytes become four characters of the standard alphabet, a shorter rest is padded with
  \<open>=\<close>. Decoding an encoded value gives it back, and encoded text needs no escaping in JSON.
\<close>

definition b64_alphabet :: pystr where
  "b64_alphabet = ''ABCDEFGHIJKLMNOPQRSTUVWXYZabcdefghijklmnopqrstuvwxyz0123456789+/''"

definition b64_char :: "nat \<Rightarrow> char" where
  "b64_char n = b64_alphabet ! n"

fun position :: "char \<Rightarrow> string \<Rightarrow> nat" where
  "position c [] = 0"
| "position c (d # s) = (if c = d then 0 else Suc (position c s))"

definition b64_value :: "char \<Rightarrow> nat" where
  "b64_value c = position c b64_alphabet"

definition byte :: "char \<Rightarrow> nat" where
  "byte c = of_char c"

fun b64encode :: "bytes \<Rightarrow> pystr" where
  "b64encode [] = []"
| "b64encode [a] = [b64_char (byte a div 4), b64_char (byte a mod 4 * 16), CHR ''='', CHR ''='']"
| "b64encode [a, b] =
     [b64_char (byte a div 4), b64_char (byte a mod 4 * 16 + byte b div 16),
      b64_char (byte b mod 16 * 4), CHR ''='']"
| "b64encode (a # b # c # s) =
     [b64_char (byte a div 4), b64_char (byte a mod 4 * 16 + byte b div 16),
      b64_char (byte b mod 16 * 4 + byte c div 64), b64_char (byte c mod 64)] @ b64encode s"

fun b64decode :: "pystr \<Rightarrow> bytes" where
  "b64decode (p # q # r # s # t) =
     (let first = char_of (b64_value p * 4 + b64_value q div 16);
          second = char_of (b64_value q mod 16 * 16 + b64_value r div 4);
          third = char_of (b64_value r mod 4 * 64 + b64_value s)
      in if r = CHR ''='' then [first]
         else if s = CHR ''='' then [first, second]
         else first # second # third # b64decode t)"
| "b64decode _ = []"

lemma byte_less [simp]: "byte c < 256"
  using nat_of_char_less_256[of c] by (simp add: byte_def)

lemma byte_pieces [simp]:
  "byte c div 4 < 64" "byte c div 16 < 16" "byte c div 64 < 4"
  using byte_less[of c] by (simp_all add: div_less_iff_less_mult del: byte_less)

lemma char_of_byte [simp]: "char_of (byte c) = c"
  by (simp add: byte_def)

lemma b64_char_table: "list_all (\<lambda>n. b64_value (b64_char n) = n \<and> printable_ascii (b64_char n) \<and>
    b64_char n \<noteq> CHR ''='' \<and> b64_char n \<noteq> CHR 0x22 \<and> b64_char n \<noteq> CHR 0x5C) [0..<64]"
  by code_simp

lemma b64_char:
  assumes "n < 64"
  shows "b64_value (b64_char n) = n" and "printable_ascii (b64_char n)" and "b64_char n \<noteq> CHR ''=''"
    and "b64_char n \<noteq> CHR 0x22" and "b64_char n \<noteq> CHR 0x5C"
  using b64_char_table assms unfolding list_all_iff by auto

lemma piece_less:
  "x < (4::nat) \<Longrightarrow> y < 16 \<Longrightarrow> x * 16 + y < 64"
  "x < (16::nat) \<Longrightarrow> y < 4 \<Longrightarrow> x * 4 + y < 64"
  "x < (4::nat) \<Longrightarrow> x * 16 < 64" "x < (16::nat) \<Longrightarrow> x * 4 < 64"
  by arith+

lemma regroup:
  "(n::nat) < 256 \<Longrightarrow> n div 4 * 4 + (n mod 4 * 16 + y) div 16 = n" if "y < 16" for n y
  using that by simp

lemma regroup2:
  "(x * 16 + n div 16) mod 16 * 16 + (n mod 16 * 4 + y) div 4 = n" if "(n::nat) < 256" "y < 4"
proof -
  have "n div 16 < 16" using that by simp
  then have "(x * 16 + n div 16) mod 16 = n div 16" by simp
  moreover have "(n mod 16 * 4 + y) div 4 = n mod 16" using that by simp
  ultimately show ?thesis by simp
qed

lemma regroup3: "(x * 4 + n div 64) mod 4 * 64 + n mod 64 = n" if "(n::nat) < 256"
proof -
  have "n div 64 < 4" using that by simp
  then have "(x * 4 + n div 64) mod 4 = n div 64" by simp
  then show ?thesis by simp
qed

lemma b64decode_b64encode [simp]: "b64decode (b64encode s) = s"
proof (induction s rule: b64encode.induct)
  case (2 a)
  show ?case
    using regroup[of 0 "byte a"] by (simp add: b64_char piece_less)
next
  case (3 a b)
  show ?case
    using regroup[of "byte b div 16" "byte a"] regroup2[of "byte b" 0 "byte a mod 4"]
    by (simp add: b64_char piece_less)
next
  case (4 a b c s)
  then show ?case
    using regroup[of "byte b div 16" "byte a"] regroup2[of "byte b" "byte c div 64" "byte a mod 4"]
      regroup3[of "byte c" "byte b mod 16"]
    by (simp add: b64_char piece_less)
qed simp

lemma b64encode_plain:
  "list_all (\<lambda>c. printable_ascii c \<and> c \<noteq> CHR 0x22 \<and> c \<noteq> CHR 0x5C) (b64encode s)"
proof -
  have "printable_ascii (CHR ''='')" by (simp add: printable_ascii_def between_def)
  then show ?thesis
    by (induction s rule: b64encode.induct) (simp_all add: b64_char piece_less)
qed

lemma length_b64encode: "length (b64encode s) = 4 * ((length s + 2) div 3)"
  by (induction s rule: b64encode.induct) (simp_all, arith)

end
