(* ===== verification/Recorder.thy ===== *)
theory Recorder
  imports Base64
begin

text \<open>
  The session transcript (\<open>TerminalRecorder\<close> of session_manager.py): every chunk of terminal traffic
  is appended to terminal.jsonl as one line of JSON whose payload is base64. \<open>json_dumps\<close> is
  \<open>json.dumps\<close> of a flat object of text and number values with the default settings, so that
  everything outside printable ASCII is escaped. The text Python prints for the clock
  (\<open>time.time()\<close>) is a parameter; \<open>number_text\<close> says of which characters it consists.
  A reader of such lines is defined beside it to state what the transcript holds, also after a write
  that failed partway (\<open>record_torn\<close>). The locale
  \<open>append_log\<close> is what the attach hub relies on.
\<close>

section \<open>JSON\<close>

datatype json = Number pystr | Text pystr

definition hex_char :: "nat \<Rightarrow> char" where
  "hex_char n = ''0123456789abcdef'' ! n"

definition json_escape :: "char \<Rightarrow> pystr" where
  "json_escape c =
     (if c = CHR 0x22 then [CHR 0x5C, CHR 0x22]
      else if c = CHR 0x5C then [CHR 0x5C, CHR 0x5C]
      else if c = CHR 0x0A then [CHR 0x5C, CHR ''n'']
      else if c = CHR 0x0D then [CHR 0x5C, CHR ''r'']
      else if c = CHR 0x09 then [CHR 0x5C, CHR ''t'']
      else if c = CHR 0x0C then [CHR 0x5C, CHR ''f'']
      else if c = CHR 0x08 then [CHR 0x5C, CHR ''b'']
      else if printable_ascii c then [c]
      else [CHR 0x5C, CHR ''u'', CHR ''0'', CHR ''0'', hex_char (byte c div 16), hex_char (byte c mod 16)])"

definition json_string :: "pystr \<Rightarrow> pystr" where
  "json_string s = CHR 0x22 # concat (map json_escape s) @ [CHR 0x22]"

fun json_value :: "json \<Rightarrow> pystr" where
  "json_value (Number t) = t"
| "json_value (Text s) = json_string s"

fun json_fields :: "(pystr \<times> json) list \<Rightarrow> pystr" where
  "json_fields [] = []"
| "json_fields [(k, v)] = json_string k @ '': '' @ json_value v"
| "json_fields ((k, v) # f # fs) = json_string k @ '': '' @ json_value v @ '', '' @ json_fields (f # fs)"

definition json_dumps :: "(pystr \<times> json) list \<Rightarrow> pystr" where
  "json_dumps fields = ''{'' @ json_fields fields @ ''}''"

section \<open>The recorder\<close>

record recorder =
  rec_session :: pystr
  rec_file :: "pystr option"

definition new_recorder :: "pystr option \<Rightarrow> pystr \<Rightarrow> recorder" where
  \<comment> \<open>\<open>file\<close>: the content of terminal.jsonl, if it exists; it is touched\<close>
  "new_recorder file session_id =
     \<lparr> rec_session = session_id, rec_file = Some (case file of None \<Rightarrow> [] | Some t \<Rightarrow> t) \<rparr>"

record chunk =
  ck_time :: pystr
  ck_session :: pystr
  ck_direction :: pystr
  ck_payload :: bytes

definition record_line :: "pystr \<Rightarrow> pystr \<Rightarrow> pystr \<Rightarrow> bytes \<Rightarrow> pystr" where
  "record_line now session_id direction payload =
     json_dumps
       [(''timestamp'', Number now),
        (''session_id'', Text session_id),
        (''stream'', Text ''terminal''),
        (''direction'', Text direction),
        (''payload'', Text (b64encode payload))]"

definition record_chunk :: "pystr \<Rightarrow> pystr \<Rightarrow> bytes \<Rightarrow> recorder \<Rightarrow> recorder" where
  "record_chunk now direction payload r =
     r\<lparr> rec_file := Some ((case rec_file r of None \<Rightarrow> [] | Some t \<Rightarrow> t) @
                          record_line now (rec_session r) direction payload @ [CHR 0x0A]) \<rparr>"

section \<open>Reading lines back\<close>

definition number_char :: "char \<Rightarrow> bool" where
  "number_char c \<longleftrightarrow> is_digit c \<or> c \<in> {CHR ''.'', CHR ''-'', CHR ''+'', CHR ''e''}"

definition number_text :: "pystr \<Rightarrow> bool" where
  "number_text s \<longleftrightarrow> s \<noteq> [] \<and> list_all number_char s"

definition json_unescape :: "char \<Rightarrow> char" where
  "json_unescape d =
     (if d = CHR ''n'' then CHR 0x0A else if d = CHR ''r'' then CHR 0x0D else if d = CHR ''t'' then CHR 0x09
      else if d = CHR ''f'' then CHR 0x0C else if d = CHR ''b'' then CHR 0x08 else d)"

definition hex_value :: "char \<Rightarrow> nat" where
  "hex_value c = position c ''0123456789abcdef''"

fun json_chars :: "pystr \<Rightarrow> (pystr \<times> pystr) option" where
  \<comment> \<open>the text up to the closing quote, and what follows it\<close>
  "json_chars [] = None"
| "json_chars (c # s) =
     (if c = CHR 0x22 then Some ([], s)
      else if c = CHR 0x5C then
        (case s of
           d # t \<Rightarrow>
             (if d = CHR ''u'' then
                (case t of
                   z # z' # h # l # t' \<Rightarrow>
                     map_option (apfst (Cons (char_of (16 * hex_value h + hex_value l)))) (json_chars t')
                 | _ \<Rightarrow> None)
              else map_option (apfst (Cons (json_unescape d))) (json_chars t))
         | [] \<Rightarrow> None)
      else map_option (apfst (Cons c)) (json_chars s))"

definition expect :: "pystr \<Rightarrow> pystr \<Rightarrow> pystr option" where
  "expect p s = (if prefix p s then Some (drop (length p) s) else None)"

fun read_value :: "pystr \<Rightarrow> (json \<times> pystr) option" where
  "read_value [] = None"
| "read_value (c # s) =
     (if c = CHR 0x22 then map_option (apfst Text) (json_chars s)
      else Some (Number (takeWhile number_char (c # s)), dropWhile number_char (c # s)))"

fun read_fields :: "pystr list \<Rightarrow> pystr \<Rightarrow> json list option" where
  \<comment> \<open>the values of the fields with these names, in this order, up to the closing brace\<close>
  "read_fields [] s = None"
| "read_fields [k] s =
     (case expect (json_string k @ '': '') s of
        None \<Rightarrow> None
      | Some t \<Rightarrow> (case read_value t of
            None \<Rightarrow> None
          | Some (v, u) \<Rightarrow> if u = ''}'' then Some [v] else None))"
| "read_fields (k # k' # ks) s =
     (case expect (json_string k @ '': '') s of
        None \<Rightarrow> None
      | Some t \<Rightarrow> (case read_value t of
            None \<Rightarrow> None
          | Some (v, u) \<Rightarrow> (case expect '', '' u of
              None \<Rightarrow> None
            | Some w \<Rightarrow> map_option (Cons v) (read_fields (k' # ks) w))))"

definition read_record :: "pystr \<Rightarrow> chunk option" where
  "read_record line =
     (case expect ''{'' line of
        None \<Rightarrow> None
      | Some s \<Rightarrow>
          (case read_fields [''timestamp'', ''session_id'', ''stream'', ''direction'', ''payload''] s of
             Some [Number now, Text sid, Text stream, Text direction, Text payload] \<Rightarrow>
               if stream = ''terminal''
               then Some \<lparr> ck_time = now, ck_session = sid, ck_direction = direction,
                           ck_payload = b64decode payload \<rparr>
               else None
           | _ \<Rightarrow> None))"

definition log_lines :: "pystr \<Rightarrow> pystr list" where
  "log_lines text = butlast (split_on (CHR 0x0A) text)"

definition whole_lines :: "recorder \<Rightarrow> bool" where
  \<comment> \<open>the file exists and its last line is complete\<close>
  "whole_lines r = (case rec_file r of None \<Rightarrow> False | Some t \<Rightarrow> t = [] \<or> last t = CHR 0x0A)"

definition transcript :: "recorder \<Rightarrow> chunk option list" where
  "transcript r = (case rec_file r of None \<Rightarrow> [] | Some t \<Rightarrow> map read_record (log_lines t))"

section \<open>Round trip of a line\<close>

lemma hex_table: "list_all (\<lambda>n. hex_value (hex_char n) = n \<and> printable_ascii (hex_char n)) [0..<16]"
  by code_simp

lemma hex_char: "n < 16 \<Longrightarrow> hex_value (hex_char n) = n" "n < 16 \<Longrightarrow> printable_ascii (hex_char n)"
  using hex_table unfolding list_all_iff by auto

lemma hex_byte: "16 * (byte c div 16) + byte c mod 16 = byte c" "byte c div 16 < 16" "byte c mod 16 < 16"
  using byte_less[of c] by (simp_all add: byte_pieces)

lemma json_chars_escape: "json_chars (json_escape c @ s) = map_option (apfst (Cons c)) (json_chars s)"
  by (simp add: json_escape_def json_unescape_def hex_char hex_byte)

lemma json_chars_string [simp]: "json_chars (concat (map json_escape s) @ CHR 0x22 # t) = Some (s, t)"
  by (induction s) (simp_all add: json_chars_escape)

lemma expect_append [simp]: "expect p (p @ s) = Some s"
  by (simp add: expect_def)

lemma read_value_text [simp]: "read_value (json_string s @ t) = Some (Text s, t)"
  by (simp add: json_string_def)

lemma read_value_number:
  assumes "number_text n" "\<not> number_char c"
  shows "read_value (n @ c # t) = Some (Number n, c # t)"
proof -
  have all: "\<And>x. x \<in> set n \<Longrightarrow> number_char x" using assms(1) by (simp add: number_text_def list_all_iff)
  obtain d m where n: "n = d # m" using assms(1) by (cases n) (auto simp: number_text_def)
  have "d \<noteq> CHR 0x22"
    using all[of d] n by (auto simp: number_char_def is_digit_def between_def)
  moreover have "takeWhile number_char (n @ c # t) = n" "dropWhile number_char (n @ c # t) = c # t"
    using all assms(2) by (simp_all add: takeWhile_tail dropWhile_append1)
  ultimately show ?thesis using n by simp
qed

lemma read_fields_last: "read_fields [k] (json_string k @ '': '' @ json_string s @ ''}'') = Some [Text s]"
  using expect_append[of "json_string k @ '': ''" "json_string s @ ''}''"] by simp

lemma read_fields_text: "read_fields (k # k' # ks) (json_string k @ '': '' @ json_string s @ '', '' @ t) =
    map_option (Cons (Text s)) (read_fields (k' # ks) t)"
  using expect_append[of "json_string k @ '': ''" "json_string s @ '', '' @ t"]
    expect_append[of "'', ''" t] by simp

lemma read_fields_number:
  assumes "number_text n"
  shows "read_fields (k # k' # ks) (json_string k @ '': '' @ n @ '', '' @ t) =
    map_option (Cons (Number n)) (read_fields (k' # ks) t)"
  using expect_append[of "json_string k @ '': ''" "n @ '', '' @ t"] expect_append[of "'', ''" t]
    read_value_number[OF assms, of "CHR '',''" "CHR '' '' # t"]
  by (simp add: number_char_def is_digit_def between_def)

lemma read_record_line:
  assumes "number_text now"
  shows "read_record (record_line now sid d p) =
    Some \<lparr> ck_time = now, ck_session = sid, ck_direction = d, ck_payload = p \<rparr>"
  unfolding read_record_def record_line_def json_dumps_def
  by (simp only: expect_append json_fields.simps json_value.simps option.case append_assoc
        read_fields_number[OF assms] read_fields_text read_fields_last option.map list.case json.case
        b64decode_b64encode simp_thms if_True)

lemma json_escape_printable: "list_all printable_ascii (json_escape c)"
  using hex_char(2)[of "byte c div 16"] hex_char(2)[of "byte c mod 16"] hex_byte[of c]
  by (auto simp: json_escape_def printable_ascii_def between_def)

lemma json_string_printable: "list_all printable_ascii (json_string s)"
proof -
  have "printable_ascii (CHR 0x22)" by (simp add: printable_ascii_def between_def)
  moreover have "list_all printable_ascii (concat (map json_escape s))"
    using json_escape_printable by (induction s) auto
  ultimately show ?thesis by (simp add: json_string_def)
qed

lemma number_char_printable: "number_char c \<Longrightarrow> printable_ascii c"
  by (auto simp: number_char_def is_digit_printable) (simp_all add: printable_ascii_def between_def)

lemma number_text_printable: "number_text n \<Longrightarrow> list_all printable_ascii n"
  using number_char_printable by (auto simp: number_text_def list_all_iff)

lemma record_line_printable:
  assumes "number_text now"
  shows "list_all printable_ascii (record_line now sid d p)"
proof -
  have "list_all printable_ascii '', ''" "list_all printable_ascii '': ''"
    "list_all printable_ascii ''{''" "list_all printable_ascii ''}''"
    by (simp_all add: printable_ascii_def between_def)
  then show ?thesis
    unfolding record_line_def json_dumps_def
    by (simp only: json_fields.simps json_value.simps list_all_append json_string_printable
        number_text_printable[OF assms])
qed

section \<open>The log as a sequence of chunks\<close>

lemma log_lines_append:
  assumes "t = [] \<or> last t = CHR 0x0A" "CHR 0x0A \<notin> set l"
  shows "log_lines (t @ l @ [CHR 0x0A]) = log_lines t @ [l]"
proof (cases t rule: rev_cases)
  case (snoc u c)
  then have "split_on (CHR 0x0A) (t @ l @ [CHR 0x0A]) = split_on (CHR 0x0A) u @ [l, []]"
    "split_on (CHR 0x0A) t = split_on (CHR 0x0A) u @ [[]]"
    using assms split_on_append[of "CHR 0x0A" u "l @ [CHR 0x0A]"] split_on_append[of "CHR 0x0A" u "[]"]
    by simp_all
  then show ?thesis by (simp add: log_lines_def butlast_append)
qed (use assms(2) in \<open>simp add: log_lines_def\<close>)

lemma whole_lines_record [simp]: "whole_lines (record_chunk now d p r)"
  by (simp add: whole_lines_def record_chunk_def)

lemma whole_lines_new: "file = None \<Longrightarrow> whole_lines (new_recorder file sid)"
  by (simp add: whole_lines_def new_recorder_def)

lemma rec_session_record [simp]: "rec_session (record_chunk now d p r) = rec_session r"
  by (simp add: record_chunk_def)

lemma transcript_record:
  assumes "number_text now" "whole_lines r"
  shows "transcript (record_chunk now d p r) = transcript r @
    [Some \<lparr> ck_time = now, ck_session = rec_session r, ck_direction = d, ck_payload = p \<rparr>]"
  using assms log_lines_append[OF _ printable_no_newline[OF record_line_printable]]
  by (auto simp: transcript_def record_chunk_def whole_lines_def read_record_line split: option.splits)

section \<open>Append-only logs\<close>

locale append_log =
  fixes app :: "'e \<Rightarrow> 'r \<Rightarrow> 'r" and entries :: "'r \<Rightarrow> 'x list" and shown :: "'r \<Rightarrow> 'e \<Rightarrow> 'x"
    and valid :: "'e \<Rightarrow> bool" and good :: "'r \<Rightarrow> bool"
  assumes good_app: "valid e \<Longrightarrow> good r \<Longrightarrow> good (app e r)"
    and entries_app: "valid e \<Longrightarrow> good r \<Longrightarrow> entries (app e r) = entries r @ [shown r e]"
    and shown_app: "shown (app e r) e' = shown r e'"
begin

lemma good_fold: "list_all valid es \<Longrightarrow> good r \<Longrightarrow> good (fold app es r)"
  by (induction es arbitrary: r) (simp_all add: good_app)

lemma shown_fold: "shown (fold app es r) e = shown r e"
  by (induction es arbitrary: r) (simp_all add: shown_app)

lemma entries_fold:
  "list_all valid es \<Longrightarrow> good r \<Longrightarrow> entries (fold app es r) = entries r @ map (shown r) es"
  by (induction es arbitrary: r) (simp_all add: good_app entries_app shown_app)

end

type_synonym chunk_event = "pystr \<times> pystr \<times> bytes"

definition record_event :: "chunk_event \<Rightarrow> recorder \<Rightarrow> recorder" where
  "record_event e r = record_chunk (fst e) (fst (snd e)) (snd (snd e)) r"

definition event_chunk :: "recorder \<Rightarrow> chunk_event \<Rightarrow> chunk option" where
  "event_chunk r e = Some \<lparr> ck_time = fst e, ck_session = rec_session r,
     ck_direction = fst (snd e), ck_payload = snd (snd e) \<rparr>"

interpretation trec: append_log record_event transcript event_chunk "\<lambda>e. number_text (fst e)" whole_lines
  by unfold_locales (simp_all add: record_event_def event_chunk_def transcript_record)

definition recorded_file :: "recorder \<Rightarrow> pystr" where
  "recorded_file r = (case rec_file r of None \<Rightarrow> [] | Some t \<Rightarrow> t)"

lemma recorded_file_event: "recorded_file (record_event e r) =
    recorded_file r @ record_line (fst e) (rec_session r) (fst (snd e)) (snd (snd e)) @ [CHR 0x0A]"
  by (simp add: recorded_file_def record_event_def record_chunk_def)

lemma recorded_file_fold [simp]: "prefix (recorded_file q) (recorded_file (fold record_event es q))"
proof (induction es arbitrary: q)
  case (Cons e es)
  have "prefix (recorded_file q) (recorded_file (record_event e q))" by (simp add: recorded_file_event)
  with Cons[of "record_event e q"] show ?case using prefix_order.trans by simp
qed simp

definition whole_file :: "pystr option \<Rightarrow> bool" where
  "whole_file file = (case file of None \<Rightarrow> True | Some t \<Rightarrow> t = [] \<or> last t = CHR 0x0A)"

lemma whole_lines_new_recorder: "whole_file file \<Longrightarrow> whole_lines (new_recorder file sid)"
  by (auto simp: whole_file_def whole_lines_def new_recorder_def split: option.splits)

section \<open>A write that fails partway\<close>

definition record_torn :: "nat \<Rightarrow> pystr \<Rightarrow> pystr \<Rightarrow> bytes \<Rightarrow> recorder \<Rightarrow> recorder" where
  \<comment> \<open>\<open>f.write\<close> or the flush raises when \<open>n\<close> characters have reached the file\<close>
  "record_torn n now direction payload r =
     r\<lparr> rec_file := Some ((case rec_file r of None \<Rightarrow> [] | Some t \<Rightarrow> t) @
                          take n (record_line now (rec_session r) direction payload @ [CHR 0x0A])) \<rparr>"

lemma torn_session [simp]: "rec_session (record_torn n now d p r) = rec_session r"
  by (simp add: record_torn_def)

lemma log_lines_torn:
  assumes "t = [] \<or> last t = CHR 0x0A" "CHR 0x0A \<notin> set f" "CHR 0x0A \<notin> set l"
  shows "log_lines (t @ f @ l @ [CHR 0x0A]) = log_lines t @ [f @ l]"
  using log_lines_append[of t "f @ l"] assms by simp

lemma transcript_torn:
  assumes "number_text now" "number_text now'" "whole_lines r" "n \<le> length (record_line now (rec_session r) d p)"
  shows "transcript (record_chunk now' d' p' (record_torn n now d p r)) = transcript r @
    [read_record (take n (record_line now (rec_session r) d p) @ record_line now' (rec_session r) d' p')]"
proof -
  obtain t where t: "rec_file r = Some t" "t = [] \<or> last t = CHR 0x0A"
    using assms(3) by (auto simp: whole_lines_def split: option.splits)
  have "CHR 0x0A \<notin> set (take n (record_line now (rec_session r) d p))"
    using printable_no_newline[OF record_line_printable[OF assms(1)]] by (meson in_set_takeD)
  from log_lines_torn[OF t(2) this printable_no_newline[OF record_line_printable[OF assms(2)]]] assms(4)
  show ?thesis by (simp add: transcript_def record_chunk_def record_torn_def t(1))
qed

section \<open>Properties\<close>

text \<open>
  C14. The transcript is append-only and lossless. After the recorder of a session has recorded any
  chunks onto a file of complete lines (or a fresh one), the file still begins with the old text, the
  lines of the old text read as before, and reading the further lines gives exactly the recorded
  chunks in order: the time as printed, the id of the session, the direction and the payload, whatever
  bytes they hold.
\<close>

theorem transcript_lossless:
  assumes "whole_file file" "list_all (\<lambda>e. number_text (fst e)) es"
  shows "prefix (recorded_file (new_recorder file sid)) (recorded_file (fold record_event es (new_recorder file sid))) \<and>
    transcript (fold record_event es (new_recorder file sid)) = transcript (new_recorder file sid) @
      map (\<lambda>(now, d, p). Some \<lparr> ck_time = now, ck_session = sid, ck_direction = d, ck_payload = p \<rparr>) es"
  using trec.entries_fold[OF assms(2) whole_lines_new_recorder[OF assms(1)]]
  by (simp add: recorded_file_fold event_chunk_def[abs_def] new_recorder_def case_prod_beta')

theorem transcript_lossless_witness:
  "transcript (fold record_event
      [(''1.5'', ''guest_to_host'', [CHR ''o'', CHR 0x0A, CHR 0xFF]), (''2e+09'', ''host_to_guest'', [CHR 0x22])]
      (new_recorder None [CHR ''s'', CHR 0x22])) =
    [Some \<lparr> ck_time = ''1.5'', ck_session = [CHR ''s'', CHR 0x22], ck_direction = ''guest_to_host'',
            ck_payload = [CHR ''o'', CHR 0x0A, CHR 0xFF] \<rparr>,
     Some \<lparr> ck_time = ''2e+09'', ck_session = [CHR ''s'', CHR 0x22], ck_direction = ''host_to_guest'', ck_payload = [CHR 0x22] \<rparr>]"
proof -
  have "whole_file None" by code_simp
  moreover have "list_all (\<lambda>e. number_text (fst e))
      [(''1.5'', ''guest_to_host'', [CHR ''o'', CHR 0x0A, CHR 0xFF]), (''2e+09'', ''host_to_guest'', [CHR 0x22])]"
    by code_simp
  moreover have "transcript (new_recorder None [CHR ''s'', CHR 0x22]) = []" by code_simp
  ultimately show ?thesis
    using transcript_lossless[of None "[(''1.5'', ''guest_to_host'', [CHR ''o'', CHR 0x0A, CHR 0xFF]),
      (''2e+09'', ''host_to_guest'', [CHR 0x22])]" "[CHR ''s'', CHR 0x22]"] by simp
qed

text \<open>
  C15. A write that fails partway. The damage is one line: the chunk whose write failed and the next one share it. Every chunk recorded
  before or after these two is read back, and when nothing of the torn line was written, so is the next one.
\<close>

theorem torn_write_contained:
  assumes "whole_lines r" "list_all (\<lambda>e. number_text (fst e)) (es @ (now, d, p) # (now', d', p') # es')"
    and "n \<le> length (record_line now (rec_session r) d p)"
  shows "\<exists>x. transcript (fold record_event es' (record_chunk now' d' p' (record_torn n now d p (fold record_event es r)))) =
      transcript r @ map (event_chunk r) es @ [x] @ map (event_chunk r) es' \<and>
    (n = 0 \<longrightarrow> x = event_chunk r (now', d', p'))"
proof -
  let ?q = "fold record_event es r"
  let ?l = "take n (record_line now (rec_session r) d p) @ record_line now' (rec_session r) d' p'"
  have v: "list_all (\<lambda>e. number_text (fst e)) es" "list_all (\<lambda>e. number_text (fst e)) es'" "number_text now" "number_text now'"
    using assms(2) by simp_all
  have s: "rec_session ?q = rec_session r"
    by (induction es arbitrary: r) (simp_all add: record_event_def)
  have q: "event_chunk (record_chunk now' d' p' (record_torn n now d p ?q)) = event_chunk r"
    by (rule ext) (simp add: event_chunk_def s)
  from trec.entries_fold[OF v(2), of "record_chunk now' d' p' (record_torn n now d p ?q)"] q
    transcript_torn[OF v(3,4) trec.good_fold[OF v(1) assms(1)], of n d p d' p'] assms(3)
    trec.entries_fold[OF v(1) assms(1)]
  have "transcript (fold record_event es' (record_chunk now' d' p' (record_torn n now d p ?q))) =
      transcript r @ map (event_chunk r) es @ [read_record ?l] @ map (event_chunk r) es'"
    by (simp add: s)
  moreover have "n = 0 \<longrightarrow> read_record ?l = event_chunk r (now', d', p')"
    by (simp add: read_record_line[OF v(4)] event_chunk_def)
  ultimately show ?thesis by blast
qed

theorem torn_write_contained_witness:
  "\<exists>x. transcript (fold record_event [(''4'', ''guest_to_host'', ''d'')] (record_chunk ''3'' ''guest_to_host'' ''c''
      (record_torn 20 ''2'' ''guest_to_host'' ''b'' (fold record_event [(''1'', ''guest_to_host'', ''a'')] (new_recorder None ''s''))))) =
    [Some \<lparr> ck_time = ''1'', ck_session = ''s'', ck_direction = ''guest_to_host'', ck_payload = ''a'' \<rparr>, x,
     Some \<lparr> ck_time = ''4'', ck_session = ''s'', ck_direction = ''guest_to_host'', ck_payload = ''d'' \<rparr>]"
proof -
  let ?r = "new_recorder None ''s''" and ?d = "''guest_to_host''"
  have "whole_lines ?r" by (rule whole_lines_new) simp
  moreover have "list_all (\<lambda>e. number_text (fst e)) ([(''1'', ?d, ''a'')] @ (''2'', ?d, ''b'') # (''3'', ?d, ''c'') # [(''4'', ?d, ''d'')])"
    by code_simp
  moreover have "20 \<le> length (record_line ''2'' (rec_session ?r) ?d ''b'')" by code_simp
  moreover have "transcript ?r = []" by (simp add: transcript_def new_recorder_def log_lines_def)
  ultimately show ?thesis
    using torn_write_contained[of ?r "[(''1'', ?d, ''a'')]" "''2''" ?d "''b''" "''3''" ?d "''c''" "[(''4'', ?d, ''d'')]" 20]
    by (auto simp: event_chunk_def new_recorder_def simp del: fold_simps)
qed

text \<open>
  Whatever the session id, the direction and the bytes of the chunk, what one call of
  \<open>record\<close> appends is a single line: printable ASCII and then the newline.
\<close>

lemma record_appends_one_line:
  assumes "number_text now"
  shows "\<exists>line. recorded_file (record_chunk now d p r) = recorded_file r @ line @ [CHR 0x0A] \<and>
    list_all printable_ascii line \<and> CHR 0x0A \<notin> set line"
  using record_line_printable[OF assms] printable_no_newline[OF record_line_printable[OF assms]]
  by (auto simp: recorded_file_def record_chunk_def)

end
