(* ===== verification/Hub.thy ===== *)
theory Hub
  imports Recorder
begin

text \<open>
  The attach hub of a session (\<open>AttachHub\<close> and the two pump functions of session_manager.py), each
  operation as a function of the hub's state. Sockets are named by numbers. A socket has a flag for
  being closed on the host's side, the bytes delivered to its peer, and the number of bytes the peer
  will still take before a send on it raises \<open>OSError\<close>; the last is the environment's choice. What a
  pump receives is a script: a stop flag and the result of \<open>recv\<close> for each round. A script that is used
  up leaves the pump waiting in \<open>recv\<close>. The theory Sessions runs the same operations in threads.
\<close>

section \<open>State\<close>

type_synonym sock = nat

record socket =
  sk_closed :: bool
  sk_sent :: bytes
  sk_room :: nat

record hub =
  h_stdio :: sock
  h_recorder :: recorder
  h_clients :: "sock list"
  h_socks :: "sock \<Rightarrow> socket"

definition GUEST_TO_HOST :: pystr where "GUEST_TO_HOST = ''guest_to_host''"
definition HOST_TO_GUEST :: pystr where "HOST_TO_GUEST = ''host_to_guest''"

definition new_hub :: "sock \<Rightarrow> recorder \<Rightarrow> (sock \<Rightarrow> socket) \<Rightarrow> hub" where
  "new_hub stdio r socks = \<lparr> h_stdio = stdio, h_recorder = r, h_clients = [], h_socks = socks \<rparr>"

section \<open>Sockets\<close>

definition at_sock :: "sock \<Rightarrow> (socket \<Rightarrow> socket) \<Rightarrow> hub \<Rightarrow> hub" where
  "at_sock s f h = h\<lparr> h_socks := (h_socks h)(s := f (h_socks h s)) \<rparr>"

definition deliver :: "bytes \<Rightarrow> socket \<Rightarrow> socket" where
  "deliver b sk = sk\<lparr> sk_sent := sk_sent sk @ b, sk_room := sk_room sk - length b \<rparr>"

definition accepts_all :: "bytes \<Rightarrow> socket \<Rightarrow> bool" where
  "accepts_all b sk \<longleftrightarrow> \<not> sk_closed sk \<and> length b \<le> sk_room sk"

definition sendall :: "bytes \<Rightarrow> sock \<Rightarrow> hub \<Rightarrow> bool \<times> hub" where
  \<comment> \<open>\<open>False\<close> is an \<open>OSError\<close>; a part of the bytes may have been taken before it\<close>
  "sendall b s h =
     (if sk_closed (h_socks h s) then (False, h)
      else if length b \<le> sk_room (h_socks h s) then (True, at_sock s (deliver b) h)
      else (False, at_sock s (deliver (take (sk_room (h_socks h s)) b)) h))"

section \<open>Operations\<close>

definition hub_record :: "pystr \<Rightarrow> pystr \<Rightarrow> bytes \<Rightarrow> hub \<Rightarrow> hub" where
  "hub_record now direction b h = h\<lparr> h_recorder := record_chunk now direction b (h_recorder h) \<rparr>"

definition add_client :: "sock \<Rightarrow> hub \<Rightarrow> hub" where
  "add_client c h = h\<lparr> h_clients := h_clients h @ [c] \<rparr>"

definition unlink_client :: "sock \<Rightarrow> hub \<Rightarrow> hub" where
  \<comment> \<open>the part of \<open>remove_client\<close> under the lock\<close>
  "unlink_client c h =
     (if c \<in> set (h_clients h) then h\<lparr> h_clients := remove1 c (h_clients h) \<rparr> else h)"

definition shut :: "sock \<Rightarrow> hub \<Rightarrow> hub" where
  "shut c h = at_sock c (sk_closed_update (\<lambda>_. True)) h"

definition remove_client :: "sock \<Rightarrow> hub \<Rightarrow> hub" where
  "remove_client c h = shut c (unlink_client c h)"

fun send_clients :: "bytes \<Rightarrow> sock list \<Rightarrow> hub \<Rightarrow> hub" where
  "send_clients b [] h = h"
| "send_clients b (c # cs) h =
     (case sendall b c h of
        (True, h1) \<Rightarrow> send_clients b cs h1
      | (False, h1) \<Rightarrow> send_clients b cs (remove_client c h1))"

definition broadcast_from_guest :: "pystr \<Rightarrow> bytes \<Rightarrow> hub \<Rightarrow> hub" where
  "broadcast_from_guest now b h =
     (let h1 = hub_record now GUEST_TO_HOST b h in send_clients b (h_clients h1) h1)"

definition forward_to_guest :: "pystr \<Rightarrow> bytes \<Rightarrow> hub \<Rightarrow> bool \<times> hub" where
  "forward_to_guest now b h =
     (let h1 = hub_record now HOST_TO_GUEST b h in sendall b (h_stdio h1) h1)"

section \<open>Pumps\<close>

datatype received = Data bytes | RecvOSError \<comment> \<open>\<open>Data []\<close> is the end of the stream\<close>

datatype ending = Waiting | Returned | Raised

fun pump_guest :: "(pystr \<times> bool \<times> received) list \<Rightarrow> hub \<Rightarrow> ending \<times> hub" where
  \<comment> \<open>one round: the clock, whether \<open>stop_event\<close> is set, the result of \<open>recv\<close>\<close>
  "pump_guest [] h = (Waiting, h)"
| "pump_guest ((now, stop, rv) # script) h =
     (if stop then (Returned, h)
      else case rv of
        RecvOSError \<Rightarrow> (Returned, h)
      | Data b \<Rightarrow> if b = [] then (Returned, h) else pump_guest script (broadcast_from_guest now b h))"

fun client_loop :: "(pystr \<times> received) list \<Rightarrow> hub \<Rightarrow> ending \<times> hub" where
  "client_loop [] h = (Waiting, h)"
| "client_loop ((now, rv) # script) h =
     (case rv of
        RecvOSError \<Rightarrow> (Returned, h)
      | Data b \<Rightarrow>
          if b = [] then (Returned, h)
          else (case forward_to_guest now b h of
                  (True, h1) \<Rightarrow> client_loop script h1
                | (False, h1) \<Rightarrow> (Raised, h1)))"

definition pump_client :: "sock \<Rightarrow> (pystr \<times> received) list \<Rightarrow> hub \<Rightarrow> ending \<times> hub" where
  "pump_client c script h =
     (case client_loop script h of
        (Waiting, h1) \<Rightarrow> (Waiting, h1)
      | (e, h1) \<Rightarrow> (e, remove_client c h1))"

section \<open>Effect of the operations\<close>

named_theorems hub_simps

lemma at_sock_fields [hub_simps]:
  "h_stdio (at_sock s f h) = h_stdio h" "h_recorder (at_sock s f h) = h_recorder h"
  "h_clients (at_sock s f h) = h_clients h"
  "h_socks (at_sock s f h) = (h_socks h)(s := f (h_socks h s))"
  by (simp_all add: at_sock_def)

lemma hub_record_fields [hub_simps]:
  "h_stdio (hub_record now d b h) = h_stdio h" "h_clients (hub_record now d b h) = h_clients h"
  "h_socks (hub_record now d b h) = h_socks h"
  "h_recorder (hub_record now d b h) = record_event (now, d, b) (h_recorder h)"
  by (simp_all add: hub_record_def record_event_def)

lemma unlink_client_fields [hub_simps]:
  "h_stdio (unlink_client c h) = h_stdio h" "h_recorder (unlink_client c h) = h_recorder h"
  "h_socks (unlink_client c h) = h_socks h" "h_clients (unlink_client c h) = remove1 c (h_clients h)"
  by (simp_all add: unlink_client_def remove1_idem)

lemma shut_fields [hub_simps]:
  "h_stdio (shut c h) = h_stdio h" "h_recorder (shut c h) = h_recorder h"
  "h_clients (shut c h) = h_clients h"
  "h_socks (shut c h) = (h_socks h)(c := h_socks h c\<lparr> sk_closed := True \<rparr>)"
  by (simp_all add: shut_def hub_simps)

lemma remove_client_fields [hub_simps]:
  "h_stdio (remove_client c h) = h_stdio h" "h_recorder (remove_client c h) = h_recorder h"
  "h_clients (remove_client c h) = remove1 c (h_clients h)"
  "h_socks (remove_client c h) = (h_socks h)(c := h_socks h c\<lparr> sk_closed := True \<rparr>)"
  by (simp_all add: remove_client_def hub_simps)

lemma sendall_fields [hub_simps]:
  "h_stdio (snd (sendall b s h)) = h_stdio h" "h_recorder (snd (sendall b s h)) = h_recorder h"
  "h_clients (snd (sendall b s h)) = h_clients h" "fst (sendall b s h) = accepts_all b (h_socks h s)"
  "t \<noteq> s \<Longrightarrow> h_socks (snd (sendall b s h)) t = h_socks h t"
  by (simp_all add: sendall_def accepts_all_def hub_simps)

lemma sendall_ok: "accepts_all b (h_socks h s) \<Longrightarrow> h_socks (snd (sendall b s h)) s = deliver b (h_socks h s)"
  by (simp add: sendall_def accepts_all_def hub_simps)

lemma sendall_prefix: "\<exists>u. prefix u b \<and> sk_sent (h_socks (snd (sendall b s h)) s) = sk_sent (h_socks h s) @ u"
  by (auto simp: sendall_def hub_simps deliver_def take_is_prefix)

lemma send_clients_Cons: "send_clients b (c # cs) h =
    send_clients b cs (if accepts_all b (h_socks h c) then snd (sendall b c h) else remove_client c (snd (sendall b c h)))"
  using sendall_fields(4)[of b c h] by (auto split: prod.split bool.split)

lemma send_clients_fields [hub_simps]:
  "h_stdio (send_clients b cs h) = h_stdio h" "h_recorder (send_clients b cs h) = h_recorder h"
  by (induction cs arbitrary: h) (simp_all add: send_clients_Cons hub_simps del: send_clients.simps(2))

lemma send_clients_other: "t \<notin> set cs \<Longrightarrow> h_socks (send_clients b cs h) t = h_socks h t"
  by (induction cs arbitrary: h) (simp_all add: send_clients_Cons hub_simps del: send_clients.simps(2))

lemma send_clients_at:
  assumes "distinct cs" "c \<in> set cs"
  shows "h_socks (send_clients b cs h) c =
    (if accepts_all b (h_socks h c) then deliver b (h_socks h c)
     else (h_socks (snd (sendall b c h)) c)\<lparr> sk_closed := True \<rparr>)"
  using assms
proof (induction cs arbitrary: h)
  case (Cons d cs)
  define h1 where "h1 = (if accepts_all b (h_socks h d) then snd (sendall b d h)
      else remove_client d (snd (sendall b d h)))"
  have run: "send_clients b (d # cs) h = send_clients b cs h1"
    by (simp add: send_clients_Cons h1_def del: send_clients.simps(2))
  show ?case
  proof (cases "c = d")
    case True
    then have "c \<notin> set cs" using Cons.prems by simp
    with True show ?thesis
      unfolding run by (simp add: send_clients_other h1_def sendall_ok hub_simps)
  next
    case False
    then have c: "c \<in> set cs" "distinct cs" using Cons.prems by auto
    have same: "h_socks h1 c = h_socks h c" using False by (simp add: h1_def hub_simps)
    then have "h_socks (snd (sendall b c h1)) c = h_socks (snd (sendall b c h)) c"
      by (simp add: sendall_def hub_simps)
    with Cons.IH[OF c(2,1), of h1] same show ?thesis unfolding run by simp
  qed
qed simp

lemma remove1_filter_distinct: "distinct xs \<Longrightarrow> remove1 x xs = filter (\<lambda>y. y \<noteq> x) xs"
  unfolding distinct_remove1_removeAll removeAll_filter_not_eq by (rule filter_cong) auto

lemma send_clients_list:
  assumes "distinct cs" "distinct (h_clients h)"
  shows "h_clients (send_clients b cs h) =
    filter (\<lambda>c. c \<in> set cs \<longrightarrow> accepts_all b (h_socks h c)) (h_clients h)"
  using assms
proof (induction cs arbitrary: h)
  case (Cons d cs)
  define h1 where "h1 = (if accepts_all b (h_socks h d) then snd (sendall b d h)
      else remove_client d (snd (sendall b d h)))"
  have list: "h_clients h1 = filter (\<lambda>c. c = d \<longrightarrow> accepts_all b (h_socks h d)) (h_clients h)"
    using Cons.prems(2) by (auto simp: h1_def hub_simps remove1_filter_distinct)
  have dist: "distinct (h_clients h1)" using list Cons.prems(2) by simp
  have socks: "h_socks h1 c = h_socks h c" if "c \<noteq> d" for c
    using that by (simp add: h1_def hub_simps)
  have "send_clients b (d # cs) h = send_clients b cs h1"
    by (simp add: send_clients_Cons h1_def del: send_clients.simps(2))
  then have "h_clients (send_clients b (d # cs) h) =
      filter (\<lambda>c. c \<in> set cs \<longrightarrow> accepts_all b (h_socks h1 c)) (h_clients h1)"
    using Cons.IH[OF _ dist] Cons.prems(1) by simp
  also have "\<dots> = filter (\<lambda>c. c \<in> set (d # cs) \<longrightarrow> accepts_all b (h_socks h c)) (h_clients h)"
  proof -
    have "h_socks h1 c = h_socks h c" if "c \<in> set cs" for c
      by (rule socks) (use that Cons.prems(1) in auto)
    with Cons.prems(1) show ?thesis by (auto simp: list intro!: filter_cong)
  qed
  finally show ?case .
qed simp

lemma broadcast_fields [hub_simps]:
  "h_stdio (broadcast_from_guest now b h) = h_stdio h"
  "h_recorder (broadcast_from_guest now b h) = record_event (now, GUEST_TO_HOST, b) (h_recorder h)"
  by (simp_all add: broadcast_from_guest_def hub_simps Let_def)

lemma forward_fields [hub_simps]:
  "h_stdio (snd (forward_to_guest now b h)) = h_stdio h"
  "h_clients (snd (forward_to_guest now b h)) = h_clients h"
  "h_recorder (snd (forward_to_guest now b h)) = record_event (now, HOST_TO_GUEST, b) (h_recorder h)"
  "fst (forward_to_guest now b h) = accepts_all b (h_socks h (h_stdio h))"
  "s \<noteq> h_stdio h \<Longrightarrow> h_socks (snd (forward_to_guest now b h)) s = h_socks h s"
  by (simp_all add: forward_to_guest_def hub_simps Let_def)

lemma forward_stdio:
  "accepts_all b (h_socks h (h_stdio h)) \<Longrightarrow>
    h_socks (snd (forward_to_guest now b h)) (h_stdio h) = deliver b (h_socks h (h_stdio h))"
  "\<exists>u. prefix u b \<and> sk_sent (h_socks (snd (forward_to_guest now b h)) (h_stdio h)) = sk_sent (h_socks h (h_stdio h)) @ u"
  using sendall_ok[of b "hub_record now HOST_TO_GUEST b h" "h_stdio h"]
    sendall_prefix[of b "h_stdio h" "hub_record now HOST_TO_GUEST b h"]
  by (simp_all add: forward_to_guest_def hub_simps Let_def)

lemma client_loop_Data: "b \<noteq> [] \<Longrightarrow> client_loop ((now, Data b) # script) h =
    (if accepts_all b (h_socks h (h_stdio h)) then client_loop script (snd (forward_to_guest now b h))
     else (Raised, snd (forward_to_guest now b h)))"
  using forward_fields(4)[of now b h] by (auto split: prod.split bool.split)

lemma sendall_closed [simp]: "sk_closed (h_socks (snd (sendall b s h)) t) = sk_closed (h_socks h t)"
  by (simp add: sendall_def hub_simps deliver_def)

lemma client_loop_keeps:
  assumes "client_loop script h = (e, h')"
  shows "h_stdio h' = h_stdio h \<and> h_clients h' = h_clients h \<and> (\<forall>s. s \<noteq> h_stdio h \<longrightarrow> h_socks h' s = h_socks h s) \<and>
    sk_closed (h_socks h' (h_stdio h)) = sk_closed (h_socks h (h_stdio h))"
  using assms
proof (induction script arbitrary: h)
  case (Cons x script)
  obtain now rv where x: "x = (now, rv)" by (cases x)
  show ?case
  proof (cases "\<exists>b. rv = Data b \<and> b \<noteq> []")
    case False
    with Cons.prems show ?thesis by (auto simp: x split: received.splits if_splits)
  next
    case True
    then obtain b where b: "rv = Data b" "b \<noteq> []" by blast
    let ?h = "snd (forward_to_guest now b h)"
    have step: "h_stdio ?h = h_stdio h" "h_clients ?h = h_clients h" "\<And>s. s \<noteq> h_stdio h \<Longrightarrow> h_socks ?h s = h_socks h s"
      "sk_closed (h_socks ?h (h_stdio h)) = sk_closed (h_socks h (h_stdio h))"
      by (simp_all add: hub_simps) (simp add: forward_to_guest_def Let_def hub_simps)
    show ?thesis
    proof (cases "accepts_all b (h_socks h (h_stdio h))")
      case True
      with Cons.prems have "client_loop script ?h = (e, h')" by (simp add: x b client_loop_Data del: client_loop.simps(2))
      from Cons.IH[OF this] step show ?thesis by simp
    next
      case False
      with Cons.prems step show ?thesis by (auto simp: x b client_loop_Data simp del: client_loop.simps(2))
    qed
  qed
qed simp

fun events_of :: "pystr \<Rightarrow> (pystr \<times> received) list \<Rightarrow> chunk_event list" where
  \<comment> \<open>the chunks of a script up to its end or error, with their direction\<close>
  "events_of d [] = []"
| "events_of d ((now, rv) # script) =
     (case rv of RecvOSError \<Rightarrow> [] | Data b \<Rightarrow> if b = [] then [] else (now, d, b) # events_of d script)"

definition payload :: "chunk_event \<Rightarrow> bytes" where
  "payload e = snd (snd e)"

lemma payload_simp [simp]: "payload (now, d, b) = b"
  by (simp add: payload_def)

lemma client_loop_log:
  assumes "client_loop script h = (e, h')"
  shows "\<exists>n u. h_recorder h' = fold record_event (take n (events_of HOST_TO_GUEST script)) (h_recorder h) \<and>
    prefix u (concat (map payload (take n (events_of HOST_TO_GUEST script)))) \<and>
    sk_sent (h_socks h' (h_stdio h)) = sk_sent (h_socks h (h_stdio h)) @ u \<and>
    (e \<noteq> Raised \<longrightarrow> u = concat (map payload (events_of HOST_TO_GUEST script)))"
  using assms
proof (induction script arbitrary: h)
  case (Cons x script)
  obtain now rv where x: "x = (now, rv)" by (cases x)
  show ?case
  proof (cases "\<exists>b. rv = Data b \<and> b \<noteq> []")
    case False
    with Cons.prems show ?thesis by (auto simp: x split: received.splits if_splits)
  next
    case True
    then obtain b where b: "rv = Data b" "b \<noteq> []" by blast
    let ?h = "snd (forward_to_guest now b h)" and ?ev = "events_of HOST_TO_GUEST script"
    have ev: "events_of HOST_TO_GUEST (x # script) = (now, HOST_TO_GUEST, b) # ?ev" by (simp add: x b)
    have step: "h_stdio ?h = h_stdio h" "h_recorder ?h = record_event (now, HOST_TO_GUEST, b) (h_recorder h)"
      by (simp_all add: hub_simps)
    show ?thesis
    proof (cases "accepts_all b (h_socks h (h_stdio h))")
      case True
      with Cons.prems have "client_loop script ?h = (e, h')" by (simp add: x b client_loop_Data del: client_loop.simps(2))
      from Cons.IH[OF this] obtain n u where n: "h_recorder h' = fold record_event (take n ?ev) (h_recorder ?h)"
        "prefix u (concat (map payload (take n ?ev)))" "sk_sent (h_socks h' (h_stdio h)) = sk_sent (h_socks ?h (h_stdio h)) @ u"
        "e \<noteq> Raised \<longrightarrow> u = concat (map payload ?ev)"
        unfolding step(1) by blast
      have sent: "sk_sent (h_socks ?h (h_stdio h)) = sk_sent (h_socks h (h_stdio h)) @ b"
        using forward_stdio(1)[OF True] by (simp add: deliver_def)
      show ?thesis
        by (intro exI[of _ "Suc n"] exI[of _ "b @ u"] conjI) (use n sent in \<open>simp_all add: ev step\<close>)
    next
      case False
      then have "e = Raised" "h' = ?h" using Cons.prems by (auto simp: x b client_loop_Data simp del: client_loop.simps(2))
      moreover obtain u where "prefix u b" "sk_sent (h_socks ?h (h_stdio h)) = sk_sent (h_socks h (h_stdio h)) @ u"
        using forward_stdio(2) by blast
      ultimately show ?thesis
        by (intro exI[of _ "Suc 0"] exI[of _ u] conjI) (simp_all add: ev step)
    qed
  qed
qed simp

fun guest_events :: "(pystr \<times> bool \<times> received) list \<Rightarrow> chunk_event list" where
  \<comment> \<open>the chunks of a script up to the stop flag, the end or an error\<close>
  "guest_events [] = []"
| "guest_events ((now, stop, rv) # script) =
     (if stop then [] else case rv of RecvOSError \<Rightarrow> []
      | Data b \<Rightarrow> if b = [] then [] else (now, GUEST_TO_HOST, b) # guest_events script)"

lemma broadcast_clients_subset: "set (h_clients (broadcast_from_guest now b h)) \<subseteq> set (h_clients h)"
proof -
  have "set (h_clients (send_clients b cs q)) \<subseteq> set (h_clients q)" for cs q
  proof (induction cs arbitrary: q)
    case (Cons c cs)
    show ?case
      unfolding send_clients_Cons
      by (rule order.trans[OF Cons]) (simp add: hub_simps set_remove1_subset)
  qed simp
  from this[of "h_clients h" "hub_record now GUEST_TO_HOST b h"] show ?thesis
    by (simp add: broadcast_from_guest_def Let_def hub_simps)
qed

text \<open>
  The reader as a function: what it records is what it received, in order, up to the stop flag, the end
  of the stream or an error; it adds no client and never touches the connection to the guest.
\<close>

lemma pump_guest_records:
  assumes "pump_guest script h = (e, h')" "h_stdio h \<notin> set (h_clients h)"
  shows "h_recorder h' = fold record_event (guest_events script) (h_recorder h) \<and>
    set (h_clients h') \<subseteq> set (h_clients h) \<and> h_socks h' (h_stdio h) = h_socks h (h_stdio h) \<and>
    (e = Waiting \<longleftrightarrow> length (guest_events script) = length script)"
  using assms
proof (induction script arbitrary: h)
  case (Cons x script)
  obtain now stop rv where x: "x = (now, stop, rv)" by (cases x)
  show ?case
  proof (cases "\<not> stop \<and> (\<exists>b. rv = Data b \<and> b \<noteq> [])")
    case False
    with Cons.prems(1) show ?thesis by (auto simp: x split: if_splits received.splits)
  next
    case True
    then obtain b where b: "\<not> stop" "rv = Data b" "b \<noteq> []" by blast
    let ?h = "broadcast_from_guest now b h"
    have stdio: "h_socks ?h (h_stdio h) = h_socks h (h_stdio h)"
      using send_clients_other[OF Cons.prems(2), of b "hub_record now GUEST_TO_HOST b h"]
      by (simp add: broadcast_from_guest_def Let_def hub_simps)
    have sub: "set (h_clients ?h) \<subseteq> set (h_clients h)" by (rule broadcast_clients_subset)
    have "pump_guest script ?h = (e, h')" using Cons.prems(1) b by (simp add: x)
    from Cons.IH[OF this] sub Cons.prems(2) stdio show ?thesis
      by (auto simp: x b hub_simps)
  qed
qed simp

section \<open>Properties\<close>

text \<open>
  C30. What a broadcast does. The chunk is recorded; every client in the list that takes it whole gets
  exactly the chunk and stays in the list, in the same order; every other client is closed and leaves
  the list, having received a part of the chunk at most; no other socket changes, so neither does
  the connection to the guest.
\<close>

theorem broadcast_spec:
  assumes "distinct (h_clients h)" "h_stdio h \<notin> set (h_clients h)"
  shows "h_clients (broadcast_from_guest now b h) = filter (\<lambda>c. accepts_all b (h_socks h c)) (h_clients h) \<and>
    h_recorder (broadcast_from_guest now b h) = record_chunk now GUEST_TO_HOST b (h_recorder h) \<and>
    (\<forall>c \<in> set (h_clients h).
       if accepts_all b (h_socks h c)
       then h_socks (broadcast_from_guest now b h) c = deliver b (h_socks h c)
       else sk_closed (h_socks (broadcast_from_guest now b h) c) \<and>
         (\<exists>u. prefix u b \<and> sk_sent (h_socks (broadcast_from_guest now b h) c) = sk_sent (h_socks h c) @ u)) \<and>
    (\<forall>s. s \<notin> set (h_clients h) \<longrightarrow> h_socks (broadcast_from_guest now b h) s = h_socks h s) \<and>
    h_socks (broadcast_from_guest now b h) (h_stdio h) = h_socks h (h_stdio h)"
proof -
  let ?h = "hub_record now GUEST_TO_HOST b h"
  have run: "broadcast_from_guest now b h = send_clients b (h_clients h) ?h"
    by (simp add: broadcast_from_guest_def Let_def hub_simps)
  have list: "h_clients (broadcast_from_guest now b h) = filter (\<lambda>c. accepts_all b (h_socks h c)) (h_clients h)"
    unfolding run using send_clients_list[OF assms(1), of ?h] assms(1)
    by (simp add: hub_simps cong: filter_cong)
  have at: "h_socks (broadcast_from_guest now b h) c =
      (if accepts_all b (h_socks h c) then deliver b (h_socks h c)
       else (h_socks (snd (sendall b c ?h)) c)\<lparr> sk_closed := True \<rparr>)" if "c \<in> set (h_clients h)" for c
    unfolding run using send_clients_at[OF assms(1) that, of b ?h] by (simp add: hub_simps)
  have other: "h_socks (broadcast_from_guest now b h) s = h_socks h s" if "s \<notin> set (h_clients h)" for s
    unfolding run using send_clients_other[OF that, of b ?h] by (simp add: hub_simps)
  have part: "\<exists>u. prefix u b \<and> sk_sent (h_socks (snd (sendall b c ?h)) c) = sk_sent (h_socks h c) @ u" for c
    using sendall_prefix[of b c ?h] by (simp add: hub_simps)
  show ?thesis
    using list at other[OF assms(2)] other part by (simp add: hub_simps record_event_def)
qed

definition sample_hub :: hub where
  "sample_hub =
     add_client 2 (add_client 1 (new_hub 0 (new_recorder None ''s'')
       (\<lambda>s. \<lparr> sk_closed = False, sk_sent = [], sk_room = (if s = 1 then 1 else 9) \<rparr>)))"

theorem broadcast_spec_witness:
  "h_clients (broadcast_from_guest ''1.5'' ''hello'' sample_hub) = [2] \<and>
   sk_closed (h_socks (broadcast_from_guest ''1.5'' ''hello'' sample_hub) 1) \<and>
   sk_sent (h_socks (broadcast_from_guest ''1.5'' ''hello'' sample_hub) 2) = ''hello''"
proof -
  have hyps: "distinct (h_clients sample_hub)" "h_stdio sample_hub \<notin> set (h_clients sample_hub)"
    by (simp_all add: sample_hub_def new_hub_def add_client_def)
  have list: "h_clients sample_hub = [1, 2]"
    and acc: "\<not> accepts_all ''hello'' (h_socks sample_hub 1)" "accepts_all ''hello'' (h_socks sample_hub 2)"
    and sent: "sk_sent (deliver ''hello'' (h_socks sample_hub 2)) = ''hello''"
    by (simp_all add: sample_hub_def new_hub_def add_client_def accepts_all_def deliver_def)
  show ?thesis
    using broadcast_spec[OF hyps, of "''1.5''" "''hello''"] acc sent by (simp add: list del: One_nat_def)
qed

text \<open>
  C31. A client that leaves takes nothing with it. When the pump of a client has ended, however it ended,
  the client is closed and off the list, every other client is still on it, and no socket but the
  client's own and the guest's has changed; the connection to the guest is not closed. What reached
  the guest is a beginning of what was recorded as sent to it, and all the bytes received if the pump
  returned.
\<close>

theorem client_isolated:
  assumes "pump_client c script h = (e, h')" "e \<noteq> Waiting" "distinct (h_clients h)" "c \<noteq> h_stdio h"
  shows "h_clients h' = filter (\<lambda>d. d \<noteq> c) (h_clients h) \<and> sk_closed (h_socks h' c) \<and>
    (\<forall>s. s \<noteq> c \<and> s \<noteq> h_stdio h \<longrightarrow> h_socks h' s = h_socks h s) \<and>
    sk_closed (h_socks h' (h_stdio h)) = sk_closed (h_socks h (h_stdio h)) \<and>
    (\<exists>n u. h_recorder h' = fold record_event (take n (events_of HOST_TO_GUEST script)) (h_recorder h) \<and>
       prefix u (concat (map payload (take n (events_of HOST_TO_GUEST script)))) \<and>
       sk_sent (h_socks h' (h_stdio h)) = sk_sent (h_socks h (h_stdio h)) @ u \<and>
       (e = Returned \<longrightarrow> u = concat (map payload (events_of HOST_TO_GUEST script))))"
proof -
  obtain e1 h1 where loop: "client_loop script h = (e1, h1)" by fastforce
  then have e: "e1 = e" "h' = remove_client c h1"
    using assms(1,2) by (auto simp: pump_client_def split: ending.splits)
  note keeps = client_loop_keeps[OF loop]
  obtain n u where log: "h_recorder h1 = fold record_event (take n (events_of HOST_TO_GUEST script)) (h_recorder h)"
    "e \<noteq> Raised \<Longrightarrow> u = concat (map payload (events_of HOST_TO_GUEST script))"
    "prefix u (concat (map payload (take n (events_of HOST_TO_GUEST script))))"
    "sk_sent (h_socks h1 (h_stdio h)) = sk_sent (h_socks h (h_stdio h)) @ u"
    using client_loop_log[OF loop] e(1) by blast
  have "h_clients h' = filter (\<lambda>d. d \<noteq> c) (h_clients h)"
    using keeps assms(3) by (simp add: e hub_simps remove1_filter_distinct)
  moreover have "\<exists>n u. h_recorder h' = fold record_event (take n (events_of HOST_TO_GUEST script)) (h_recorder h) \<and>
       prefix u (concat (map payload (take n (events_of HOST_TO_GUEST script)))) \<and>
       sk_sent (h_socks h' (h_stdio h)) = sk_sent (h_socks h (h_stdio h)) @ u \<and>
       (e = Returned \<longrightarrow> u = concat (map payload (events_of HOST_TO_GUEST script)))"
    using log assms(4) by (intro exI[of _ n] exI[of _ u]) (simp add: e(2) hub_simps)
  ultimately show ?thesis using keeps assms(4) by (simp add: e(2) hub_simps)
qed

theorem client_isolated_witness:
  "\<exists>h'. pump_client 2 [(''1'', Data ''ls''), (''2'', Data ''a lot of text'')] sample_hub = (Raised, h') \<and>
     h_clients h' = [1] \<and> \<not> sk_closed (h_socks h' 0)"
proof -
  let ?script = "[(''1'', Data ''ls''), (''2'', Data ''a lot of text'')]"
  obtain h' where run: "pump_client 2 ?script sample_hub = (Raised, h')"
    by (simp add: sample_hub_def new_hub_def add_client_def pump_client_def forward_to_guest_def
        hub_record_def sendall_def at_sock_def deliver_def Let_def)
  have hyps: "distinct (h_clients sample_hub)" "2 \<noteq> h_stdio sample_hub"
    and eval: "filter (\<lambda>d. d \<noteq> 2) (h_clients sample_hub) = [1]" "h_stdio sample_hub = 0"
      "\<not> sk_closed (h_socks sample_hub 0)"
    by (simp_all add: sample_hub_def new_hub_def add_client_def)
  from client_isolated[OF run _ hyps] run eval show ?thesis by simp
qed

end
