(* ===== verification/Ports.thy ===== *)
theory Ports
  imports Prelude "HOL-Library.Word"
begin

text \<open>
  The vsock port numbers, on the host side (ports.py of agentvm) and on the guest side (ports.rs of
  pid1-init). Both files say that they are to be kept in sync.
\<close>

definition STDIO_PORT :: int where "STDIO_PORT = 10000"
definition PROXY_PORT :: int where "PROXY_PORT = 10001"
definition BPF_PORT :: int where "BPF_PORT = 10002"

definition rs_STDIO_PORT :: "32 word" where "rs_STDIO_PORT = 10000"
definition rs_PROXY_PORT :: "32 word" where "rs_PROXY_PORT = 10001"
definition rs_BPF_PORT :: "32 word" where "rs_BPF_PORT = 10002"

text \<open>
  Host and guest agree on the ports, and no two channels share one.
\<close>

lemma ports_in_sync:
  "uint rs_STDIO_PORT = STDIO_PORT \<and> uint rs_PROXY_PORT = PROXY_PORT \<and> uint rs_BPF_PORT = BPF_PORT \<and>
   distinct [STDIO_PORT, PROXY_PORT, BPF_PORT]"
  by (simp add: STDIO_PORT_def PROXY_PORT_def BPF_PORT_def rs_STDIO_PORT_def rs_PROXY_PORT_def rs_BPF_PORT_def)

end
