(* ===== verification/Vsock.thy ===== *)
theory Vsock
  imports Ports Complex_Main
begin

text \<open>
  Host-initiated vsock connections (vsock_bridge.py): reading the handshake line byte by byte, and
  \<open>connect_guest_port\<close>, which retries with a fresh socket until a reply, a protocol error or the
  deadline. The environment is a function from the number of the attempt to what the attempt sees: the
  monotonic clock when the loop starts over, whether connecting and sending succeed, and the outcomes
  of the following \<open>recv(1)\<close> calls. A socket whose outcomes are used up times out, which Python
  raises as an \<open>OSError\<close>. Sockets are named by their attempt, and the calls on them are recorded.
\<close>

section \<open>The handshake line\<close>

datatype recv = Byte char | Eof | RecvError

fun recv_loop :: "nat \<Rightarrow> recv list \<Rightarrow> bytes \<Rightarrow> (unit + bytes) \<times> recv list" where
  \<comment> \<open>\<open>Inl ()\<close> is an \<open>OSError\<close>\<close>
  "recv_loop max_bytes [] buf = (if length buf < max_bytes then Inl () else Inr buf, [])"
| "recv_loop max_bytes (ev # evs) buf =
     (if length buf < max_bytes
      then (case ev of
              RecvError \<Rightarrow> (Inl (), evs)
            | Eof \<Rightarrow> (Inr buf, ev # evs)
            | Byte b \<Rightarrow> if b = CHR 0x0A then (Inr (buf @ [b]), evs)
                        else recv_loop max_bytes evs (buf @ [b]))
      else (Inr buf, ev # evs))"

definition recv_handshake_line :: "recv list \<Rightarrow> (unit + bytes) \<times> recv list" where
  "recv_handshake_line evs = recv_loop 256 evs []"

lemma recv_loop_line: "recv_loop n evs buf = (Inr line, rest) \<Longrightarrow> CHR 0x0A \<notin> set buf \<Longrightarrow> length buf \<le> n \<Longrightarrow>
    \<exists>l. line = buf @ l \<and> map Byte l @ rest = evs \<and> length line \<le> n \<and> CHR 0x0A \<notin> set (butlast line) \<and>
      (line \<noteq> [] \<and> last line = CHR 0x0A \<or> length line = n \<or> (\<exists>r. rest = Eof # r))"
proof (induction evs arbitrary: buf)
  case Nil
  then show ?case by (auto split: if_splits dest: in_set_butlastD)
next
  case (Cons ev evs)
  show ?case
  proof (cases "length buf < n")
    case False
    with Cons.prems show ?thesis by (auto dest: in_set_butlastD)
  next
    case True
    show ?thesis
    proof (cases ev)
      case (Byte b)
      show ?thesis
      proof (cases "b = CHR 0x0A")
        case True
        with Byte \<open>length buf < n\<close> Cons.prems show ?thesis by auto
      next
        case False
        with Byte True Cons.prems have "recv_loop n evs (buf @ [b]) = (Inr line, rest)"
          and "CHR 0x0A \<notin> set (buf @ [b])" "length (buf @ [b]) \<le> n" by auto
        from Cons.IH[OF this] obtain l where "line = (buf @ [b]) @ l" "map Byte l @ rest = evs"
          "length line \<le> n" "CHR 0x0A \<notin> set (butlast line)"
          "line \<noteq> [] \<and> last line = CHR 0x0A \<or> length line = n \<or> (\<exists>r. rest = Eof # r)" by blast
        then show ?thesis unfolding Byte by (intro exI[of _ "b # l"]) simp
      qed
    qed (use True Cons.prems in \<open>auto dest: in_set_butlastD\<close>)
  qed
qed

lemma recv_loop_bytes: "CHR 0x0A \<notin> set l \<Longrightarrow> length buf + length l < n \<Longrightarrow>
    recv_loop n (map Byte l @ Byte (CHR 0x0A) # rest) buf = (Inr (buf @ l @ [CHR 0x0A]), rest)"
  by (induction l arbitrary: buf) auto

section \<open>The reply\<close>

definition is_space :: "char \<Rightarrow> bool" where
  "is_space c \<longleftrightarrow> c = CHR '' '' \<or> between CHR 0x09 CHR 0x0D c"

definition bytes_split :: "bytes \<Rightarrow> bytes list" where
  \<comment> \<open>\<open>b.split()\<close>: the maximal runs of non-space bytes\<close>
  "bytes_split s = filter (\<lambda>p. p \<noteq> []) (split_on (CHR '' '') (map (\<lambda>c. if is_space c then CHR '' '' else c) s))"

definition reply_ok :: "bytes \<Rightarrow> bool" where
  "reply_ok reply =
     (let parts = bytes_split reply in
      \<not> (length parts \<noteq> 2 \<or> parts ! 0 \<noteq> ''OK'' \<or> \<not> (parts ! 1 \<noteq> [] \<and> list_all is_digit (parts ! 1))))"

definition connect_request :: "int \<Rightarrow> bytes" where
  "connect_request port = ''CONNECT '' @ dec_int port @ [CHR 0x0A]"

definition spaces_to_blanks :: "bytes \<Rightarrow> bytes" where
  "spaces_to_blanks s = map (\<lambda>c. if is_space c then CHR '' '' else c) s"

lemma split_blanks_front: "filter (\<lambda>p. p \<noteq> []) (split_on x (replicate n x @ s)) = filter (\<lambda>p. p \<noteq> []) (split_on x s)"
  by (induction n) auto

lemma split_blanks_word: "x \<notin> set p \<Longrightarrow> p \<noteq> [] \<Longrightarrow>
    filter (\<lambda>p. p \<noteq> []) (split_on x (p @ replicate (Suc n) x @ s)) = p # filter (\<lambda>p. p \<noteq> []) (split_on x s)"
  by (simp add: split_blanks_front)

lemma blanks_replicate: "list_all is_space u \<Longrightarrow> spaces_to_blanks u = replicate (length u) (CHR '' '')"
  by (induction u) (auto simp: spaces_to_blanks_def)

lemma blanks_word: "list_all (\<lambda>c. \<not> is_space c) p \<Longrightarrow> spaces_to_blanks p = p"
  by (induction p) (auto simp: spaces_to_blanks_def)

lemma digit_not_space: "is_digit c \<Longrightarrow> \<not> is_space c"
  by (auto simp: is_digit_def is_space_def between_of_char)

text \<open>
  Which replies count as the handshake. The documentation asks for \<open>OK <n>\<close> and a line feed and
  calls anything else a protocol error; the code accepts the line feed as optional, any white space
  between and around the two words, and any run of digits.
\<close>

lemma reply_ok_spaces:
  assumes d: "list_all is_digit d" "d \<noteq> []" and sp: "list_all is_space u" "list_all is_space v" "list_all is_space w" "v \<noteq> []"
  shows "reply_ok (u @ ''OK'' @ v @ d @ w)"
proof -
  obtain n where n: "length v = Suc n" using sp(4) by (cases v) auto
  have ok: "list_all (\<lambda>c. \<not> is_space c) ''OK''" by (simp add: is_space_def between_def)
  have dn: "list_all (\<lambda>c. \<not> is_space c) d" using d(1) by (auto simp: list_all_iff digit_not_space)
  have ds: "CHR '' '' \<notin> set d" using dn by (auto simp: list_all_iff is_space_def)
  have "spaces_to_blanks (u @ ''OK'' @ v @ d @ w) =
      replicate (length u) (CHR '' '') @ ''OK'' @ replicate (Suc n) (CHR '' '') @ d @ replicate (length w) (CHR '' '')"
    using blanks_replicate[OF sp(1)] blanks_replicate[OF sp(2)] blanks_replicate[OF sp(3)] blanks_word[OF ok] blanks_word[OF dn] n
    by (simp add: spaces_to_blanks_def)
  moreover have "filter (\<lambda>p. p \<noteq> []) (split_on (CHR '' '') (d @ replicate (length w) (CHR '' ''))) = [d]"
  proof (cases w)
    case (Cons c w')
    then show ?thesis
      using split_blanks_word[OF ds d(2), of "length w'" "[]"] by simp
  qed (use ds d in simp)
  ultimately have "bytes_split (u @ ''OK'' @ v @ d @ w) = [''OK'', d]"
    unfolding bytes_split_def spaces_to_blanks_def[symmetric]
    using split_blanks_front split_blanks_word[of "CHR '' ''" "''OK''" n] by simp
  with d show ?thesis by (simp add: reply_ok_def)
qed

section \<open>Connecting\<close>

datatype cause = OsErr | ClosedBeforeReply int
datatype vsock_error = TimedOut int rat "cause option" | Malformed bytes

datatype conn = ConnectFails | SendFails | Accepted "recv list"

record attempt =
  at_now :: rat
  at_conn :: conn

datatype action =
    Open nat | SetTimeout nat "rat option" | Connect nat pystr | SendAll nat bytes | Close nat | Sleep rat

datatype outcome = Retry cause | Refuse vsock_error | Connected "recv list"

definition attempt_outcome :: "int \<Rightarrow> attempt \<Rightarrow> outcome" where
  "attempt_outcome port a =
     (case at_conn a of
        ConnectFails \<Rightarrow> Retry OsErr
      | SendFails \<Rightarrow> Retry OsErr
      | Accepted evs \<Rightarrow>
          (case recv_handshake_line evs of
             (Inl _, _) \<Rightarrow> Retry OsErr
           | (Inr reply, rest) \<Rightarrow>
               if reply = [] then Retry (ClosedBeforeReply port)
               else if \<not> reply_ok reply then Refuse (Malformed reply)
               else Connected rest))"

definition attempt_calls :: "pystr \<Rightarrow> int \<Rightarrow> rat \<Rightarrow> nat \<Rightarrow> attempt \<Rightarrow> action list" where
  "attempt_calls uds_path port remaining i a =
     [Open i, SetTimeout i (Some remaining), Connect i uds_path] @
     (if at_conn a = ConnectFails then [] else [SendAll i (connect_request port)]) @
     (case attempt_outcome port a of
        Retry _ \<Rightarrow> [Close i, Sleep (1 / 20)]
      | Refuse _ \<Rightarrow> [Close i]
      | Connected _ \<Rightarrow> [SetTimeout i None])"

fun connect_loop :: "nat \<Rightarrow> (nat \<Rightarrow> attempt) \<Rightarrow> pystr \<Rightarrow> int \<Rightarrow> rat \<Rightarrow> rat \<Rightarrow> nat \<Rightarrow> cause option \<Rightarrow> action list \<Rightarrow>
    ((vsock_error + nat \<times> recv list) \<times> action list) option" where
  "connect_loop 0 env uds_path port timeout deadline i last_error calls = None"
| "connect_loop (Suc fuel) env uds_path port timeout deadline i last_error calls =
     (let remaining = deadline - at_now (env i) in
      if remaining \<le> 0 then Some (Inl (TimedOut port timeout last_error), calls)
      else
        let calls = calls @ attempt_calls uds_path port remaining i (env i) in
        case attempt_outcome port (env i) of
          Retry c \<Rightarrow> connect_loop fuel env uds_path port timeout deadline (Suc i) (Some c) calls
        | Refuse e \<Rightarrow> Some (Inl e, calls)
        | Connected rest \<Rightarrow> Some (Inr (i, rest), calls))"

definition connect_guest_port :: "nat \<Rightarrow> (nat \<Rightarrow> attempt) \<Rightarrow> rat \<Rightarrow> pystr \<Rightarrow> int \<Rightarrow> rat \<Rightarrow>
    ((vsock_error + nat \<times> recv list) \<times> action list) option" where
  \<comment> \<open>\<open>now\<close> is the clock when the function is entered\<close>
  "connect_guest_port fuel env now uds_path port timeout =
     connect_loop fuel env uds_path port timeout (now + timeout) 0 None []"

section \<open>The loop\<close>

definition retries :: "(nat \<Rightarrow> attempt) \<Rightarrow> int \<Rightarrow> rat \<Rightarrow> nat \<Rightarrow> bool" where
  \<comment> \<open>the first \<open>k\<close> attempts start before the deadline and end in a retry\<close>
  "retries env port deadline k \<longleftrightarrow>
     (\<forall>i<k. at_now (env i) < deadline \<and> (\<exists>c. attempt_outcome port (env i) = Retry c))"

definition last_cause :: "(nat \<Rightarrow> attempt) \<Rightarrow> int \<Rightarrow> nat \<Rightarrow> cause option" where
  "last_cause env port k =
     (case k of 0 \<Rightarrow> None
      | Suc j \<Rightarrow> (case attempt_outcome port (env j) of Retry c \<Rightarrow> Some c | _ \<Rightarrow> None))"

definition calls_upto :: "(nat \<Rightarrow> attempt) \<Rightarrow> pystr \<Rightarrow> int \<Rightarrow> rat \<Rightarrow> nat \<Rightarrow> action list" where
  "calls_upto env path port deadline k =
     concat (map (\<lambda>i. attempt_calls path port (deadline - at_now (env i)) i (env i)) [0..<k])"

lemma retries_Suc: "retries env port deadline (Suc k) \<longleftrightarrow>
    retries env port deadline k \<and> at_now (env k) < deadline \<and> (\<exists>c. attempt_outcome port (env k) = Retry c)"
  by (auto simp: retries_def less_Suc_eq)

lemma connect_loop_retries:
  "retries env port deadline k \<Longrightarrow>
   connect_loop (k + fuel) env path port timeout deadline 0 None [] =
   connect_loop fuel env path port timeout deadline k (last_cause env port k) (calls_upto env path port deadline k)"
proof (induction k arbitrary: fuel)
  case 0
  then show ?case by (simp add: last_cause_def calls_upto_def)
next
  case (Suc k)
  then obtain c where r: "retries env port deadline k" "at_now (env k) < deadline"
      "attempt_outcome port (env k) = Retry c" by (auto simp: retries_Suc)
  from Suc.IH[OF r(1), of "Suc fuel"] r(2,3) show ?case
    by (simp add: Let_def last_cause_def calls_upto_def)
qed

definition decided :: "(nat \<Rightarrow> attempt) \<Rightarrow> int \<Rightarrow> rat \<Rightarrow> nat \<Rightarrow> bool" where
  \<comment> \<open>the loop stops in round \<open>k\<close>\<close>
  "decided env port deadline k \<longleftrightarrow> retries env port deadline k \<and>
     (deadline \<le> at_now (env k) \<or> (\<forall>c. attempt_outcome port (env k) \<noteq> Retry c))"

definition decision :: "(nat \<Rightarrow> attempt) \<Rightarrow> int \<Rightarrow> rat \<Rightarrow> rat \<Rightarrow> nat \<Rightarrow> vsock_error + nat \<times> recv list" where
  "decision env port timeout deadline k =
     (if deadline \<le> at_now (env k) then Inl (TimedOut port timeout (last_cause env port k))
      else case attempt_outcome port (env k) of
             Retry c \<Rightarrow> Inl (TimedOut port timeout (Some c))
           | Refuse e \<Rightarrow> Inl e
           | Connected rest \<Rightarrow> Inr (k, rest))"

lemma connect_decided:
  assumes "decided env port (now + timeout) k" "k < fuel"
  shows "\<exists>calls. connect_guest_port fuel env now path port timeout =
    Some (decision env port timeout (now + timeout) k, calls)"
proof -
  obtain m where fuel: "fuel = k + Suc m" using assms(2) less_imp_add_positive by (metis add_Suc_right less_natE)
  have r: "retries env port (now + timeout) k" using assms(1) by (simp add: decided_def)
  show ?thesis
    using connect_loop_retries[OF r, of "Suc m" path timeout] assms(1)
    by (auto simp: connect_guest_port_def fuel decided_def decision_def Let_def split: outcome.split)
qed

lemma connect_loop_result:
  "connect_loop fuel env path port timeout deadline i c calls = Some (Inr (k, rest), calls') \<Longrightarrow>
   at_now (env k) < deadline \<and> attempt_outcome port (env k) = Connected rest"
  by (induction fuel env path port timeout deadline i c calls rule: connect_loop.induct)
    (auto simp: Let_def split: if_splits outcome.splits)

lemma connect_loop_fuel_mono:
  "connect_loop fuel env path port timeout deadline i c calls = Some r \<Longrightarrow>
   connect_loop (Suc fuel) env path port timeout deadline i c calls = Some r"
proof (induction fuel env path port timeout deadline i c calls rule: connect_loop.induct)
  case (2 fuel env path port timeout deadline i c calls)
  then show ?case
    by (subst connect_loop.simps) (auto simp: Let_def split: if_splits outcome.splits)
qed simp

text \<open>A clock that advances by the pause of 0.05 s between attempts, from the entry on.\<close>

definition advancing :: "(nat \<Rightarrow> attempt) \<Rightarrow> rat \<Rightarrow> bool" where
  "advancing env now \<longleftrightarrow> now \<le> at_now (env 0) \<and> (\<forall>i. at_now (env i) + 1 / 20 \<le> at_now (env (Suc i)))"

lemma advancing_bound: "advancing env now \<Longrightarrow> now + of_nat i / 20 \<le> at_now (env i)"
proof (induction i)
  case (Suc i)
  then have "now + of_nat i / 20 \<le> at_now (env i)" "at_now (env i) + 1 / 20 \<le> at_now (env (Suc i))"
    by (auto simp: advancing_def)
  then show ?case by (simp add: field_simps)
qed (simp add: advancing_def)

definition max_attempts :: "rat \<Rightarrow> nat" where
  "max_attempts timeout = nat \<lceil>20 * timeout\<rceil>"

lemma advancing_decided:
  assumes "advancing env now"
  shows "\<exists>k\<le>max_attempts timeout. decided env port (now + timeout) k"
proof -
  let ?stop = "\<lambda>k. now + timeout \<le> at_now (env k) \<or> (\<forall>c. attempt_outcome port (env k) \<noteq> Retry c)"
  have "20 * timeout \<le> of_nat (max_attempts timeout)"
    unfolding max_attempts_def by (rule of_nat_ceiling)
  then have "now + timeout \<le> now + of_nat (max_attempts timeout) / 20" by (simp add: field_simps)
  also have "\<dots> \<le> at_now (env (max_attempts timeout))" by (rule advancing_bound[OF assms])
  finally have s: "?stop (max_attempts timeout)" by simp
  define k where "k = (LEAST k. ?stop k)"
  have "?stop k" unfolding k_def using s by (rule LeastI)
  moreover have "k \<le> max_attempts timeout" unfolding k_def using s by (rule Least_le)
  moreover have "retries env port (now + timeout) k"
    unfolding retries_def using not_less_Least[of _ ?stop] k_def by (metis not_le)
  ultimately show ?thesis by (auto simp: decided_def)
qed

section \<open>Open sockets\<close>

text \<open>The open sockets after some calls, each with its timeout.\<close>

fun open_sockets :: "(nat \<rightharpoonup> rat option) \<Rightarrow> action list \<Rightarrow> (nat \<rightharpoonup> rat option)" where
  "open_sockets m [] = m"
| "open_sockets m (Open i # cs) = open_sockets (m(i \<mapsto> None)) cs"
| "open_sockets m (SetTimeout i t # cs) = open_sockets (m(i \<mapsto> t)) cs"
| "open_sockets m (Close i # cs) = open_sockets (m(i := None)) cs"
| "open_sockets m (_ # cs) = open_sockets m cs"

lemma open_sockets_append [simp]: "open_sockets m (a @ b) = open_sockets (open_sockets m a) b"
proof (induction a arbitrary: m)
  case (Cons x a)
  then show ?case by (cases x) (simp_all add: fun_upd_def)
qed simp

lemma open_sockets_attempt: "open_sockets Map.empty (attempt_calls path port r i a) =
    (case attempt_outcome port a of Connected _ \<Rightarrow> [i \<mapsto> None] | _ \<Rightarrow> Map.empty)"
  by (auto simp: attempt_calls_def fun_eq_iff split: outcome.split)

lemma connect_loop_sockets:
  "connect_loop fuel env path port timeout deadline i c calls = Some (res, calls') \<Longrightarrow>
   open_sockets Map.empty calls = Map.empty \<Longrightarrow>
   open_sockets Map.empty calls' = (case res of Inl _ \<Rightarrow> Map.empty | Inr (k, _) \<Rightarrow> [k \<mapsto> None])"
proof (induction fuel env path port timeout deadline i c calls rule: connect_loop.induct)
  case (2 fuel env path port timeout deadline i c calls)
  show ?case
  proof (cases "attempt_outcome port (env i)")
    case (Retry x)
    with 2 show ?thesis
      by (auto simp: Let_def open_sockets_attempt split: if_splits)
  qed (use 2 in \<open>auto simp: Let_def open_sockets_attempt split: if_splits\<close>)
qed simp

section \<open>Properties\<close>

text \<open>
  The first decisive attempt decides. If the attempts before number \<open>k\<close> start in time and end in
  a retry (an \<open>OSError\<close>, or a connection closed without a reply), and attempt \<open>k\<close> starts at or after
  the deadline or does not end in a retry, the result is that of \<open>k\<close>: the timeout error carrying the
  cause of the last failure, the protocol error, or the connected socket.
\<close>

lemma connect_result:
  assumes "decided env port (now + timeout) k" "k < fuel"
  shows "\<exists>calls. connect_guest_port fuel env now path port timeout =
    Some (decision env port timeout (now + timeout) k, calls)"
  using assms by (rule connect_decided)

definition sample_attempts :: "nat \<Rightarrow> attempt" where
  "sample_attempts i =
     \<lparr>at_now = of_nat i / 10,
      at_conn = (if i = 0 then ConnectFails else if i = 1 then Accepted [Eof]
                 else Accepted (map Byte ''OK 10000'' @ [Byte (CHR 0x0A), Byte (CHR ''h'')]))\<rparr>"

lemma sample_outcomes:
  "attempt_outcome 10000 (sample_attempts 0) = Retry OsErr"
  "attempt_outcome 10000 (sample_attempts (Suc 0)) = Retry (ClosedBeforeReply 10000)"
  "attempt_outcome 10000 (sample_attempts 2) = Connected [Byte (CHR ''h'')]"
  by (simp_all add: attempt_outcome_def sample_attempts_def recv_handshake_line_def) code_simp

lemma sample_decided: "decided sample_attempts 10000 (0 + 2) 2"
  using sample_outcomes
  by (auto simp: decided_def retries_def sample_attempts_def less_Suc_eq numeral_2_eq_2)

lemma sample_decision: "decision sample_attempts 10000 2 (0 + 2) 2 = Inr (2, [Byte (CHR ''h'')])"
  by (simp add: decision_def sample_outcomes) (simp add: sample_attempts_def)

text \<open>
  \<open>connect_guest_port\<close> returns. With a clock that advances by the pause between attempts, at most
  \<open>\<lceil>20 * timeout\<rceil>\<close> attempts are made before the loop ends, whatever the peer does.
\<close>

lemma connect_terminates:
  assumes "advancing env now" "max_attempts timeout < fuel"
  shows "\<exists>k calls. k \<le> max_attempts timeout \<and>
    connect_guest_port fuel env now path port timeout = Some (decision env port timeout (now + timeout) k, calls)"
proof -
  obtain k where "k \<le> max_attempts timeout" "decided env port (now + timeout) k"
    using advancing_decided[OF assms(1)] by blast
  with connect_decided assms(2) show ?thesis by (meson le_less_trans)
qed

text \<open>
  C20. No socket leaks. When the function raises, every socket it opened is closed; when it returns, the
  only open socket is the one returned, and its timeout has been removed.
\<close>

theorem connect_sockets:
  assumes "connect_guest_port fuel env now path port timeout = Some (res, calls)"
  shows "open_sockets Map.empty calls = (case res of Inl _ \<Rightarrow> Map.empty | Inr (k, _) \<Rightarrow> [k \<mapsto> None])"
  using connect_loop_sockets[OF assms[unfolded connect_guest_port_def]] by simp

theorem connect_sockets_witness:
  "\<exists>calls. connect_guest_port 3 sample_attempts 0 ''/v.sock'' 10000 2 = Some (Inr (2, [Byte (CHR ''h'')]), calls) \<and>
     open_sockets Map.empty calls = [2 \<mapsto> None]"
proof -
  obtain calls where c: "connect_guest_port 3 sample_attempts 0 ''/v.sock'' 10000 2 =
      Some (Inr (2, [Byte (CHR ''h'')]), calls)"
    using connect_decided[OF sample_decided, of 3 "''/v.sock''"] by (auto simp: sample_decision simp del: add_0)
  from connect_sockets[OF c] c show ?thesis by simp
qed

text \<open>
  C21. No guest byte is lost. The returned socket was connected before the deadline, and the bytes taken
  from it are exactly one acceptable reply, of at most 256 bytes and with no line feed before its last
  byte: what the guest sends after the handshake line is still to be read.
\<close>

theorem connect_no_overread:
  assumes "connect_guest_port fuel env now path port timeout = Some (Inr (k, rest), calls)"
  shows "\<exists>reply. at_conn (env k) = Accepted (map Byte reply @ rest) \<and> reply_ok reply \<and> length reply \<le> 256 \<and>
    CHR 0x0A \<notin> set (butlast reply) \<and> at_now (env k) < now + timeout"
proof -
  have o: "at_now (env k) < now + timeout" "attempt_outcome port (env k) = Connected rest"
    using connect_loop_result[OF assms[unfolded connect_guest_port_def]] by blast+
  then obtain evs reply where e: "at_conn (env k) = Accepted evs"
      "recv_loop 256 evs [] = (Inr reply, rest)" "reply_ok reply"
    by (auto simp: attempt_outcome_def recv_handshake_line_def split: conn.splits prod.splits sum.splits if_splits)
  from recv_loop_line[OF e(2)] e o(1) show ?thesis by auto
qed

theorem connect_no_overread_witness:
  "\<exists>reply. at_conn (sample_attempts 2) = Accepted (map Byte reply @ [Byte (CHR ''h'')]) \<and> reply_ok reply"
proof -
  obtain calls where c: "connect_guest_port 3 sample_attempts 0 ''/v.sock'' 10000 2 =
      Some (Inr (2, [Byte (CHR ''h'')]), calls)"
    using connect_decided[OF sample_decided, of 3 "''/v.sock''"] by (auto simp: sample_decision simp del: add_0)
  from connect_no_overread[OF c] show ?thesis by blast
qed

end
