(* ===== verification/SessionRuns.thy ===== *)
theory SessionRuns
  imports Sessions
begin

text \<open>
  The operations of the hub against the threads of a session. The functions of theory Hub, which run
  an operation without interruption, are runs of the step relation; every thread that has not ended can
  take a step; and a broadcast that has begun ends after a bounded number of the reader's own steps.
\<close>

section \<open>Runs\<close>

lemma at_sock_same [simp]: "at_sock s (deliver []) h = h"
  by (cases h) (simp add: at_sock_def deliver_def)

abbreviation at_reader :: "world \<Rightarrow> hub \<Rightarrow> reader_pc \<Rightarrow> world" where
  "at_reader w h r \<equiv> w\<lparr> w_reader := r, w_hub := h \<rparr>"

lemma at_reader_swap: "w\<lparr> w_hub := h, w_reader := r \<rparr> = at_reader w h r"
  by simp

lemma at_reader_same: "at_reader w (w_hub w) (w_reader w) = w"
  by simp

lemma run_deliver:
  assumes "w_reader w = RSend b c (u @ v) cs"
  shows "reachable w (at_reader w (at_sock c (deliver u) (w_hub w)) (RSend b c v cs))"
proof (cases u)
  case Nil
  then have "at_reader w (at_sock c (deliver u) (w_hub w)) (RSend b c v cs) = w"
    using assms by (cases w) simp
  then show ?thesis by (simp add: reachable_here)
next
  case (Cons x u')
  have "step w (in_hub (at_sock c (deliver u)) (w\<lparr> w_reader := RSend b c v cs \<rparr>))"
    by (rule reader_sends) (use assms Cons in simp_all)
  then show ?thesis by (intro reachable_one) (simp add: in_hub_def)
qed

lemma run_remove:
  assumes "w_reader w = RUnlink b c cs"
  shows "reachable w (at_reader w (remove_client c (w_hub w)) (RIter b cs))"
proof -
  have "reachable w (in_hub (unlink_client c) (w\<lparr> w_reader := RShut b c cs \<rparr>))" (is "reachable w ?w")
    by (intro reachable_one reader_unlinks) (rule assms)
  also have "step ?w (in_hub (shut c) (?w\<lparr> w_reader := RIter b cs \<rparr>))"
    by (rule reader_shuts) (simp add: in_hub_def)
  finally show ?thesis by (simp add: in_hub_def remove_client_def)
qed

definition after_send :: "bytes \<Rightarrow> sock \<Rightarrow> hub \<Rightarrow> hub" where
  \<comment> \<open>one round of the loop of \<open>broadcast_from_guest\<close>\<close>
  "after_send b c h = (if accepts_all b (h_socks h c) then snd (sendall b c h) else remove_client c (snd (sendall b c h)))"

lemma run_client:
  assumes "w_reader w = RIter b (c # cs)" "b \<noteq> []"
  shows "reachable w (at_reader w (after_send b c (w_hub w)) (RIter b cs))"
proof (cases "closed w c")
  case True
  then have "reachable w (w\<lparr> w_reader := RUnlink b c cs \<rparr>)" (is "reachable w ?w")
    by (intro reachable_one reader_next_closed) (rule assms(1))
  also have "reachable ?w (at_reader ?w (remove_client c (w_hub ?w)) (RIter b cs))" by (rule run_remove) simp
  finally (reachable_trans) show ?thesis
    using True by (simp add: after_send_def accepts_all_def sendall_def closed_def)
next
  case False
  let ?room = "sk_room (h_socks (w_hub w) c)"
  have start: "reachable w (w\<lparr> w_reader := RSend b c (take ?room b @ drop ?room b) cs \<rparr>)" (is "reachable w ?w")
    using reachable_one[OF reader_next[OF assms(1) False]] by simp
  have sent: "reachable ?w (at_reader ?w (at_sock c (deliver (take ?room b)) (w_hub ?w)) (RSend b c (drop ?room b) cs))"
    (is "reachable ?w ?v") by (rule run_deliver) simp
  show ?thesis
  proof (cases "length b \<le> ?room")
    case True
    have "step ?v (?v\<lparr> w_reader := RIter b cs \<rparr>)" by (rule reader_sent[of _ b c]) (use True in simp)
    with reachable_step[OF reachable_trans[OF start sent] this] True False show ?thesis
      by (simp add: at_reader_swap after_send_def accepts_all_def sendall_def closed_def)
  next
    case short: False
    have "step ?v (?v\<lparr> w_reader := RUnlink b c cs \<rparr>)" (is "step ?v ?u")
      by (rule reader_send_fails[of _ b c "drop ?room b"]) (use short in simp_all)
    moreover have "reachable ?u (at_reader ?u (remove_client c (w_hub ?u)) (RIter b cs))" by (rule run_remove) simp
    ultimately have "reachable w (at_reader ?u (remove_client c (w_hub ?u)) (RIter b cs))"
      using start sent by (meson reachable_trans reachable_step)
    with short False show ?thesis
      by (simp add: after_send_def accepts_all_def sendall_def closed_def)
  qed
qed

lemma send_clients_after: "send_clients b (c # cs) h = send_clients b cs (after_send b c h)"
  by (simp only: send_clients_Cons after_send_def)

lemma run_clients: "w_reader w = RIter b cs \<Longrightarrow> b \<noteq> [] \<Longrightarrow>
    reachable w (at_reader w (send_clients b cs (w_hub w)) RTop)"
proof (induction cs arbitrary: w)
  case Nil
  then have "step w (w\<lparr> w_reader := RTop \<rparr>)" by (intro reader_all_sent)
  then show ?case using reachable_one by simp
next
  case (Cons c cs)
  let ?w = "at_reader w (after_send b c (w_hub w)) (RIter b cs)"
  have "reachable w ?w" by (rule run_client) (rule Cons.prems)+
  moreover have "reachable ?w (at_reader ?w (send_clients b cs (w_hub ?w)) RTop)"
    by (rule Cons.IH) (simp_all add: Cons.prems)
  ultimately show ?case by (auto dest: reachable_trans simp: send_clients_after simp del: send_clients.simps(2))
qed

lemma run_broadcast:
  assumes "w_reader w = RRecord b" "b \<noteq> []" "number_text now"
  shows "reachable w (w\<lparr> w_log := w_log w @ [(w_stdio w, (now, GUEST_TO_HOST, b))], w_reader := RTop,
    w_hub := broadcast_from_guest now b (w_hub w) \<rparr>)"
proof -
  let ?v = "logging (w_stdio w) now GUEST_TO_HOST b (w\<lparr> w_reader := RSnap b \<rparr>)"
  let ?u = "?v\<lparr> w_reader := RIter b (w_clients ?v) \<rparr>"
  have "reachable w ?v" by (intro reachable_one reader_records) (rule assms)+
  also have "step ?v ?u" by (rule reader_snapshot) (simp add: world_simps)
  finally have "reachable w ?u" .
  moreover have "reachable ?u (at_reader ?u (send_clients b (w_clients ?v) (w_hub ?u)) RTop)"
    by (rule run_clients) (simp_all add: assms)
  ultimately have "reachable w (at_reader ?u (send_clients b (w_clients ?v) (w_hub ?u)) RTop)"
    by (rule reachable_trans)
  then show ?thesis
    by (simp add: logging_def in_hub_def broadcast_from_guest_def Let_def)
qed

section \<open>Pumps\<close>

lemma run_forward:
  assumes "w_pumps w c = PRecord b" "b \<noteq> []" "number_text now" "c \<noteq> w_stdio w"
  defines "h \<equiv> snd (forward_to_guest now b (w_hub w))"
  shows "\<exists>w'. reachable w w' \<and> w_hub w' = h \<and> w_log w' = w_log w @ [(c, (now, HOST_TO_GUEST, b))] \<and>
    w_pumps w' = (w_pumps w)(c := if fst (forward_to_guest now b (w_hub w)) then PTop else PUnlink)"
proof -
  let ?v = "logging c now HOST_TO_GUEST b (pump_at c (PForward b) w)"
  let ?stdio = "h_socks (w_hub w) (w_stdio w)"
  have v: "reachable w ?v" by (intro reachable_one pump_records) (rule assms)+
  have pv: "w_pumps ?v c = PForward b" "w_stdio ?v = w_stdio w" "h_socks (w_hub ?v) = h_socks (w_hub w)"
    "w_hub ?v = hub_record now HOST_TO_GUEST b (w_hub w)" by (simp_all add: world_simps hub_simps)
  have fw: "forward_to_guest now b (w_hub w) = sendall b (w_stdio w) (w_hub ?v)"
    by (simp add: forward_to_guest_def Let_def world_simps hub_simps)
  show ?thesis
  proof (cases "closed ?v (w_stdio ?v)")
    case True
    then have "step ?v (pump_at c PUnlink ?v)" by (intro pump_forward_closed) (rule pv(1))
    moreover have "sendall b (w_stdio w) (w_hub ?v) = (False, w_hub ?v)"
      using True by (simp add: sendall_def closed_def world_simps hub_simps)
    ultimately show ?thesis
      using reachable_step[OF v] unfolding h_def fw by (intro exI[of _ "pump_at c PUnlink ?v"]) (simp add: world_simps)
  next
    case False
    let ?room = "sk_room ?stdio"
    let ?u = "pump_at c (PSend (take ?room b @ drop ?room b)) ?v"
    have u: "reachable w ?u"
      using reachable_step[OF v pump_forwards[OF pv(1) False]] by simp
    let ?t = "in_hub (at_sock (w_stdio ?u) (deliver (take ?room b)))
      (pump_at c (PSend (drop ?room b)) (?u\<lparr> w_pieces := w_pieces ?u @ [(c, take ?room b)] \<rparr>))"
    have "\<exists>t. reachable w t \<and> w_hub t = at_sock (w_stdio w) (deliver (take ?room b)) (w_hub ?v) \<and>
        w_log t = w_log ?v \<and> w_pumps t = (w_pumps w)(c := PSend (drop ?room b))"
    proof (cases "take ?room b = []")
      case True
      then show ?thesis using u by (intro exI[of _ ?u]) (auto simp: world_simps)
    next
      case False
      have "step ?u ?t" by (rule pump_sends) (use False in \<open>simp_all add: world_simps\<close>)
      then show ?thesis using reachable_step[OF u] by (intro exI[of _ ?t]) (auto simp: world_simps hub_simps)
    qed
    then obtain t where t: "reachable w t" "w_hub t = at_sock (w_stdio w) (deliver (take ?room b)) (w_hub ?v)"
      "w_log t = w_log ?v" "w_pumps t = (w_pumps w)(c := PSend (drop ?room b))" by blast
    show ?thesis
    proof (cases "length b \<le> ?room")
      case True
      have "step t (pump_at c PTop t)" by (rule pump_sent) (use t(4) True in simp)
      moreover have "sendall b (w_stdio w) (w_hub ?v) = (True, w_hub t)"
        using False True by (simp add: sendall_def closed_def t(2) world_simps hub_simps)
      ultimately show ?thesis
        using reachable_step[OF t(1)] t unfolding h_def fw by (intro exI[of _ "pump_at c PTop t"]) (simp add: world_simps)
    next
      case short: False
      have "step t (pump_at c PUnlink t)" by (rule pump_send_fails[of _ _ "drop ?room b"]) (use t(4) short in simp_all)
      moreover have "sendall b (w_stdio w) (w_hub ?v) = (False, w_hub t)"
        using False short by (simp add: sendall_def closed_def t(2) world_simps hub_simps)
      ultimately show ?thesis
        using reachable_step[OF t(1)] t unfolding h_def fw by (intro exI[of _ "pump_at c PUnlink t"]) (simp add: world_simps)
    qed
  qed
qed

lemma run_leave:
  assumes "w_pumps w c = PUnlink"
  shows "reachable w (in_hub (remove_client c) (pump_at c PDone w))"
proof -
  have "reachable w (in_hub (unlink_client c) (pump_at c PShut w))" (is "reachable w ?v")
    by (intro reachable_one pump_unlinks) (rule assms)
  also have "step ?v (in_hub (shut c) (pump_at c PDone ?v))" by (rule pump_shuts) (simp add: world_simps)
  finally show ?thesis by (simp add: in_hub_def pump_at_def remove_client_def)
qed

section \<open>Progress\<close>

text \<open>
  \<open>reader_work\<close> bounds the reader's own steps until the chunk it is sending has gone to every client of
  its snapshot; it is 0 outside the loop.
\<close>

fun reader_work :: "reader_pc \<Rightarrow> nat" where
  "reader_work (RIter b cs) = 1 + length cs * (length b + 5)"
| "reader_work (RSend b c v cs) = 5 + length v + length cs * (length b + 5)"
| "reader_work (RUnlink b c cs) = 3 + length cs * (length b + 5)"
| "reader_work (RShut b c cs) = 2 + length cs * (length b + 5)"
| "reader_work _ = 0"

lemma reader_work_decreases:
  "step w w' \<Longrightarrow> 0 < reader_work (w_reader w) \<Longrightarrow>
    w_reader w' = w_reader w \<or> reader_work (w_reader w') < reader_work (w_reader w)"
  by (induction rule: step.induct) (simp_all add: world_simps)

lemma reader_can_step:
  assumes "w_reader w \<noteq> RNone" "w_reader w \<noteq> RDone"
  shows "\<exists>w'. step w w' \<and> w_reader w' \<noteq> w_reader w"
proof (cases "w_reader w")
  case RTop
  then show ?thesis
    using reader_stops[of w] reader_enters[of w]
    by (cases "w_stop w \<or> closed w (w_stdio w)") (force simp: world_simps)+
next
  case RRecv
  then show ?thesis using reader_ends[of w] by (force simp: world_simps)
next
  case (RRecord b)
  have "number_text ''1''" by code_simp
  with reader_records[OF RRecord] show ?thesis using RRecord by (force simp: world_simps)
next
  case (RSnap b)
  then show ?thesis using reader_snapshot[OF RSnap] by (force simp: world_simps)
next
  case (RIter b cs)
  then show ?thesis
    using reader_all_sent[of w b] reader_next[of w b "hd cs" "tl cs"] reader_next_closed[of w b "hd cs" "tl cs"]
    by (cases cs; cases "closed w (hd cs)") (force simp: world_simps)+
next
  case (RSend b c v cs)
  then show ?thesis
    using reader_sent[of w b c cs] reader_send_fails[of w b c v cs] by (cases "v = []") (force simp: world_simps)+
next
  case (RUnlink b c cs)
  then show ?thesis using reader_unlinks[OF RUnlink] by (force simp: world_simps)
next
  case (RShut b c cs)
  then show ?thesis using reader_shuts[OF RShut] by (force simp: world_simps)
qed (use assms in simp_all)

lemma pump_can_step:
  assumes "w_pumps w c \<noteq> PNone" "w_pumps w c \<noteq> PDone"
  shows "\<exists>w'. step w w' \<and> w_pumps w' c \<noteq> w_pumps w c"
proof (cases "w_pumps w c")
  case PTop
  then show ?thesis
    using pump_enters[of w c] pump_closed[of w c] by (cases "closed w c") (force simp: world_simps)+
next
  case PRecv
  then show ?thesis using pump_ends[of w c] by (force simp: world_simps)
next
  case (PRecord b)
  have "number_text ''1''" by code_simp
  with pump_records[OF PRecord] show ?thesis using PRecord by (force simp: world_simps)
next
  case (PForward b)
  then show ?thesis
    using pump_forwards[OF PForward] pump_forward_closed[OF PForward]
    by (cases "closed w (w_stdio w)") (force simp: world_simps)+
next
  case (PSend v)
  then show ?thesis
    using pump_sent[of w c] pump_send_fails[of w c v] by (cases "v = []") (force simp: world_simps)+
next
  case PUnlink
  then show ?thesis using pump_unlinks[of w c] by (force simp: world_simps)
next
  case PShut
  then show ?thesis using pump_shuts[of w c] by (force simp: world_simps)
qed (use assms in simp_all)

lemma accept_can_step:
  assumes "w_accept w \<noteq> ANone" "w_accept w \<noteq> ADone"
  shows "\<exists>w'. step w w' \<and> w_accept w' \<noteq> w_accept w"
proof (cases "w_accept w")
  case ATop
  then show ?thesis
    using accept_enters[of w] accept_closed[of w] by (cases "w_listener w = Listening") (force simp: world_simps)+
next
  case AAccept
  then show ?thesis using accept_fails[of w] by (force simp: world_simps)
next
  case (AAdd c)
  then show ?thesis using accept_adds[OF AAdd] by (force simp: world_simps)
next
  case (ASpawn c)
  then show ?thesis using accept_spawns[OF ASpawn] by (force simp: world_simps)
qed (use assms in simp_all)

section \<open>Closing twice\<close>

definition closing :: "world \<Rightarrow> world" where
  \<comment> \<open>the three actions of \<open>close\<close>, one after the other\<close>
  "closing w =
     (let w1 = w\<lparr> w_stop := True \<rparr>;
          w2 = in_hub (shut (w_stdio w1)) w1
      in w2\<lparr> w_listener := if w_listener w2 = NoListener then NoListener else ListenerClosed \<rparr>)"

interpretation listener_shut: invariant_system step "\<lambda>w. w_main w = MClosed \<longrightarrow> w_listener w \<noteq> Listening"
proof unfold_locales
  fix w w'
  show "step w w' \<Longrightarrow> w_main w = MClosed \<longrightarrow> w_listener w \<noteq> Listening \<Longrightarrow>
      w_main w' = MClosed \<longrightarrow> w_listener w' \<noteq> Listening"
    by (induction rule: step.induct) (auto simp: world_simps)
qed

lemma run_closing:
  assumes "w_main w = MReady"
  shows "reachable w (closing w\<lparr> w_main := MClosed \<rparr>)"
proof -
  let ?u = "w\<lparr> w_main := MStopSet, w_stop := True \<rparr>"
  let ?v = "in_hub (shut (w_stdio ?u)) (?u\<lparr> w_main := MStdioClosed \<rparr>)"
  have "step w ?u" using assms by (intro close_stop) simp
  moreover have "step ?u ?v" by (rule close_stdio) simp
  moreover have "step ?v (?v\<lparr> w_main := MClosed, w_listener := if w_listener ?v = NoListener then NoListener else ListenerClosed \<rparr>)"
    by (rule close_listener) (simp add: world_simps)
  ultimately have "reachable w (?v\<lparr> w_main := MClosed, w_listener := if w_listener ?v = NoListener then NoListener else ListenerClosed \<rparr>)"
    by (meson reachable_one reachable_step)
  moreover have swap: "v\<lparr> w_main := MClosed, w_listener := l \<rparr> = v\<lparr> w_listener := l, w_main := MClosed \<rparr>" for v :: world and l
    by simp
  ultimately show ?thesis by (simp add: closing_def Let_def in_hub_def swap split del: if_split)
qed

lemma close_again:
  assumes "session_manager fuel env now uds timeout file sid = Some (Inr (w0, rest))" "reachable w0 w" "w_main w = MClosed"
  shows "closing w = w"
proof -
  have "main_ok w" using session_reachable(1)[OF assms(1,2)] by (simp add: ids_ok_def)
  then have stop: "w_stop w" and stdio: "sk_closed (h_socks (w_hub w) (w_stdio w))"
    using assms(3) by (auto simp: main_ok_def closed_def)
  have "w_main w0 = MNew"
    using assms(1) by (auto simp: session_manager_def new_session_def split: option.splits sum.splits)
  then have "w_listener w \<noteq> Listening" using listener_shut.invariant[OF assms(2)] assms(3) by simp
  then have listener: "(if w_listener w = NoListener then NoListener else ListenerClosed) = w_listener w"
    by (cases "w_listener w") simp_all
  have "shut (w_stdio w) (w_hub w) = w_hub w"
    using stdio by (cases "w_hub w") (simp add: shut_def at_sock_def fun_upd_idem_iff)
  with stop listener show ?thesis by (simp add: closing_def in_hub_def Let_def)
qed

section \<open>Properties\<close>

text \<open>
  The operations are runs of the threads. From a state in which the reader has received a chunk,
  the threads can reach the state \<open>broadcast_from_guest\<close> describes; from one in which a client's pump
  has received a chunk, the state \<open>forward_to_guest\<close> describes, with the pump receiving again or
  about to leave as the call succeeds or raises; and a leaving pump reaches the state
  \<open>remove_client\<close> describes.
\<close>

lemma operations_are_runs:
  assumes "b \<noteq> []" "number_text now" "c \<noteq> w_stdio w"
  shows "(w_reader w = RRecord b \<longrightarrow>
      (\<exists>w'. reachable w w' \<and> w_hub w' = broadcast_from_guest now b (w_hub w) \<and> w_reader w' = RTop \<and>
        w_log w' = w_log w @ [(w_stdio w, (now, GUEST_TO_HOST, b))])) \<and>
    (w_pumps w c = PRecord b \<longrightarrow>
      (\<exists>w'. reachable w w' \<and> w_hub w' = snd (forward_to_guest now b (w_hub w)) \<and>
        w_log w' = w_log w @ [(c, (now, HOST_TO_GUEST, b))] \<and>
        w_pumps w' c = (if fst (forward_to_guest now b (w_hub w)) then PTop else PUnlink))) \<and>
    (w_pumps w c = PUnlink \<longrightarrow>
      (\<exists>w'. reachable w w' \<and> w_hub w' = remove_client c (w_hub w) \<and> w_pumps w' c = PDone))"
proof (intro conjI impI)
  assume "w_reader w = RRecord b"
  from run_broadcast[OF this assms(1,2)]
  show "\<exists>w'. reachable w w' \<and> w_hub w' = broadcast_from_guest now b (w_hub w) \<and> w_reader w' = RTop \<and>
      w_log w' = w_log w @ [(w_stdio w, (now, GUEST_TO_HOST, b))]"
    by (intro exI conjI) (assumption, simp_all)
next
  assume "w_pumps w c = PRecord b"
  from run_forward[OF this assms]
  show "\<exists>w'. reachable w w' \<and> w_hub w' = snd (forward_to_guest now b (w_hub w)) \<and>
      w_log w' = w_log w @ [(c, (now, HOST_TO_GUEST, b))] \<and>
      w_pumps w' c = (if fst (forward_to_guest now b (w_hub w)) then PTop else PUnlink)"
    by auto
next
  assume "w_pumps w c = PUnlink"
  from run_leave[OF this]
  show "\<exists>w'. reachable w w' \<and> w_hub w' = remove_client c (w_hub w) \<and> w_pumps w' c = PDone"
    by (intro exI conjI) (assumption, simp_all add: world_simps)
qed

end
