(* ===== verification/Unicode.thy ===== *)
theory Unicode
  imports Base64
begin

text \<open>
  UTF-8 and percent-encoding as firecracker.py uses them. \<open>utf8_decode\<close> is decoding with
  \<open>errors="replace"\<close>: code points are natural numbers, and every maximal invalid part of a sequence
  becomes U+FFFD. A byte below 0x80 always stands for itself, so ASCII text survives whatever
  surrounds it. \<open>quote\<close> is \<open>urllib.parse.quote\<close> with an empty \<open>safe\<close>; a decoder gives the text back.
\<close>

section \<open>UTF-8\<close>

type_synonym ucs = "nat list"

definition trail :: "nat \<times> nat" where "trail = (0x80, 0xBF)"

definition lead_ranges :: "nat \<Rightarrow> (nat \<times> nat) list option" where
  \<comment> \<open>what may follow a first byte; \<open>None\<close>: it cannot be a first byte\<close>
  "lead_ranges b =
     (if b < 0x80 then Some []
      else if b < 0xC2 then None
      else if b < 0xE0 then Some [trail]
      else if b = 0xE0 then Some [(0xA0, 0xBF), trail]
      else if b = 0xED then Some [(0x80, 0x9F), trail]
      else if b < 0xF0 then Some [trail, trail]
      else if b = 0xF0 then Some [(0x90, 0xBF), trail, trail]
      else if b < 0xF4 then Some [trail, trail, trail]
      else if b = 0xF4 then Some [(0x80, 0x8F), trail, trail]
      else None)"

fun matched :: "(nat \<times> nat) list \<Rightarrow> bytes \<Rightarrow> nat" where
  "matched ((lo, hi) # rs) (c # s) = (if lo \<le> byte c \<and> byte c \<le> hi then Suc (matched rs s) else 0)"
| "matched _ _ = 0"

definition lead_bits :: "nat \<Rightarrow> nat" where
  "lead_bits b = (if b < 0x80 then b else if b < 0xE0 then b mod 32 else if b < 0xF0 then b mod 16 else b mod 8)"

definition code_point :: "nat \<Rightarrow> bytes \<Rightarrow> nat" where
  "code_point b s = foldl (\<lambda>n c. n * 64 + byte c mod 64) (lead_bits b) s"

definition scan :: "nat \<Rightarrow> bytes \<Rightarrow> nat \<times> nat" where
  \<comment> \<open>the code point, and how many of the following bytes belong to it\<close>
  "scan b s =
     (case lead_ranges b of
        None \<Rightarrow> (0xFFFD, 0)
      | Some rs \<Rightarrow>
          let k = matched rs s in (if k = length rs then code_point b (take k s) else 0xFFFD, k))"

function utf8_decode :: "bytes \<Rightarrow> ucs" where
  "utf8_decode [] = []"
| "utf8_decode (b # s) = (case scan (byte b) s of (p, k) \<Rightarrow> p # utf8_decode (drop k s))"
  by pat_completeness auto
termination by (relation "measure length") auto

definition utf8_encode :: "pystr \<Rightarrow> bytes" where
  \<comment> \<open>for code points below 256\<close>
  "utf8_encode s =
     concat (map (\<lambda>c. if byte c < 0x80 then [c] else [char_of (0xC0 + byte c div 64), char_of (0x80 + byte c mod 64)]) s)"

lemma lead_ranges_high: "lead_ranges b = Some rs \<Longrightarrow> (lo, hi) \<in> set rs \<Longrightarrow> 0x80 \<le> lo"
  by (auto simp: lead_ranges_def trail_def split: if_splits)

lemma matched_stops:
  "byte a < 0x80 \<Longrightarrow> (\<And>lo hi. (lo, hi) \<in> set rs \<Longrightarrow> 0x80 \<le> lo) \<Longrightarrow> matched rs (u @ a # v) = matched rs u"
proof (induction u arbitrary: rs)
  case Nil
  show ?case
  proof (cases rs)
    case (Cons r rs')
    then have "0x80 \<le> fst r" using Nil(2)[of "fst r" "snd r"] by simp
    with Nil(1) Cons show ?thesis by (cases r) simp
  qed simp
next
  case step: (Cons c u)
  show ?case
  proof (cases rs)
    case (Cons r rs')
    have "matched rs' (u @ a # v) = matched rs' u"
      by (rule step.IH) (use step.prems Cons in auto)
    with Cons show ?thesis by (cases r) simp
  qed simp
qed

lemma matched_le: "matched rs s \<le> length s"
  by (induction rs s rule: matched.induct) auto

lemma scan_stops:
  assumes "byte a < 0x80"
  shows "scan b (u @ a # v) = scan b u"
proof (cases "lead_ranges b")
  case (Some rs)
  then have k: "matched rs (u @ a # v) = matched rs u"
    using matched_stops[OF assms] lead_ranges_high by blast
  have "take (matched rs u) (u @ a # v) = take (matched rs u) u"
    using matched_le[of rs u] by simp
  with Some k show ?thesis by (simp add: scan_def Let_def)
qed (simp add: scan_def)

lemma scan_le: "snd (scan b s) \<le> length s"
  using matched_le by (auto simp: scan_def Let_def split: option.splits)

lemma scan_ascii: "b < 0x80 \<Longrightarrow> scan b s = (b, 0)"
  by (cases s) (auto simp: scan_def lead_ranges_def code_point_def lead_bits_def)

lemma utf8_decode_resync:
  assumes "byte a < 0x80"
  shows "utf8_decode (u @ a # v) = utf8_decode u @ byte a # utf8_decode v"
proof (induction u rule: utf8_decode.induct)
  case 1
  show ?case using assms by (simp add: scan_ascii)
next
  case (2 b s)
  obtain p k where pk: "scan (byte b) s = (p, k)" by fastforce
  then have "k \<le> length s" using scan_le[of "byte b" s] by simp
  then have "drop k (s @ a # v) = drop k s @ a # v" by simp
  with 2 pk show ?case using scan_stops[OF assms, of "byte b" s v] by simp
qed

lemma utf8_decode_all_ascii: "list_all (\<lambda>a. byte a < 0x80) t \<Longrightarrow> utf8_decode t = map byte t"
  by (induction t) (simp_all add: scan_ascii)

lemma utf8_decode_ascii:
  assumes "list_all (\<lambda>a. byte a < 0x80) t" "t \<noteq> []"
  shows "utf8_decode (u @ t @ v) = utf8_decode u @ map byte t @ utf8_decode v"
proof -
  obtain t' a where t: "t = t' @ [a]" using assms(2) by (cases t rule: rev_cases) auto
  obtain b t'' where t2: "t = b # t''" using assms(2) by (cases t) auto
  have "utf8_decode (u @ t @ v) = utf8_decode (u @ t') @ byte a # utf8_decode v"
    using utf8_decode_resync[of a "u @ t'" v] assms(1) by (simp add: t)
  moreover have "utf8_decode (u @ t) = utf8_decode u @ map byte t"
    using utf8_decode_resync[of b u t''] utf8_decode_all_ascii[of t''] assms(1) by (simp add: t2)
  moreover have "utf8_decode (u @ t) = utf8_decode (u @ t') @ [byte a]"
    using utf8_decode_resync[of a "u @ t'" "[]"] assms(1) by (simp add: t)
  ultimately show ?thesis by simp
qed

lemma utf8_encode_simps [simp]:
  "utf8_encode [] = []"
  "utf8_encode (c # s) = (if byte c < 0x80 then [c] else [char_of (0xC0 + byte c div 64), char_of (0x80 + byte c mod 64)]) @ utf8_encode s"
  by (simp_all add: utf8_encode_def)

lemma byte_char_of: "n < 256 \<Longrightarrow> byte (char_of n) = n"
  by (simp add: byte_def of_char_of)

lemma scan_two:
  assumes "0x80 \<le> n" "n < 256" "byte d = 0x80 + n mod 64"
  shows "scan (0xC0 + n div 64) (d # s) = (n, 1)"
proof -
  have q: "n div 64 = 2 \<or> n div 64 = 3" using assms(1,2) by auto
  have n: "n = n div 64 * 64 + n mod 64" by simp
  have m: "(0x80 + n mod 64) mod 64 = n mod 64"
    using mod_mult_self3[of 2 64 n] by (simp add: mod_add_right_eq)
  have "lead_ranges (0xC0 + n div 64) = Some [trail]" using q by (auto simp: lead_ranges_def)
  moreover have "code_point (0xC0 + n div 64) [d] = n"
  proof -
    have "lead_bits (0xC0 + n div 64) = n div 64" using q by (auto simp: lead_bits_def)
    then have "code_point (0xC0 + n div 64) [d] = n div 64 * 64 + n mod 64"
      unfolding code_point_def by (simp only: foldl.simps assms(3) m)
    then show ?thesis by (simp only: n[symmetric])
  qed
  ultimately show ?thesis using assms(3) by (simp add: scan_def trail_def)
qed

lemma utf8_round_trip: "utf8_decode (utf8_encode s) = map byte s"
proof (induction s)
  case (Cons c s)
  show ?case
  proof (cases "byte c < 0x80")
    case False
    have "0xC0 + byte c div 64 < 256" using byte_pieces(3)[of c] by linarith
    moreover have "byte c mod 64 < 64" by simp
    then have "0x80 + byte c mod 64 < 256" by linarith
    ultimately have "byte (char_of (0xC0 + byte c div 64)) = 0xC0 + byte c div 64"
      "byte (char_of (0x80 + byte c mod 64)) = 0x80 + byte c mod 64"
      by (simp_all only: byte_char_of)
    with False Cons show ?thesis by (simp add: scan_two)
  qed (use Cons in \<open>simp add: scan_ascii\<close>)
qed simp

section \<open>Percent-encoding\<close>

definition unreserved :: "char \<Rightarrow> bool" where
  "unreserved c \<longleftrightarrow> between (CHR ''A'') (CHR ''Z'') c \<or> between (CHR ''a'') (CHR ''z'') c \<or>
     between (CHR ''0'') (CHR ''9'') c \<or> c \<in> {CHR ''_'', CHR ''.'', CHR ''-'', CHR ''~''}"

definition upper_hex :: "nat \<Rightarrow> char" where
  "upper_hex n = ''0123456789ABCDEF'' ! n"

definition upper_hex_value :: "char \<Rightarrow> nat" where
  "upper_hex_value c = position c ''0123456789ABCDEF''"

definition quote_byte :: "char \<Rightarrow> pystr" where
  "quote_byte c = (if unreserved c then [c] else [CHR ''%'', upper_hex (byte c div 16), upper_hex (byte c mod 16)])"

definition quote :: "pystr \<Rightarrow> pystr" where
  \<comment> \<open>\<open>urllib.parse.quote(s, safe="")\<close>\<close>
  "quote s = concat (map quote_byte (utf8_encode s))"

fun unquote_bytes :: "pystr \<Rightarrow> bytes" where
  "unquote_bytes (c # h # l # s) =
     (if c = CHR ''%'' then char_of (16 * upper_hex_value h + upper_hex_value l) # unquote_bytes s
      else c # unquote_bytes (h # l # s))"
| "unquote_bytes s = s"

lemma upper_hex_table: "list_all (\<lambda>n. upper_hex_value (upper_hex n) = n \<and> unreserved (upper_hex n)) [0..<16]"
  by code_simp

lemma upper_hex: "n < 16 \<Longrightarrow> upper_hex_value (upper_hex n) = n" "n < 16 \<Longrightarrow> unreserved (upper_hex n)"
  using upper_hex_table unfolding list_all_iff by auto

lemma unreserved_not_percent: "\<not> unreserved (CHR ''%'')" "\<not> unreserved (CHR ''/'')"
  by (simp_all add: unreserved_def between_def)

lemma unquote_plain: "c \<noteq> CHR ''%'' \<Longrightarrow> unquote_bytes (c # s) = c # unquote_bytes s"
  by (cases s; cases "tl s") auto

lemma unquote_quote_bytes: "unquote_bytes (concat (map quote_byte b)) = b"
proof (induction b)
  case (Cons c b)
  show ?case
  proof (cases "unreserved c")
    case True
    with unreserved_not_percent have "c \<noteq> CHR ''%''" by blast
    with True Cons show ?thesis by (simp add: quote_byte_def unquote_plain)
  next
    case False
    have "byte c div 16 < 16" "byte c mod 16 < 16" "16 * (byte c div 16) + byte c mod 16 = byte c"
      using byte_less[of c] by (simp_all add: byte_pieces)
    with False Cons show ?thesis by (simp add: quote_byte_def upper_hex)
  qed
qed simp

lemma quote_no_slash: "CHR ''/'' \<notin> set (quote s)"
proof -
  have "CHR ''/'' \<notin> set (quote_byte c)" for c
    using unreserved_not_percent(2) upper_hex(2)[of "byte c div 16"] upper_hex(2)[of "byte c mod 16"] byte_pieces[of c]
    by (auto simp: quote_byte_def)
  then show ?thesis by (auto simp: quote_def)
qed

end
