(* ===== verification/Polling.thy ===== *)
theory Polling
  imports Unicode Secrets Complex_Main
begin

text \<open>
  Waiting for the firecracker process (\<open>_poll_until\<close> and \<open>_console_log_text\<close> of firecracker.py). The
  environment gives for each round of the loop the monotonic clock, the exit code \<open>Popen.poll\<close>
  reports, and the content of the console log; the condition is a function of the round. The locale
  \<open>first_decision\<close> holds what is true of any loop that goes on until a round decides.
\<close>

section \<open>Loops that end with the first deciding round\<close>

locale first_decision =
  fixes loop :: "nat \<Rightarrow> nat \<Rightarrow> 'r option" and verdict :: "nat \<Rightarrow> 'r option"
  assumes loop_0: "loop 0 i = None"
    and loop_Suc: "loop (Suc fuel) i = (case verdict i of None \<Rightarrow> loop fuel (Suc i) | Some r \<Rightarrow> Some r)"
begin

lemma decides: "verdict (i + k) = Some r \<Longrightarrow> \<forall>j < k. verdict (i + j) = None \<Longrightarrow> k < fuel \<Longrightarrow> loop fuel i = Some r"
proof (induction k arbitrary: i fuel)
  case 0
  then show ?case by (cases fuel) (simp_all add: loop_Suc)
next
  case (Suc k)
  then obtain f where f: "fuel = Suc f" "k < f" by (cases fuel) auto
  have "verdict i = None" using Suc.prems(2) by (metis add.right_neutral zero_less_Suc)
  moreover have "\<forall>j < k. verdict (Suc i + j) = None" using Suc.prems(2) by auto
  ultimately show ?case using Suc.IH[of "Suc i" f] Suc.prems(1) f by (simp add: loop_Suc)
qed

lemma decided_by: "loop fuel i = Some r \<Longrightarrow> \<exists>k < fuel. verdict (i + k) = Some r \<and> (\<forall>j < k. verdict (i + j) = None)"
proof (induction fuel arbitrary: i)
  case (Suc fuel)
  show ?case
  proof (cases "verdict i")
    case None
    then obtain k where "k < fuel" "verdict (Suc i + k) = Some r" "\<forall>j < k. verdict (Suc i + j) = None"
      using Suc.IH[of "Suc i"] Suc.prems by (auto simp: loop_Suc)
    with None show ?thesis by (intro exI[of _ "Suc k"]) (auto simp: less_Suc_eq_0_disj)
  qed (use Suc.prems in \<open>auto simp: loop_Suc\<close>)
qed (simp add: loop_0)

lemma returns: "verdict (i + k) \<noteq> None \<Longrightarrow> k < fuel \<Longrightarrow> loop fuel i \<noteq> None"
proof (induction k arbitrary: i fuel)
  case 0
  then show ?case by (cases fuel) (auto simp: loop_Suc)
next
  case (Suc k)
  then show ?case by (cases fuel) (auto simp: loop_Suc split: option.split)
qed

end

section \<open>The console log\<close>

definition console_log_text :: "bytes option \<Rightarrow> ucs" where
  \<comment> \<open>\<open>None\<close>: the file does not exist. A newline in text mode is translated; doing this on the bytes is
    the same, since no UTF-8 sequence contains one\<close>
  "console_log_text file = (case file of None \<Rightarrow> [] | Some b \<Rightarrow> utf8_decode (universal_newlines b))"

section \<open>The loop\<close>

datatype fc_error =
    BootTimeout ucs rat
  | ApiError pystr int pystr \<comment> \<open>path, status code, text\<close>
  | ProcessExited int ucs
  | ApiSocketTimeout pystr
  | OSErr exn
  | RequestError pystr

record round =
  rd_now :: rat
  rd_exit :: "int option"
  rd_log :: "bytes option"

fun poll_until :: "nat \<Rightarrow> (nat \<Rightarrow> round) \<Rightarrow> bool \<Rightarrow> (nat \<Rightarrow> bool) \<Rightarrow> rat \<Rightarrow> fc_error \<Rightarrow> nat \<Rightarrow> (fc_error + unit) option" where
  \<comment> \<open>\<open>proc\<close>: \<open>self._process is not None\<close>; the fuel bounds the rounds\<close>
  "poll_until 0 env proc condition deadline timeout_error i = None"
| "poll_until (Suc fuel) env proc condition deadline timeout_error i =
     (if \<not> rd_now (env i) < deadline then Some (Inl timeout_error)
      else case (if proc then rd_exit (env i) else None) of
        Some exit_code \<Rightarrow> Some (Inl (ProcessExited exit_code (console_log_text (rd_log (env i)))))
      | None \<Rightarrow>
          if condition i then Some (Inr ())
          else poll_until fuel env proc condition deadline timeout_error (Suc i))"

definition poll_verdict :: "(nat \<Rightarrow> round) \<Rightarrow> bool \<Rightarrow> (nat \<Rightarrow> bool) \<Rightarrow> rat \<Rightarrow> fc_error \<Rightarrow> nat \<Rightarrow> (fc_error + unit) option" where
  "poll_verdict env proc condition deadline timeout_error i =
     (if deadline \<le> rd_now (env i) then Some (Inl timeout_error)
      else case (if proc then rd_exit (env i) else None) of
        Some exit_code \<Rightarrow> Some (Inl (ProcessExited exit_code (console_log_text (rd_log (env i)))))
      | None \<Rightarrow> if condition i then Some (Inr ()) else None)"

interpretation polling: first_decision "\<lambda>fuel. poll_until fuel env proc condition deadline err"
  "poll_verdict env proc condition deadline err" for env proc condition deadline err
  by unfold_locales (simp_all add: poll_verdict_def split: option.split)

definition wait_for_console_string ::
  "nat \<Rightarrow> (nat \<Rightarrow> round) \<Rightarrow> rat \<Rightarrow> bool \<Rightarrow> ucs \<Rightarrow> rat \<Rightarrow> (fc_error + unit) option" where
  \<comment> \<open>\<open>now\<close> is the clock when the call is made\<close>
  "wait_for_console_string fuel env now proc expected timeout =
     poll_until fuel env proc (\<lambda>i. sublist expected (console_log_text (rd_log (env i)))) (now + timeout)
       (BootTimeout expected timeout) 0"

definition wait_for_api_socket ::
  "nat \<Rightarrow> (nat \<Rightarrow> round) \<Rightarrow> (nat \<Rightarrow> bool) \<Rightarrow> rat \<Rightarrow> bool \<Rightarrow> pystr \<Rightarrow> rat \<Rightarrow> (fc_error + unit) option" where
  "wait_for_api_socket fuel env exists now proc api_socket timeout =
     poll_until fuel env proc exists (now + timeout) (ApiSocketTimeout api_socket) 0"

section \<open>Bounded waiting\<close>

definition paced :: "(nat \<Rightarrow> round) \<Rightarrow> rat \<Rightarrow> rat \<Rightarrow> bool" where
  \<comment> \<open>the clock never goes back before the call and each \<open>sleep\<close> takes at least the interval\<close>
  "paced env now interval \<longleftrightarrow> now \<le> rd_now (env 0) \<and> (\<forall>i. rd_now (env i) + interval \<le> rd_now (env (Suc i)))"

definition max_rounds :: "rat \<Rightarrow> rat \<Rightarrow> nat" where
  "max_rounds timeout interval = nat \<lceil>timeout / interval\<rceil>"

lemma paced_clock: "paced env now interval \<Longrightarrow> now + of_nat k * interval \<le> rd_now (env k)"
proof (induction k)
  case (Suc k)
  then have "rd_now (env k) + interval \<le> rd_now (env (Suc k))" by (simp add: paced_def)
  with Suc show ?case by (simp add: algebra_simps)
qed (simp add: paced_def)

lemma paced_decides:
  assumes "paced env now interval" "0 < interval"
  shows "poll_verdict env proc condition (now + timeout) err (max_rounds timeout interval) = Some (Inl err)"
proof -
  have "timeout / interval \<le> of_nat (max_rounds timeout interval)"
    by (simp add: max_rounds_def) (meson of_nat_ceiling order_trans order_refl)
  then have "timeout \<le> of_nat (max_rounds timeout interval) * interval"
    using assms(2) by (simp add: pos_divide_le_eq)
  with paced_clock[OF assms(1), of "max_rounds timeout interval"] show ?thesis
    by (simp add: poll_verdict_def)
qed

lemma poll_bounded:
  assumes "paced env now interval" "0 < interval" "max_rounds timeout interval < fuel"
  shows "\<exists>r. poll_until fuel env proc condition (now + timeout) err 0 = Some r"
  using polling.returns[of env proc condition "now + timeout" err 0 "max_rounds timeout interval" fuel]
    paced_decides[OF assms(1,2)] assms(3) by auto

section \<open>ASCII text in the log\<close>

lemma universal_newlines_cases:
  "universal_newlines (CHR 0x0D # CHR 0x0A # s) = CHR 0x0A # universal_newlines s"
  "\<not> prefix [CHR 0x0A] s \<Longrightarrow> universal_newlines (CHR 0x0D # s) = CHR 0x0A # universal_newlines s"
  "c \<noteq> CHR 0x0D \<Longrightarrow> universal_newlines (c # s) = c # universal_newlines s"
  by simp_all

lemma universal_newlines_split:
  assumes "\<not> prefix [CHR 0x0A] t"
  shows "universal_newlines (u @ t) = universal_newlines u @ universal_newlines t"
proof (induction u rule: length_induct)
  case (1 u)
  show ?case
  proof (cases u)
    case (Cons c s)
    with 1 have IH: "universal_newlines (s @ t) = universal_newlines s @ universal_newlines t" by simp
    consider "c \<noteq> CHR 0x0D" | "c = CHR 0x0D" "prefix [CHR 0x0A] s" | "c = CHR 0x0D" "\<not> prefix [CHR 0x0A] s" by blast
    then show ?thesis
    proof cases
      case 1
      with IH Cons show ?thesis by (simp add: universal_newlines_cases del: universal_newlines.simps(2))
    next
      case 2
      then obtain s' where s: "s = CHR 0x0A # s'" by (auto simp: prefix_def)
      with 1 Cons have "universal_newlines (s' @ t) = universal_newlines s' @ universal_newlines t" by simp
      with 2 s Cons show ?thesis by (simp add: universal_newlines_cases del: universal_newlines.simps(2))
    next
      case 3
      then have "\<not> prefix [CHR 0x0A] (s @ t)" using assms by (cases s) auto
      with 3 IH Cons show ?thesis by (simp add: universal_newlines_cases del: universal_newlines.simps(2))
    qed
  qed simp
qed

lemma universal_newlines_plain: "CHR 0x0D \<notin> set t \<Longrightarrow> universal_newlines (t @ v) = t @ universal_newlines v"
  by (induction t) auto

definition ascii_line :: "bytes \<Rightarrow> bool" where
  \<comment> \<open>a non-empty part of a line of ASCII text\<close>
  "ascii_line t \<longleftrightarrow> t \<noteq> [] \<and> list_all (\<lambda>c. byte c < 0x80 \<and> c \<noteq> CHR 0x0D \<and> c \<noteq> CHR 0x0A) t"

lemma console_log_contains:
  assumes "ascii_line t"
  shows "sublist (map byte t) (console_log_text (Some (u @ t @ v)))"
proof -
  have cr: "CHR 0x0D \<notin> set t" "CHR 0x0A \<notin> set t" "t \<noteq> []" "list_all (\<lambda>c. byte c < 0x80) t"
    using assms by (auto simp: ascii_line_def list_all_iff)
  then have "\<not> prefix [CHR 0x0A] (t @ v)" by (cases t) auto
  then have "universal_newlines (u @ t @ v) = universal_newlines u @ t @ universal_newlines v"
    using universal_newlines_plain[OF cr(1)] by (simp add: universal_newlines_split)
  then show ?thesis
    unfolding console_log_text_def option.case using utf8_decode_ascii[OF cr(4,3)] by (simp add: sublist_appendI)
qed

section \<open>Properties\<close>

definition undecided :: "(nat \<Rightarrow> round) \<Rightarrow> bool \<Rightarrow> (nat \<Rightarrow> bool) \<Rightarrow> rat \<Rightarrow> nat \<Rightarrow> bool" where
  \<comment> \<open>round \<open>j\<close> starts in time, the process (if there is one) runs, and the condition is false\<close>
  "undecided env proc condition deadline j \<longleftrightarrow>
     rd_now (env j) < deadline \<and> (proc \<longrightarrow> rd_exit (env j) = None) \<and> \<not> condition j"

text \<open>
  C22. The first round that decides. After rounds that leave it open, a round at or after the deadline
  raises the timeout error; one in time in which the process has exited raises at once, with the exit
  code and the console text, whether the condition holds or not; one in time with a running process
  and the condition returns.
\<close>

theorem poll_decision:
  assumes "\<forall>j < k. undecided env proc condition deadline j" "k < fuel"
  shows "(deadline \<le> rd_now (env k) \<longrightarrow>
      poll_until fuel env proc condition deadline err 0 = Some (Inl err)) \<and>
    (\<forall>code. rd_now (env k) < deadline \<and> proc \<and> rd_exit (env k) = Some code \<longrightarrow>
      poll_until fuel env proc condition deadline err 0 = Some (Inl (ProcessExited code (console_log_text (rd_log (env k)))))) \<and>
    (rd_now (env k) < deadline \<and> (proc \<longrightarrow> rd_exit (env k) = None) \<and> condition k \<longrightarrow>
      poll_until fuel env proc condition deadline err 0 = Some (Inr ()))"
proof -
  have open_rounds: "\<forall>j < k. poll_verdict env proc condition deadline err (0 + j) = None"
    using assms(1) by (auto simp: poll_verdict_def undecided_def)
  note decides = polling.decides[OF _ open_rounds assms(2)]
  show ?thesis by (intro conjI allI impI decides) (auto simp: poll_verdict_def)
qed

definition sample_round :: "nat \<Rightarrow> round" where
  "sample_round i = \<lparr> rd_now = of_nat i / 10, rd_exit = (if i < 3 then None else Some 1),
     rd_log = (if i = 0 then None else Some [CHR 0xFF, CHR ''o'', CHR ''k'', CHR 0x0D]) \<rparr>"

theorem poll_decision_witness:
  "poll_until 9 sample_round True (\<lambda>_. False) 1 (BootTimeout [] 1) 0 =
     Some (Inl (ProcessExited 1 [0xFFFD, 111, 107, 10]))"
proof -
  have "\<forall>j < 3. undecided sample_round True (\<lambda>_. False) 1 j"
    by (auto simp: undecided_def sample_round_def numeral_3_eq_3 less_Suc_eq)
  moreover have "rd_now (sample_round 3) < 1" "rd_exit (sample_round 3) = Some 1"
    by (simp_all add: sample_round_def)
  moreover have "console_log_text (rd_log (sample_round 3)) = [0xFFFD, 111, 107, 10]"
  proof -
    have "rd_log (sample_round 3) = Some [CHR 0xFF, CHR ''o'', CHR ''k'', CHR 0x0D]" by (simp add: sample_round_def)
    moreover have "universal_newlines [CHR 0xFF, CHR ''o'', CHR ''k'', CHR 0x0D] = [CHR 0xFF, CHR ''o'', CHR ''k'', CHR 0x0A]"
      by simp
    moreover have "scan 255 s = (0xFFFD, 0)" for s by (simp add: scan_def lead_ranges_def)
    ultimately have "console_log_text (Some [CHR 0xFF, CHR ''o'', CHR ''k'', CHR 0x0D]) = [0xFFFD, 111, 107, 10]"
      by (simp add: console_log_text_def byte_def scan_ascii)
    with \<open>rd_log (sample_round 3) = _\<close> show ?thesis by simp
  qed
  ultimately show ?thesis using poll_decision[of 3 sample_round True "\<lambda>_. False" 1 9] by simp
qed

text \<open>
  C23. Expected console text is found. If up to round \<open>k\<close> every round starts in time with the process
  running, and in round \<open>k\<close> the log holds the expected line of ASCII text anywhere, among any bytes
  (valid UTF-8 or not), waiting for it returns.
\<close>

theorem console_string_found:
  assumes "\<forall>j \<le> k. rd_now (env j) < now + timeout \<and> (proc \<longrightarrow> rd_exit (env j) = None)"
    and "rd_log (env k) = Some (u @ t @ v)" "ascii_line t" "k < fuel"
  shows "wait_for_console_string fuel env now proc (map byte t) timeout = Some (Inr ())"
proof -
  let ?cond = "\<lambda>i. sublist (map byte t) (console_log_text (rd_log (env i)))"
  let ?verdict = "poll_verdict env proc ?cond (now + timeout) (BootTimeout (map byte t) timeout)"
  have "?cond k" using console_log_contains[OF assms(3)] assms(2) by simp
  then have "\<exists>m. ?cond m" by blast
  define m where "m = (LEAST m. ?cond m)"
  have m: "?cond m" "m \<le> k" "\<And>j. j < m \<Longrightarrow> \<not> ?cond j"
    using \<open>?cond k\<close> unfolding m_def by (auto intro: LeastI Least_le dest: not_less_Least)
  have "?verdict (0 + m) = Some (Inr ())" using m(1,2) assms(1) by (auto simp: poll_verdict_def)
  moreover have "?verdict (0 + j) = None" if "j < m" for j
    using m(3)[OF that] assms(1)[rule_format, of j] m(2) that by (auto simp: poll_verdict_def)
  ultimately show ?thesis
    unfolding wait_for_console_string_def
    using polling.decides[of env proc ?cond "now + timeout" _ 0 m "Inr ()" fuel] m(2) assms(4) by simp
qed

theorem console_string_found_witness:
  "wait_for_console_string 5 sample_round 0 True [111, 107] 1 = Some (Inr ())"
proof -
  have "\<forall>j \<le> 2. rd_now (sample_round j) < 0 + 1 \<and> (True \<longrightarrow> rd_exit (sample_round j) = None)"
    by (auto simp: sample_round_def le_Suc_eq numeral_2_eq_2)
  moreover have "rd_log (sample_round 2) = Some ([CHR 0xFF] @ ''ok'' @ [CHR 0x0D])" by (simp add: sample_round_def)
  moreover have "ascii_line ''ok''" "map byte ''ok'' = [111, 107]" by code_simp+
  ultimately show ?thesis using console_string_found[of 2 sample_round 0 1 True "[CHR 0xFF]" "''ok''" _ 5] by simp
qed

text \<open>
  Waiting is bounded. With a clock that advances by at least the pause of 0.1 s between rounds,
  \<open>wait_for_console_string\<close> ends after at most \<open>\<lceil>10 * timeout\<rceil>\<close> further rounds, and
  \<open>_wait_for_api_socket\<close>, with its pause of 0.05 s, after twice as many.
\<close>

lemma waiting_is_bounded:
  assumes "paced env now (1 / 10)" "max_rounds timeout (1 / 10) < fuel"
    and "paced env' now' (1 / 20)" "max_rounds timeout' (1 / 20) < fuel'"
  shows "(\<exists>r. wait_for_console_string fuel env now proc expected timeout = Some r) \<and>
    (\<exists>r. wait_for_api_socket fuel' env' exists now' proc api_socket timeout' = Some r)"
  unfolding wait_for_console_string_def wait_for_api_socket_def
  using poll_bounded[OF assms(1) _ assms(2)] poll_bounded[OF assms(3) _ assms(4)] by simp

end
