(* ===== verification/Firecracker.thy ===== *)
theory Firecracker
  imports Polling
begin

text \<open>
  The microVM launcher (\<open>FirecrackerVM\<close> of firecracker.py). The fields of the dataclass are the record
  \<open>vm\<close>; a process is \<open>Spawned\<close> until a call on it has seen it end, and \<open>Reaped\<close> after. What an operation
  does to the outside is the list of its actions. The environment says which files exist, which of the
  calls into the operating system fail, what the rounds of the wait for the API socket see, how every
  request is answered, and whether the process is alive when the clean-up looks; whether a response is
  \<open>ok\<close> is what the requests package reports.
\<close>

section \<open>State\<close>

datatype proc = Spawned | Reaped

record vm =
  firecracker_binary :: pystr
  kernel_image :: pystr
  rootfs_image :: pystr
  api_socket :: pystr
  console_log :: pystr
  vcpu_count :: int
  mem_size_mib :: int
  kernel_args :: pystr
  vsock_uds_path :: "pystr option"
  vm_process :: "proc option"
  vm_console_open :: bool
  vm_session :: bool

definition new_vm :: "pystr \<Rightarrow> pystr \<Rightarrow> pystr \<Rightarrow> pystr \<Rightarrow> pystr \<Rightarrow> vm" where
  "new_vm binary linux rootfs api_sock console =
     \<lparr> firecracker_binary = binary, kernel_image = linux, rootfs_image = rootfs, api_socket = api_sock,
       console_log = console, vcpu_count = 1, mem_size_mib = 128,
       kernel_args = ''console=ttyS0 root=/dev/vda ro rootfstype=squashfs init=/init'',
       vsock_uds_path = None, vm_process = None, vm_console_open = False, vm_session = False \<rparr>"

datatype jval = JText pystr | JInt int | JBool bool

type_synonym body = "(pystr \<times> jval) list"

datatype call =
    Unlink pystr | MakeParent pystr | OpenAppend pystr | Spawn "pystr list" | Put pystr body
  | Terminate | WaitFor rat | Kill | WaitExit | CloseLog

datatype answer = Answer bool int pystr | NoAnswer pystr \<comment> \<open>ok, status code, text; or the exception\<close>

record start_env =
  se_exists :: "pystr \<Rightarrow> bool"
  se_unlink :: "pystr \<Rightarrow> exn option"
  se_mkdir :: "exn option"
  se_open :: "exn option"
  se_popen :: "exn option"
  se_now :: rat
  se_rounds :: "nat \<Rightarrow> round"
  se_socket :: "nat \<Rightarrow> bool"
  se_put :: "pystr \<Rightarrow> answer"
  se_alive :: bool

section \<open>Requests\<close>

definition VSOCK_GUEST_CID :: int where "VSOCK_GUEST_CID = 3"

definition api_url :: "vm \<Rightarrow> pystr \<Rightarrow> pystr" where
  "api_url m path = ''http+unix://'' @ quote (api_socket m) @ path"

definition put :: "start_env \<Rightarrow> vm \<Rightarrow> pystr \<Rightarrow> body \<Rightarrow> fc_error option \<times> call" where
  "put en m path b =
     (case se_put en path of
        NoAnswer x \<Rightarrow> Some (RequestError x)
      | Answer ok status txt \<Rightarrow> if \<not> ok then Some (ApiError path status txt) else None,
      Put (api_url m path) b)"

fun put_all :: "start_env \<Rightarrow> vm \<Rightarrow> (pystr \<times> body) list \<Rightarrow> fc_error option \<times> call list" where
  "put_all en m [] = (None, [])"
| "put_all en m ((path, b) # rs) =
     (case put en m path b of
        (Some e, a) \<Rightarrow> (Some e, [a])
      | (None, a) \<Rightarrow> (case put_all en m rs of (e, as) \<Rightarrow> (e, a # as)))"

definition config_requests :: "vm \<Rightarrow> (pystr \<times> body) list" where
  "config_requests m =
     [(''/boot-source'', [(''kernel_image_path'', JText (kernel_image m)), (''boot_args'', JText (kernel_args m))]),
      (''/drives/rootfs'',
        [(''drive_id'', JText ''rootfs''), (''path_on_host'', JText (rootfs_image m)),
         (''is_root_device'', JBool True), (''is_read_only'', JBool True)]),
      (''/machine-config'', [(''vcpu_count'', JInt (vcpu_count m)), (''mem_size_mib'', JInt (mem_size_mib m))])] @
     (case vsock_uds_path m of
        None \<Rightarrow> []
      | Some p \<Rightarrow> [(''/vsock'', [(''guest_cid'', JInt VSOCK_GUEST_CID), (''uds_path'', JText p)])])"

definition start_request :: "pystr \<times> body" where
  "start_request = (''/actions'', [(''action_type'', JText ''InstanceStart'')])"

definition boot_requests :: "vm \<Rightarrow> (pystr \<times> body) list" where
  "boot_requests m = config_requests m @ [start_request]"

section \<open>Operations\<close>

definition force_cleanup :: "bool \<Rightarrow> vm \<Rightarrow> vm \<times> call list" where
  "force_cleanup alive m =
     (let (m1, calls) =
        (if vm_process m = Some Spawned
         then (m\<lparr> vm_process := Some Reaped \<rparr>, if alive then [Kill, WaitExit] else [])
         else (m, []))
      in if vm_console_open m1 then (m1\<lparr> vm_console_open := False \<rparr>, calls @ [CloseLog]) else (m1, calls))"

definition unlink_existing :: "start_env \<Rightarrow> pystr option \<Rightarrow> fc_error option \<times> call list" where
  "unlink_existing en path =
     (case path of
        None \<Rightarrow> (None, [])
      | Some p \<Rightarrow> if se_exists en p then (map_option OSErr (se_unlink en p), [Unlink p]) else (None, []))"

definition api_gone :: "start_env \<Rightarrow> vm \<Rightarrow> start_env" where
  \<comment> \<open>what exists after the API socket was removed\<close>
  "api_gone en m = en\<lparr> se_exists := (se_exists en)(api_socket m := False) \<rparr>"

definition prepare :: "start_env \<Rightarrow> vm \<Rightarrow> fc_error option \<times> vm \<times> call list" where
  \<comment> \<open>\<open>start\<close> up to the \<open>try\<close>\<close>
  "prepare en m =
     (case unlink_existing en (Some (api_socket m)) of
        (Some e, a) \<Rightarrow> (Some e, m, a)
      | (None, a) \<Rightarrow>
          (case unlink_existing (api_gone en m) (vsock_uds_path m) of
             (Some e, b) \<Rightarrow> (Some e, m, a @ b)
           | (None, b) \<Rightarrow>
               (case se_mkdir en of
                  Some x \<Rightarrow> (Some (OSErr x), m, a @ b @ [MakeParent (console_log m)])
                | None \<Rightarrow>
                    (case se_open en of
                       Some x \<Rightarrow> (Some (OSErr x), m, a @ b @ [MakeParent (console_log m), OpenAppend (console_log m)])
                     | None \<Rightarrow>
                         let m1 = m\<lparr> vm_console_open := True \<rparr>;
                             calls = a @ b @ [MakeParent (console_log m), OpenAppend (console_log m),
                                       Spawn [firecracker_binary m, ''--api-sock'', api_socket m]]
                         in (case se_popen en of
                               Some x \<Rightarrow> (Some (OSErr x), m1, calls)
                             | None \<Rightarrow> (None, m1\<lparr> vm_process := Some Spawned \<rparr>, calls))))))"

definition boot :: "nat \<Rightarrow> start_env \<Rightarrow> vm \<Rightarrow> (fc_error option \<times> vm \<times> call list) option" where
  \<comment> \<open>the body of the \<open>try\<close>; a \<open>poll\<close> that reports an exit code has reaped the process\<close>
  "boot fuel en m =
     (case wait_for_api_socket fuel (se_rounds en) (se_socket en) (se_now en) (vm_process m \<noteq> None) (api_socket m) 5 of
        None \<Rightarrow> None
      | Some (Inl (ProcessExited code txt)) \<Rightarrow> Some (Some (ProcessExited code txt), m\<lparr> vm_process := Some Reaped \<rparr>, [])
      | Some (Inl e) \<Rightarrow> Some (Some e, m, [])
      | Some (Inr _) \<Rightarrow>
          (case put_all en m (boot_requests m) of (e, calls) \<Rightarrow> Some (e, m\<lparr> vm_session := True \<rparr>, calls)))"

definition start :: "nat \<Rightarrow> start_env \<Rightarrow> vm \<Rightarrow> (fc_error option \<times> vm \<times> call list) option" where
  "start fuel en m =
     (case prepare en m of
        (Some e, m1, calls) \<Rightarrow> Some (Some e, m1, calls)
      | (None, m1, calls) \<Rightarrow>
          (case boot fuel en m1 of
             None \<Rightarrow> None
           | Some (None, m2, calls2) \<Rightarrow> Some (None, m2, calls @ calls2)
           | Some (Some e, m2, calls2) \<Rightarrow>
               (case force_cleanup (se_alive en) m2 of (m3, calls3) \<Rightarrow> Some (Some e, m3, calls @ calls2 @ calls3))))"

definition is_running :: "bool \<Rightarrow> vm \<Rightarrow> bool" where
  \<comment> \<open>\<open>alive\<close>: a process not yet reaped is running\<close>
  "is_running alive m \<longleftrightarrow> vm_process m = Some Spawned \<and> alive"

definition stop :: "bool \<Rightarrow> bool \<Rightarrow> rat \<Rightarrow> vm \<Rightarrow> vm \<times> call list" where
  \<comment> \<open>\<open>ends\<close>: the process ends within the timeout after \<open>terminate\<close>\<close>
  "stop alive ends timeout m =
     (if vm_process m = None then (m, [])
      else
        let (m1, calls) =
          (if vm_process m = Some Spawned
           then (m\<lparr> vm_process := Some Reaped \<rparr>,
                 if alive then [Terminate, WaitFor timeout] @ (if ends then [] else [Kill, WaitExit]) else [])
           else (m, []))
        in if vm_console_open m1 then (m1\<lparr> vm_console_open := False \<rparr>, calls @ [CloseLog]) else (m1, calls))"

section \<open>Effect of the operations\<close>

lemma put_error: "fst (put en m p b) = (case se_put en p of NoAnswer x \<Rightarrow> Some (RequestError x)
    | Answer ok status txt \<Rightarrow> if ok then None else Some (ApiError p status txt))"
  by (simp add: put_def split: answer.split)

lemma put_call: "snd (put en m p b) = Put (api_url m p) b"
  by (simp add: put_def)

lemma put_all_Cons: "put_all en m ((p, b) # rs) =
    (case fst (put en m p b) of Some e \<Rightarrow> (Some e, [Put (api_url m p) b])
     | None \<Rightarrow> (fst (put_all en m rs), Put (api_url m p) b # snd (put_all en m rs)))"
  using put_call[of en m p b] by (auto split: prod.split option.split)

definition accepted :: "start_env \<Rightarrow> pystr \<Rightarrow> bool" where
  "accepted en p \<longleftrightarrow> (case se_put en p of Answer ok _ _ \<Rightarrow> ok | NoAnswer _ \<Rightarrow> False)"

lemma put_ok: "fst (put en m p b) = None \<longleftrightarrow> accepted en p"
  by (simp add: put_error accepted_def split: answer.split)

abbreviation sent_puts :: "vm \<Rightarrow> (pystr \<times> body) list \<Rightarrow> call list" where
  "sent_puts m rs \<equiv> map (\<lambda>(p, b). Put (api_url m p) b) rs"

lemma put_all_ok:
  "fst (put_all en m rs) = None \<longleftrightarrow> list_all (\<lambda>(p, b). accepted en p) rs"
  "fst (put_all en m rs) = None \<Longrightarrow> snd (put_all en m rs) = sent_puts m rs"
proof -
  have "(fst (put_all en m rs) = None \<longleftrightarrow> list_all (\<lambda>(p, b). accepted en p) rs) \<and>
      (fst (put_all en m rs) = None \<longrightarrow> snd (put_all en m rs) = sent_puts m rs)"
  proof (induction rs)
    case (Cons r rs)
    obtain p b where r: "r = (p, b)" by (cases r)
    show ?case
      using Cons put_ok[of en m p b] unfolding r put_all_Cons
      by (cases "fst (put en m p b)") (simp_all del: put_all.simps(2))
  qed simp
  then show "fst (put_all en m rs) = None \<longleftrightarrow> list_all (\<lambda>(p, b). accepted en p) rs"
    "fst (put_all en m rs) = None \<Longrightarrow> snd (put_all en m rs) = sent_puts m rs" by blast+
qed

lemma put_all_fails:
  "fst (put_all en m rs) = Some e \<Longrightarrow> \<exists>pre p b post. rs = pre @ (p, b) # post \<and>
     list_all (\<lambda>(p, b). accepted en p) pre \<and> fst (put en m p b) = Some e \<and>
     snd (put_all en m rs) = sent_puts m (pre @ [(p, b)])"
proof (induction rs)
  case (Cons r rs)
  obtain p b where r: "r = (p, b)" by (cases r)
  show ?case
  proof (cases "fst (put en m p b)")
    case (Some e')
    with Cons.prems show ?thesis
      unfolding r put_all_Cons by (intro exI[of _ "[]"] exI[of _ p] exI[of _ b] exI[of _ rs]) simp
  next
    case None
    with Cons.prems have "fst (put_all en m rs) = Some e" unfolding r put_all_Cons by simp
    from Cons.IH[OF this] obtain pre q c post where IH: "rs = pre @ (q, c) # post"
      "list_all (\<lambda>(p, b). accepted en p) pre" "fst (put en m q c) = Some e"
      "snd (put_all en m rs) = sent_puts m (pre @ [(q, c)])" by blast
    have "accepted en p" using None by (simp add: put_ok)
    then show ?thesis
      unfolding r put_all_Cons using None IH
      by (intro exI[of _ "(p, b) # pre"] exI[of _ q] exI[of _ c] exI[of _ post]) simp
  qed
qed simp

lemma api_url_update [simp]:
  "api_url (m\<lparr> vm_process := p \<rparr>) path = api_url m path" "api_url (m\<lparr> vm_console_open := c \<rparr>) path = api_url m path"
  "api_url (m\<lparr> vm_session := s \<rparr>) path = api_url m path"
  by (simp_all add: api_url_def)

lemma boot_requests_update [simp]:
  "boot_requests (m\<lparr> vm_process := p \<rparr>) = boot_requests m" "boot_requests (m\<lparr> vm_console_open := c \<rparr>) = boot_requests m"
  by (simp_all add: boot_requests_def config_requests_def)

lemma not_spawned: "p \<noteq> Some Spawned \<longleftrightarrow> p = None \<or> p = Some Reaped"
  by (cases p; cases "the p") auto

lemma force_cleanup_result:
  "vm_process (fst (force_cleanup alive m)) = (if vm_process m = None then None else Some Reaped)"
  "\<not> vm_console_open (fst (force_cleanup alive m))"
  "vm_console_open m \<Longrightarrow> \<exists>cs. snd (force_cleanup alive m) = cs @ [CloseLog] \<and> set cs \<subseteq> {Kill, WaitExit}"
  using not_spawned[of "vm_process m"] by (auto simp: force_cleanup_def Let_def)

definition stale_files :: "start_env \<Rightarrow> vm \<Rightarrow> pystr list" where
  "stale_files en m = filter (se_exists en) (api_socket m #
     (case vsock_uds_path m of None \<Rightarrow> [] | Some p \<Rightarrow> if p = api_socket m then [] else [p]))"

definition spawn_calls :: "start_env \<Rightarrow> vm \<Rightarrow> call list" where
  "spawn_calls en m = map Unlink (stale_files en m) @ [MakeParent (console_log m), OpenAppend (console_log m),
     Spawn [firecracker_binary m, ''--api-sock'', api_socket m]]"

lemma prepare_ok:
  assumes "prepare en m = (None, m1, calls)"
  shows "m1 = m\<lparr> vm_console_open := True, vm_process := Some Spawned \<rparr> \<and> calls = spawn_calls en m \<and> se_popen en = None"
  using assms
  by (auto simp: prepare_def unlink_existing_def api_gone_def spawn_calls_def stale_files_def Let_def
      split: option.splits if_splits prod.splits)

lemma unlink_calls: "snd (unlink_existing en path) =
    map Unlink (filter (se_exists en) (case path of None \<Rightarrow> [] | Some p \<Rightarrow> [p]))"
  by (simp add: unlink_existing_def split: option.split)

lemma prepare_fails:
  assumes "prepare en m = (Some e, m1, calls)"
  shows "m1 = m \<and> (\<forall>args. Spawn args \<notin> set calls) \<or>
    (\<exists>x. m1 = m\<lparr> vm_console_open := True \<rparr> \<and> se_popen en = Some x \<and> e = OSErr x \<and> calls = spawn_calls en m)"
proof -
  obtain e1 a where u1: "unlink_existing en (Some (api_socket m)) = (e1, a)" by fastforce
  obtain e2 b where u2: "unlink_existing (api_gone en m) (vsock_uds_path m) = (e2, b)" by fastforce
  have ab: "a = map Unlink (filter (se_exists en) [api_socket m])"
    "b = map Unlink (filter (se_exists (api_gone en m)) (case vsock_uds_path m of None \<Rightarrow> [] | Some p \<Rightarrow> [p]))"
    using unlink_calls[of en "Some (api_socket m)"] unlink_calls[of "api_gone en m" "vsock_uds_path m"] u1 u2 by simp_all
  have stale: "map Unlink (stale_files en m) = a @ b" by (simp add: stale_files_def ab api_gone_def split: option.split)
  have spawn: "a @ b @ [MakeParent (console_log m), OpenAppend (console_log m),
      Spawn [firecracker_binary m, ''--api-sock'', api_socket m]] = spawn_calls en m"
    by (simp add: spawn_calls_def stale)
  have none: "Spawn args \<notin> set a" "Spawn args \<notin> set b" for args unfolding ab by auto
  show ?thesis
  proof (cases "e1 = None \<and> e2 = None \<and> se_mkdir en = None \<and> se_open en = None")
    case True
    then have pre: "prepare en m =
        (let m1 = m\<lparr> vm_console_open := True \<rparr> in
         case se_popen en of Some x \<Rightarrow> (Some (OSErr x), m1, spawn_calls en m)
         | None \<Rightarrow> (None, m1\<lparr> vm_process := Some Spawned \<rparr>, spawn_calls en m))"
      by (simp add: prepare_def u1 u2 spawn Let_def split: option.split)
    show ?thesis using assms unfolding pre by (cases "se_popen en") (simp_all add: Let_def)
  next
    case False
    have "\<exists>x c. prepare en m = (Some x, m, c) \<and> (\<forall>args. Spawn args \<notin> set c)"
    proof (cases e1)
      case (Some x)
      then show ?thesis using none by (simp add: prepare_def u1)
    next
      case e1: None
      show ?thesis
      proof (cases e2)
        case (Some x)
        then show ?thesis using none by (simp add: prepare_def u1 u2 e1)
      next
        case None
        with e1 False show ?thesis
          using none by (cases "se_mkdir en"; cases "se_open en") (simp_all add: prepare_def u1 u2)
      qed
    qed
    with assms show ?thesis by auto
  qed
qed

lemma start_not_config: "(''/actions'', b) \<notin> set (config_requests m)"
  by (simp add: config_requests_def split: option.split)

lemma prepare_no_put: "prepare en m = (r, m1, calls) \<Longrightarrow> Put u b \<notin> set calls"
  by (auto simp: prepare_def unlink_existing_def Let_def split: option.splits if_splits prod.splits)

lemma boot_ok:
  assumes "boot fuel en m = Some (None, m2, calls)"
  shows "m2 = m\<lparr> vm_session := True \<rparr> \<and> calls = sent_puts m (boot_requests m) \<and>
    list_all (\<lambda>(p, b). accepted en p) (boot_requests m)"
  using assms put_all_ok[of en m "boot_requests m"]
  by (cases "put_all en m (boot_requests m)") (auto simp: boot_def split: option.splits sum.splits fc_error.splits)

lemma boot_fails:
  assumes "boot fuel en m = Some (Some e, m2, calls)" "vm_process m = Some Spawned"
  shows "(m2 = m\<lparr> vm_session := True \<rparr> \<or> m2 = m \<or> m2 = m\<lparr> vm_process := Some Reaped \<rparr>) \<and>
    (calls = [] \<and> wait_for_api_socket fuel (se_rounds en) (se_socket en) (se_now en) True (api_socket m) 5 = Some (Inl e) \<or>
     (\<exists>pre p b post. boot_requests m = pre @ (p, b) # post \<and> list_all (\<lambda>(p, b). accepted en p) pre \<and>
        fst (put en m p b) = Some e \<and> calls = sent_puts m (pre @ [(p, b)])))"
proof (cases "wait_for_api_socket fuel (se_rounds en) (se_socket en) (se_now en) True (api_socket m) 5")
  case None
  then show ?thesis using assms by (simp add: boot_def)
next
  case (Some r)
  show ?thesis
  proof (cases r)
    case (Inl x)
    with Some assms show ?thesis by (cases x) (auto simp: boot_def)
  next
    case (Inr u)
    obtain e' cs where pa: "put_all en m (boot_requests m) = (e', cs)" by fastforce
    with Inr Some assms have "e' = Some e" "m2 = m\<lparr> vm_session := True \<rparr>" "cs = calls" by (auto simp: boot_def)
    with put_all_fails[of en m "boot_requests m" e] pa show ?thesis by simp
  qed
qed

lemma stop_eq: "stop alive ends timeout m =
    (if vm_process m = None then (m, [])
     else (m\<lparr> vm_process := Some Reaped, vm_console_open := False \<rparr>,
           (if is_running alive m then [Terminate, WaitFor timeout] @ (if ends then [] else [Kill, WaitExit]) else []) @
           (if vm_console_open m then [CloseLog] else [])))"
proof -
  have same: "vm_process m = Some Reaped \<Longrightarrow> m\<lparr> vm_process := Some Reaped \<rparr> = m"
    "\<not> vm_console_open m \<Longrightarrow> m\<lparr> vm_process := p, vm_console_open := False \<rparr> = m\<lparr> vm_process := p \<rparr>" for p
    by (cases m; simp)+
  then show ?thesis
    using not_spawned[of "vm_process m"]
    by (cases "vm_console_open m"; cases "vm_process m = Some Spawned") (auto simp: stop_def is_running_def Let_def)
qed

section \<open>Properties\<close>

text \<open>
  C18. A start that succeeds. When \<open>start\<close> returns, it has removed the stale sockets, opened the console
  log for appending, spawned firecracker once, and sent the configuration in order, every request of
  which was accepted; the request that boots the machine is the last call of all. The process is
  running as far as the object knows, and the log is open.
\<close>

theorem start_boots:
  assumes "start fuel en m = Some (None, m', calls)"
  shows "calls = spawn_calls en m @ sent_puts m (config_requests m) @ [Put (api_url m ''/actions'') (snd start_request)] \<and>
    list_all (\<lambda>(p, b). accepted en p) (config_requests m @ [start_request]) \<and>
    m' = m\<lparr> vm_console_open := True, vm_process := Some Spawned, vm_session := True \<rparr>"
proof -
  obtain m1 c1 c2 where p: "prepare en m = (None, m1, c1)" "boot fuel en m1 = Some (None, m', c2)" "calls = c1 @ c2"
    using assms by (auto simp: start_def split: prod.splits option.splits)
  note m1 = prepare_ok[OF p(1)]
  have "sent_puts m1 rs = sent_puts m rs" for rs using m1 by simp
  moreover have "boot_requests m1 = boot_requests m" using m1 by simp
  ultimately show ?thesis
    using boot_ok[OF p(2)] m1 p(3) by (simp add: boot_requests_def start_request_def)
qed

definition sample_vm :: vm where
  "sample_vm = (new_vm ''fc'' ''/k'' ''/r'' ''/run/a b.sock'' ''/c.log'')\<lparr> vsock_uds_path := Some ''/v'' \<rparr>"

definition sample_start :: "pystr set \<Rightarrow> start_env" where
  "sample_start bad =
     \<lparr> se_exists = (\<lambda>_. False), se_unlink = (\<lambda>_. None), se_mkdir = None, se_open = None, se_popen = None,
       se_now = 0, se_rounds = (\<lambda>i. \<lparr> rd_now = of_nat i / 20, rd_exit = None, rd_log = None \<rparr>),
       se_socket = (\<lambda>i. 1 \<le> i), se_put = (\<lambda>p. if p \<in> bad then Answer False 400 ''bad'' else Answer True 204 ''''),
       se_alive = True \<rparr>"

lemma sample_wait: "wait_for_api_socket 3 (se_rounds (sample_start bad)) (se_socket (sample_start bad))
    (se_now (sample_start bad)) True path 5 = Some (Inr ())"
  by (simp add: wait_for_api_socket_def sample_start_def numeral_3_eq_3)

lemma sample_prepare: "prepare (sample_start bad) sample_vm =
    (None, sample_vm\<lparr> vm_console_open := True, vm_process := Some Spawned \<rparr>, spawn_calls (sample_start bad) sample_vm)"
  by (simp add: prepare_def unlink_existing_def api_gone_def sample_start_def sample_vm_def new_vm_def Let_def spawn_calls_def stale_files_def)

lemma sample_boots: "\<exists>m' calls. start 3 (sample_start {}) sample_vm = Some (None, m', calls)"
proof -
  have "fst (put_all (sample_start {}) m rs) = None" for m rs
    by (simp add: put_all_ok accepted_def sample_start_def list_all_iff)
  then obtain cs where "put_all (sample_start {}) (sample_vm\<lparr> vm_console_open := True, vm_process := Some Spawned \<rparr>)
      (boot_requests sample_vm) = (None, cs)"
    by (metis prod.collapse)
  then have "boot 3 (sample_start {}) (sample_vm\<lparr> vm_console_open := True, vm_process := Some Spawned \<rparr>) =
      Some (None, sample_vm\<lparr> vm_console_open := True, vm_process := Some Spawned, vm_session := True \<rparr>, cs)"
    using sample_wait[of "{}"] by (simp add: boot_def)
  then show ?thesis by (simp add: start_def sample_prepare)
qed

theorem start_boots_witness:
  "\<exists>m' calls. start 3 (sample_start {}) sample_vm = Some (None, m', calls) \<and>
     last calls = Put (api_url sample_vm ''/actions'') [(''action_type'', JText ''InstanceStart'')] \<and>
     vm_process m' = Some Spawned"
proof -
  obtain m' calls where run: "start 3 (sample_start {}) sample_vm = Some (None, m', calls)"
    using sample_boots by blast
  from start_boots[OF run] run show ?thesis by (simp add: start_request_def)
qed

lemma start_fails_parts:
  assumes "start fuel en m = Some (Some e, m', calls)" "se_popen en = None"
    and "Spawn [firecracker_binary m, ''--api-sock'', api_socket m] \<in> set calls"
  shows "\<exists>m1 c1 m2 c2. prepare en m = (None, m1, c1) \<and> boot fuel en m1 = Some (Some e, m2, c2) \<and>
      m' = fst (force_cleanup (se_alive en) m2) \<and> calls = c1 @ c2 @ snd (force_cleanup (se_alive en) m2)"
proof (cases "prepare en m")
  case (fields r m1 c1)
  show ?thesis
  proof (cases r)
    case None
    with fields assms(1) show ?thesis by (auto simp: start_def split: option.splits prod.splits)
  next
    case (Some x)
    with fields assms show ?thesis using prepare_fails[of en m x m1 c1] by (auto simp: start_def)
  qed
qed

text \<open>
  C8. A start that fails after the process was spawned leaves nothing behind: the process is reaped, the
  console log closed, and the error that is raised is the one of the wait for the API socket or of the
  first request that was not accepted, after which none was sent. So the request that boots the
  machine is sent only after every other one was accepted.
\<close>

theorem start_fails_clean:
  assumes "start fuel en m = Some (Some e, m', calls)" "se_popen en = None"
    and "Spawn [firecracker_binary m, ''--api-sock'', api_socket m] \<in> set calls"
  shows "vm_process m' = Some Reaped \<and> \<not> vm_console_open m' \<and> last calls = CloseLog \<and>
    (Put (api_url m ''/actions'') (snd start_request) \<in> set calls \<longrightarrow>
      list_all (\<lambda>(p, b). accepted en p) (config_requests m)) \<and>
    (wait_for_api_socket fuel (se_rounds en) (se_socket en) (se_now en) True (api_socket m) 5 = Some (Inl e) \<or>
     (\<exists>pre p b post. boot_requests m = pre @ (p, b) # post \<and> list_all (\<lambda>(p, b). accepted en p) pre \<and>
        fst (put en m p b) = Some e))"
proof -
  from start_fails_parts[OF assms]
  obtain m1 c1 m2 c2 where run: "prepare en m = (None, m1, c1)" "boot fuel en m1 = Some (Some e, m2, c2)"
    "m' = fst (force_cleanup (se_alive en) m2)" "calls = c1 @ c2 @ snd (force_cleanup (se_alive en) m2)" by blast
  have m1: "m1 = m\<lparr> vm_console_open := True, vm_process := Some Spawned \<rparr>" using prepare_ok[OF run(1)] by blast
  have b: "boot_requests m1 = boot_requests m" "sent_puts m1 rs = sent_puts m rs"
    "fst (put en m1 p bd) = fst (put en m p bd)" "api_socket m1 = api_socket m" for rs p bd
    by (simp_all add: m1 put_error)
  have m2: "vm_console_open m2" "vm_process m2 \<noteq> None"
    using boot_fails(1)[OF run(2)] by (auto simp: m1)
  obtain cs where cleanup: "snd (force_cleanup (se_alive en) m2) = cs @ [CloseLog]" "set cs \<subseteq> {Kill, WaitExit}"
    using force_cleanup_result(3)[OF m2(1)] by blast
  have "vm_process m1 = Some Spawned" by (simp add: m1)
  from boot_fails[OF run(2) this] have boots: "c2 = [] \<and> wait_for_api_socket fuel (se_rounds en) (se_socket en) (se_now en) True (api_socket m) 5 = Some (Inl e) \<or>
     (\<exists>pre p bd post. boot_requests m = pre @ (p, bd) # post \<and> list_all (\<lambda>(p, b). accepted en p) pre \<and>
        fst (put en m p bd) = Some e \<and> c2 = sent_puts m (pre @ [(p, bd)]))"
    unfolding b by blast
  have "list_all (\<lambda>(p, b). accepted en p) (config_requests m)"
    if put: "Put (api_url m ''/actions'') (snd start_request) \<in> set calls"
  proof -
    have "Put (api_url m ''/actions'') (snd start_request) \<in> set c2"
      using put prepare_no_put[OF run(1)] cleanup by (auto simp: run(4))
    with boots obtain pre p bd post where req: "boot_requests m = pre @ (p, bd) # post"
      "list_all (\<lambda>(p, b). accepted en p) pre" "c2 = sent_puts m (pre @ [(p, bd)])" by auto
    have "(''/actions'', snd start_request) \<in> set (pre @ [(p, bd)])"
      using \<open>_ \<in> set c2\<close> by (auto simp: req(3) api_url_def)
    then have "post = []"
      using req(1) start_not_config[of _ m] by (cases post rule: rev_cases) (auto simp: boot_requests_def start_request_def)
    then have "pre = config_requests m" using req(1) by (simp add: boot_requests_def)
    with req(2) show ?thesis by simp
  qed
  moreover have "last calls = CloseLog" by (simp add: run(4) cleanup)
  ultimately show ?thesis
    using force_cleanup_result(1,2)[of "se_alive en" m2] m2 boots by (simp add: run(3)) blast
qed

lemma sample_fails: "\<exists>m' calls. start 3 (sample_start {''/machine-config''}) sample_vm =
    Some (Some (ApiError ''/machine-config'' 400 ''bad''), m', spawn_calls (sample_start {''/machine-config''}) sample_vm @ calls)"
proof -
  let ?en = "sample_start {''/machine-config''}"
    and ?m = "sample_vm\<lparr> vm_console_open := True, vm_process := Some Spawned \<rparr>"
  obtain cs where "put_all ?en ?m (boot_requests sample_vm) = (Some (ApiError ''/machine-config'' 400 ''bad''), cs)"
    by (simp add: boot_requests_def config_requests_def start_request_def sample_vm_def new_vm_def put_def sample_start_def)
  then have "boot 3 ?en ?m = Some (Some (ApiError ''/machine-config'' 400 ''bad''), ?m\<lparr> vm_session := True \<rparr>, cs)"
    using sample_wait[of "{''/machine-config''}"] by (simp add: boot_def)
  then show ?thesis by (simp add: start_def sample_prepare split: prod.split)
qed

theorem start_fails_clean_witness:
  "\<exists>m' calls. start 3 (sample_start {''/machine-config''}) sample_vm =
       Some (Some (ApiError ''/machine-config'' 400 ''bad''), m', calls) \<and>
     vm_process m' = Some Reaped \<and> \<not> vm_console_open m'"
proof -
  obtain m' cs where run: "start 3 (sample_start {''/machine-config''}) sample_vm =
      Some (Some (ApiError ''/machine-config'' 400 ''bad''), m', spawn_calls (sample_start {''/machine-config''}) sample_vm @ cs)"
    using sample_fails by blast
  have "se_popen (sample_start {''/machine-config''}) = None" by (simp add: sample_start_def)
  from start_fails_clean[OF run this] run show ?thesis by (auto simp: spawn_calls_def)
qed

text \<open>
  C38. A failing spawn leaves the console log open. When \<open>Popen\<close> itself raises (no such binary, for example), the
  clean-up does not run: the log that was opened is still open when \<open>start\<close> raises. For an object
  that had no process before, \<open>stop\<close> then returns at once, so that nothing closes the log any more;
  one that is launched again has its earlier process, and its \<open>stop\<close> closes it.
\<close>

theorem popen_failure_leaks:
  assumes "start fuel en m = Some (Some e, m', calls)" "se_popen en = Some x"
    and "Spawn [firecracker_binary m, ''--api-sock'', api_socket m] \<in> set calls"
  shows "e = OSErr x \<and> vm_console_open m' \<and> CloseLog \<notin> set calls \<and>
    (if vm_process m = None then stop alive ends timeout m' = (m', [])
     else CloseLog \<in> set (snd (stop alive ends timeout m')) \<and> \<not> vm_console_open (fst (stop alive ends timeout m')))"
proof (cases "prepare en m")
  case (fields r m1 c1)
  show ?thesis
  proof (cases r)
    case None
    with fields prepare_ok[of en m m1 c1] assms(2) show ?thesis by simp
  next
    case (Some y)
    with fields assms(1) have eq: "y = e" "m1 = m'" "c1 = calls" by (simp_all add: start_def)
    with fields Some prepare_fails[of en m y m1 c1] assms
    have "m' = m\<lparr> vm_console_open := True \<rparr>" "e = OSErr x" "calls = spawn_calls en m" by auto
    then show ?thesis by (auto simp: stop_eq spawn_calls_def)
  qed
qed

theorem popen_failure_leaks_witness:
  "\<exists>m' calls. start 3 ((sample_start {})\<lparr> se_popen := Some (FileNotFoundError ''fc'') \<rparr>) sample_vm =
       Some (Some (OSErr (FileNotFoundError ''fc'')), m', calls) \<and> vm_console_open m' \<and> stop True True 5 m' = (m', [])"
proof -
  let ?en = "(sample_start {})\<lparr> se_popen := Some (FileNotFoundError ''fc'') \<rparr>"
  obtain m' where run: "start 3 ?en sample_vm = Some (Some (OSErr (FileNotFoundError ''fc'')), m', spawn_calls ?en sample_vm)"
    by (simp add: start_def prepare_def unlink_existing_def api_gone_def sample_start_def sample_vm_def new_vm_def Let_def
        spawn_calls_def stale_files_def)
  have "se_popen ?en = Some (FileNotFoundError ''fc'')" "vm_process sample_vm = None"
    by (simp_all add: sample_vm_def new_vm_def)
  with popen_failure_leaks[OF run, of _ True True 5] run show ?thesis by (auto simp: spawn_calls_def)
qed

text \<open>
  C24. Stopping. After \<open>stop\<close> of an object with a process, the process is reaped and not running, the console
  log is closed, and the configuration is untouched; a second \<open>stop\<close> does nothing. A kill is sent
  exactly to a living process that did not end within the timeout after it was asked to, and then the
  process is waited for.
\<close>

theorem stop_postcondition:
  assumes "vm_process m \<noteq> None" "stop alive ends timeout m = (m', calls)"
  shows "m' = m\<lparr> vm_process := Some Reaped, vm_console_open := False \<rparr> \<and> \<not> is_running alive' m' \<and>
    stop alive' ends' timeout' m' = (m', []) \<and>
    (Kill \<in> set calls \<longleftrightarrow> is_running alive m \<and> \<not> ends) \<and>
    (Terminate \<in> set calls \<longleftrightarrow> is_running alive m) \<and>
    (Kill \<in> set calls \<longrightarrow> prefix [Terminate, WaitFor timeout, Kill, WaitExit] calls)"
proof -
  have m': "m' = m\<lparr> vm_process := Some Reaped, vm_console_open := False \<rparr>"
    and calls: "calls = (if is_running alive m then [Terminate, WaitFor timeout] @ (if ends then [] else [Kill, WaitExit]) else []) @
      (if vm_console_open m then [CloseLog] else [])"
    using assms(2) unfolding stop_eq[of alive ends timeout m] if_not_P[OF assms(1)] by (simp_all only: prod.inject)
  moreover have "\<not> is_running alive' m'" by (simp add: m' is_running_def)
  moreover have "stop alive' ends' timeout' m' = (m', [])" by (simp add: stop_eq m' is_running_def)
  moreover have "Kill \<in> set calls \<longleftrightarrow> is_running alive m \<and> \<not> ends" "Terminate \<in> set calls \<longleftrightarrow> is_running alive m"
    by (simp_all add: calls)
  moreover have "Kill \<in> set calls \<Longrightarrow> prefix [Terminate, WaitFor timeout, Kill, WaitExit] calls"
    by (simp add: calls split: if_splits)
  ultimately show ?thesis by blast
qed

theorem stop_postcondition_witness:
  "stop True False 5 (sample_vm\<lparr> vm_process := Some Spawned, vm_console_open := True \<rparr>) =
     (sample_vm\<lparr> vm_process := Some Reaped, vm_console_open := False \<rparr>,
      [Terminate, WaitFor 5, Kill, WaitExit, CloseLog])"
proof -
  let ?m = "sample_vm\<lparr> vm_process := Some Spawned, vm_console_open := True \<rparr>"
  obtain m' calls where run: "stop True False 5 ?m = (m', calls)" by fastforce
  have "vm_process ?m \<noteq> None" by simp
  from stop_postcondition[OF this run] have "m' = sample_vm\<lparr> vm_process := Some Reaped, vm_console_open := False \<rparr>" by simp
  moreover have "calls = [Terminate, WaitFor 5, Kill, WaitExit, CloseLog]" using run by (simp add: stop_def Let_def)
  ultimately show ?thesis using run by simp
qed

text \<open>
  C25. \<open>start\<close> returns. With a clock that advances by the pause of the wait, it returns or raises after at
  most 100 further rounds of waiting for the API socket.
\<close>

theorem start_returns:
  assumes "paced (se_rounds en) (se_now en) (1 / 20)" "100 < fuel"
  shows "\<exists>r m' calls. start fuel en m = Some (r, m', calls)"
proof -
  have "max_rounds 5 (1 / 20) = 100" by (simp add: max_rounds_def)
  then have wait: "\<exists>r. wait_for_api_socket fuel (se_rounds en) (se_socket en) (se_now en) proc path 5 = Some r" for proc path
    unfolding wait_for_api_socket_def using poll_bounded[OF assms(1)] assms(2) by simp
  have "\<exists>r m2 c. boot fuel en m1 = Some (r, m2, c)" for m1
    using wait[of "vm_process m1 \<noteq> None" "api_socket m1"]
    by (auto simp: boot_def split: sum.split fc_error.split prod.split)
  then show ?thesis
    by (cases "prepare en m"; cases "fst (prepare en m)") (auto simp: start_def split: prod.splits option.splits)
qed

theorem start_returns_witness: "\<exists>r m' calls. start 101 (sample_start {}) sample_vm = Some (r, m', calls)"
proof -
  have "paced (se_rounds (sample_start {})) (se_now (sample_start {})) (1 / 20)"
    by (simp add: paced_def sample_start_def field_simps)
  then show ?thesis using start_returns[of "sample_start {}" 101 sample_vm] by simp
qed

text \<open>
  C36. The API address. In the address of a request the part between the scheme and the first slash,
  percent-decoded and read as UTF-8, is the path of the API socket, whatever characters it contains,
  and the rest is the path of the request.
\<close>

theorem api_url_roundtrip:
  assumes "prefix ''/'' path"
  shows "\<exists>netloc. api_url m path = ''http+unix://'' @ netloc @ path \<and> CHR ''/'' \<notin> set netloc \<and>
    utf8_decode (unquote_bytes netloc) = map byte (api_socket m)"
  using quote_no_slash[of "api_socket m"] utf8_round_trip[of "api_socket m"]
  by (intro exI[of _ "quote (api_socket m)"]) (simp add: api_url_def quote_def unquote_quote_bytes)

theorem api_url_roundtrip_witness:
  "\<exists>netloc. api_url sample_vm ''/vsock'' = ''http+unix://'' @ netloc @ ''/vsock'' \<and> CHR ''/'' \<notin> set netloc \<and>
    utf8_decode (unquote_bytes netloc) = map byte ''/run/a b.sock''"
proof -
  have "prefix ''/'' ''/vsock''" by simp
  from api_url_roundtrip[OF this, of sample_vm] show ?thesis by (simp add: sample_vm_def new_vm_def)
qed

end
