(* ===== verification/Launches.thy ===== *)
theory Launches
  imports Firecracker Systems
begin

text \<open>
  The life of a \<open>FirecrackerVM\<close> over any number of launches. \<open>Firecracker\<close> has one call of \<open>start\<close> or
  \<open>stop\<close>; here the calls follow each other, the processes they spawn are numbered, and the console log is
  a file that is opened for appending and outlives the processes. \<open>act\<close> is one call, or some output of a
  process. A caller that starts the object only while it has no process of its own to answer for keeps
  to \<open>life\<close>; \<open>use\<close> is any sequence of calls.
\<close>

section \<open>State and operations\<close>

record launcher =
  l_vm :: vm
  l_spawned :: nat \<comment> \<open>how many processes were spawned; the last one is \<open>self._process\<close>\<close>
  l_unreaped :: "nat set" \<comment> \<open>the processes nobody has waited for\<close>
  l_file :: "bytes option" \<comment> \<open>the console log; \<open>None\<close>: it does not exist\<close>

datatype op =
    Start nat start_env bytes \<comment> \<open>fuel, environment, what the process prints until the call ends\<close>
  | Stop bool bool rat
  | Print nat bytes

definition new_launcher :: "vm \<Rightarrow> bytes option \<Rightarrow> launcher" where
  "new_launcher m file = \<lparr> l_vm = m, l_spawned = 0, l_unreaped = {}, l_file = file \<rparr>"

definition content :: "bytes option \<Rightarrow> bytes" where
  "content file = (case file of None \<Rightarrow> [] | Some b \<Rightarrow> b)"

definition open_append :: "bytes option \<Rightarrow> bytes option" where
  \<comment> \<open>\<open>console_log.open("ab")\<close>\<close>
  "open_append file = Some (content file)"

definition append_out :: "bytes \<Rightarrow> bytes option \<Rightarrow> bytes option" where
  "append_out out file = Some (content file @ out)"

definition opens :: "start_env \<Rightarrow> vm \<Rightarrow> bool" where
  "opens en m \<longleftrightarrow> OpenAppend (console_log m) \<in> set (snd (snd (prepare en m))) \<and> se_open en = None"

definition spawns :: "start_env \<Rightarrow> vm \<Rightarrow> bool" where
  "spawns en m \<longleftrightarrow> fst (prepare en m) = None"

definition reaped_by :: "bool \<Rightarrow> bool \<Rightarrow> call list \<Rightarrow> bool" where
  \<comment> \<open>whether calls on a process have waited for it: \<open>poll\<close> does if it has ended, \<open>wait\<close> when it returns\<close>
  "reaped_by alive ends calls \<longleftrightarrow>
     \<not> alive \<or> list_ex (\<lambda>c. case c of WaitExit \<Rightarrow> True | WaitFor _ \<Rightarrow> ends | _ \<Rightarrow> False) calls"

fun start_reaps :: "start_env \<Rightarrow> fc_error option \<Rightarrow> call list \<Rightarrow> bool" where
  \<comment> \<open>whether a start has waited for the process it spawned: the wait for the API socket if it saw it end,
    the clean-up otherwise\<close>
  "start_reaps en None calls = False"
| "start_reaps en (Some (ProcessExited code txt)) calls = True"
| "start_reaps en (Some e) calls = reaped_by (se_alive en) False calls"

fun act :: "op \<Rightarrow> launcher \<Rightarrow> launcher option" where
  "act (Start fuel en out) l =
     (case start fuel en (l_vm l) of
        None \<Rightarrow> None
      | Some (r, m, calls) \<Rightarrow>
          let file = (if opens en (l_vm l) then open_append (l_file l) else l_file l)
          in if spawns en (l_vm l)
             then Some \<lparr> l_vm = m, l_spawned = Suc (l_spawned l),
                         l_unreaped = (if start_reaps en r calls then l_unreaped l else insert (l_spawned l) (l_unreaped l)),
                         l_file = append_out out file \<rparr>
             else Some (l\<lparr> l_vm := m, l_file := file \<rparr>))"
| "act (Stop alive ends timeout) l =
     (case stop alive ends timeout (l_vm l) of
        (m, calls) \<Rightarrow>
          Some (l\<lparr> l_vm := m,
                  l_unreaped := if vm_process (l_vm l) = Some Spawned \<and> reaped_by alive ends calls
                                then l_unreaped l - {l_spawned l - 1} else l_unreaped l \<rparr>))"
| "act (Print i out) l = Some (if i \<in> l_unreaped l then l\<lparr> l_file := append_out out (l_file l) \<rparr> else l)"

definition use :: "launcher \<Rightarrow> launcher \<Rightarrow> bool" where
  "use l l' \<longleftrightarrow> (\<exists>a. act a l = Some l')"

definition life :: "launcher \<Rightarrow> launcher \<Rightarrow> bool" where
  "life l l' \<longleftrightarrow> (\<exists>a. act a l = Some l' \<and> (\<forall>fuel en out. a = Start fuel en out \<longrightarrow> vm_process (l_vm l) \<noteq> Some Spawned))"

section \<open>What a start leaves\<close>

lemma start_outcome:
  assumes "start fuel en m = Some (r, m', calls)"
  shows "(spawns en m \<and> r = None \<and> m' = m\<lparr> vm_console_open := True, vm_process := Some Spawned, vm_session := True \<rparr>) \<or>
    (spawns en m \<and> r \<noteq> None \<and> vm_process m' = Some Reaped \<and> \<not> vm_console_open m') \<or>
    (\<not> spawns en m \<and> r \<noteq> None \<and> (m' = m \<or> m' = m\<lparr> vm_console_open := True \<rparr>))"
proof (cases "prepare en m")
  case (fields p m1 c1)
  show ?thesis
  proof (cases p)
    case (Some x)
    with fields assms have "r = Some x" "m' = m1" by (simp_all add: start_def)
    with fields Some prepare_fails[of en m x m1 c1] show ?thesis by (auto simp: spawns_def)
  next
    case None
    with fields have m1: "m1 = m\<lparr> vm_console_open := True, vm_process := Some Spawned \<rparr>" "spawns en m"
      using prepare_ok[of en m m1 c1] by (simp_all add: spawns_def)
    obtain r2 m2 c2 where b: "boot fuel en m1 = Some (r2, m2, c2)"
      using fields None assms by (auto simp: start_def split: option.splits)
    show ?thesis
    proof (cases r2)
      case None
      with b fields \<open>p = None\<close> assms have "r = None" "m' = m2" by (simp_all add: start_def)
      with b None boot_ok[of fuel en m1 m2 c2] m1 show ?thesis by simp
    next
      case (Some e)
      with b fields None assms have "r = Some e" "m' = fst (force_cleanup (se_alive en) m2)"
        by (auto simp: start_def split: prod.splits)
      moreover have "vm_process m2 \<noteq> None"
        using boot_fails(1)[of fuel en m1 e m2 c2] b Some m1(1) by auto
      ultimately show ?thesis using m1(2) force_cleanup_result(1,2)[of "se_alive en" m2] by simp
    qed
  qed
qed

lemma boot_not_exited: "boot fuel en m = Some (Some e, m2, calls) \<Longrightarrow>
    (\<exists>code txt. e = ProcessExited code txt) \<or> vm_process m2 = vm_process m"
  by (auto simp: boot_def split: option.splits sum.splits fc_error.splits prod.splits)

lemma force_cleanup_reaps: "vm_process m = Some Spawned \<Longrightarrow> reaped_by alive False (pre @ snd (force_cleanup alive m))"
  by (auto simp: force_cleanup_def reaped_by_def Let_def)

lemma start_reaps_failed:
  assumes "start fuel en m = Some (r, m', calls)" "spawns en m"
  shows "start_reaps en r calls \<longleftrightarrow> r \<noteq> None"
proof (cases r)
  case (Some e)
  obtain m1 c1 where p: "prepare en m = (None, m1, c1)" using assms(2) by (cases "prepare en m") (simp add: spawns_def)
  with Some assms(1) obtain m2 c2 where b: "boot fuel en m1 = Some (Some e, m2, c2)"
    "calls = (c1 @ c2) @ snd (force_cleanup (se_alive en) m2)"
    by (auto simp: start_def split: option.splits prod.splits)
  have m1: "vm_process m1 = Some Spawned" using prepare_ok[OF p] by simp
  show ?thesis
  proof (cases "\<exists>code txt. e = ProcessExited code txt")
    case False
    then have "vm_process m2 = Some Spawned" using boot_not_exited[OF b(1)] m1 by simp
    with force_cleanup_reaps have "reaped_by (se_alive en) False calls" unfolding b(2) by blast
    with False Some show ?thesis by (cases e) auto
  qed (auto simp: Some)
qed simp

lemma stop_process:
  "vm_process (fst (stop alive ends t m)) = (if vm_process m = None then None else Some Reaped) \<and>
   (vm_process m \<noteq> None \<longrightarrow> \<not> vm_console_open (fst (stop alive ends t m)))"
  by (simp add: stop_eq)

lemma stop_reaps: "vm_process m = Some Spawned \<Longrightarrow> reaped_by alive ends (snd (stop alive ends t m))"
  by (simp add: stop_eq is_running_def reaped_by_def)

lemma spawns_opens: "spawns en m \<Longrightarrow> opens en m"
  using prepare_ok[of en m] prepare_fails[of en m]
  by (cases "prepare en m")
    (auto simp: spawns_def opens_def spawn_calls_def prepare_def Let_def split: option.splits prod.splits)


section \<open>Accounting for the processes\<close>

definition accounts_ok :: "launcher \<Rightarrow> bool" where
  \<comment> \<open>the only process nobody has waited for is the one the object would stop\<close>
  "accounts_ok l \<longleftrightarrow>
     l_unreaped l = (if vm_process (l_vm l) = Some Spawned then {l_spawned l - 1} else {}) \<and>
     (vm_process (l_vm l) = None \<longleftrightarrow> l_spawned l = 0) \<and>
     (vm_process (l_vm l) = Some Spawned \<longrightarrow> vm_console_open (l_vm l) \<and> vm_session (l_vm l))"

lemma act_returns: "start fuel en (l_vm l) = Some r \<Longrightarrow> \<exists>l'. act (Start fuel en out) l = Some l'"
  by (cases r) (auto simp: Let_def)

lemma act_start:
  assumes "act (Start fuel en out) l = Some l'"
  shows "\<exists>r calls. start fuel en (l_vm l) = Some (r, l_vm l', calls)"
    and "l_spawned l' = (if spawns en (l_vm l) then Suc (l_spawned l) else l_spawned l)"
    and "l_unreaped l' = (if spawns en (l_vm l) \<and> vm_process (l_vm l') \<noteq> Some Reaped
           then insert (l_spawned l) (l_unreaped l) else l_unreaped l)"
    and "l_file l' = (if spawns en (l_vm l) then append_out out (l_file l)
           else if opens en (l_vm l) then open_append (l_file l) else l_file l)"
proof -
  obtain r m calls where run: "start fuel en (l_vm l) = Some (r, m, calls)" using assms by (auto split: option.splits)
  then have vm: "l_vm l' = m" using assms by (auto simp: Let_def split: if_splits)
  show "\<exists>r calls. start fuel en (l_vm l) = Some (r, l_vm l', calls)" using run vm by blast
  show "l_spawned l' = (if spawns en (l_vm l) then Suc (l_spawned l) else l_spawned l)"
    using assms run by (auto simp: Let_def split: if_splits)
  have "spawns en (l_vm l) \<Longrightarrow> vm_process m = Some Reaped \<longleftrightarrow> r \<noteq> None"
    using start_outcome[OF run] by auto
  then show "l_unreaped l' = (if spawns en (l_vm l) \<and> vm_process (l_vm l') \<noteq> Some Reaped
           then insert (l_spawned l) (l_unreaped l) else l_unreaped l)"
    using assms run start_reaps_failed[OF run] by (auto simp: Let_def vm split: if_splits)
  show "l_file l' = (if spawns en (l_vm l) then append_out out (l_file l)
           else if opens en (l_vm l) then open_append (l_file l) else l_file l)"
    using assms run spawns_opens[of en "l_vm l"]
    by (auto simp: Let_def open_append_def append_out_def content_def split: if_splits)
qed

lemma act_stop_returns: "\<exists>l'. act (Stop alive ends t) l = Some l'"
  by (cases "stop alive ends t (l_vm l)") simp

lemma act_stop:
  assumes "act (Stop alive ends t) l = Some l'"
  shows "l_vm l' = fst (stop alive ends t (l_vm l))" "l_spawned l' = l_spawned l" "l_file l' = l_file l"
    and "l_unreaped l' = (if vm_process (l_vm l) = Some Spawned then l_unreaped l - {l_spawned l - 1} else l_unreaped l)"
  using assms stop_reaps[of "l_vm l" alive ends t] by (cases "stop alive ends t (l_vm l)"; auto)+

lemma life_accounts: "life l l' \<Longrightarrow> accounts_ok l \<Longrightarrow> accounts_ok l'"
proof -
  assume "life l l'" and ok: "accounts_ok l"
  then obtain a where a: "act a l = Some l'"
    "\<And>fuel en out. a = Start fuel en out \<Longrightarrow> vm_process (l_vm l) \<noteq> Some Spawned"
    unfolding life_def by blast
  show "accounts_ok l'"
  proof (cases a)
    case (Start fuel en out)
    note run = act_start[OF a(1)[unfolded Start]]
    have before: "vm_process (l_vm l) \<noteq> Some Spawned" "l_unreaped l = {}"
      using a(2)[OF Start] ok by (auto simp: accounts_ok_def)
    from run(1) obtain r calls where "start fuel en (l_vm l) = Some (r, l_vm l', calls)" by blast
    from start_outcome[OF this] show ?thesis
      using ok before run(2,3) by (auto simp: accounts_ok_def Let_def split: if_splits)
  next
    case (Stop alive ends t)
    show ?thesis
      using ok not_spawned[of "vm_process (l_vm l)"] stop_process[of alive ends t "l_vm l"] act_stop[OF a(1)[unfolded Stop]]
      by (auto simp: accounts_ok_def)
  next
    case (Print i out)
    with a(1) ok show ?thesis by (auto simp: accounts_ok_def split: if_splits)
  qed
qed

interpretation launches: invariant_system life accounts_ok
  by unfold_locales (rule life_accounts)

interpretation orphan: invariant_system use "\<lambda>l. i \<in> l_unreaped l \<and> Suc i < l_spawned l" for i
proof unfold_locales
  fix l l' :: launcher
  assume "use l l'" and old: "i \<in> l_unreaped l \<and> Suc i < l_spawned l"
  then obtain a where a: "act a l = Some l'" unfolding use_def by blast
  show "i \<in> l_unreaped l' \<and> Suc i < l_spawned l'"
  proof (cases a)
    case (Start fuel en out)
    then show ?thesis using act_start(2,3)[OF a[unfolded Start]] old by (auto simp: Let_def)
  next
    case (Stop alive ends t)
    then show ?thesis using act_stop[OF a[unfolded Stop]] old by auto
  next
    case (Print j out)
    then show ?thesis using a old by (auto split: if_splits)
  qed
qed

section \<open>The console log\<close>

lemma act_content: "act a l = Some l' \<Longrightarrow> prefix (content (l_file l)) (content (l_file l'))"
proof (cases a)
  case (Start fuel en out)
  assume "act a l = Some l'"
  then show ?thesis
    using act_start(4)[of fuel en out l l'] Start by (auto simp: append_out_def open_append_def content_def)
next
  case (Stop alive ends t)
  assume "act a l = Some l'"
  then show ?thesis using act_stop(3)[of alive ends t l l'] Stop by simp
qed (auto simp: append_out_def content_def split: if_splits)

interpretation grows: invariant_system use "\<lambda>l. prefix b (content (l_file l))" for b
  by unfold_locales (auto simp: use_def dest!: act_content intro: prefix_order.trans)

lemma life_use: "run life l l' \<Longrightarrow> run use l l'"
  by (induction rule: run.induct) (auto simp: life_def use_def intro: run.intros)


section \<open>What a start that saw the process exit reports\<close>

definition sees :: "bytes \<Rightarrow> bytes \<Rightarrow> (nat \<Rightarrow> round) \<Rightarrow> bool" where
  \<comment> \<open>a read of the log gives what was in it and a beginning of what the new process prints\<close>
  "sees old out env \<longleftrightarrow> (\<forall>i. \<exists>v. prefix v out \<and> rd_log (env i) = Some (old @ v))"

lemma prepare_error: "prepare en m = (Some e, m1, calls) \<Longrightarrow> \<exists>x. e = OSErr x"
  by (auto simp: prepare_def unlink_existing_def api_gone_def Let_def split: option.splits if_splits prod.splits)

lemma wait_exited:
  assumes "wait_for_api_socket fuel env exists now proc path timeout = Some (Inl (ProcessExited code txt))"
  shows "\<exists>k. rd_exit (env k) = Some code \<and> txt = console_log_text (rd_log (env k))"
  using polling.decided_by[OF assms[unfolded wait_for_api_socket_def]]
  by (auto simp: poll_verdict_def split: if_splits option.splits)

lemma put_not_exited: "fst (put en m p b) \<noteq> Some (ProcessExited code txt)"
  by (cases "se_put en p") (simp_all add: put_error)

lemma start_exited:
  assumes "start fuel en m = Some (Some (ProcessExited code txt), m', calls)"
  shows "spawns en m \<and> (\<exists>k. rd_exit (se_rounds en k) = Some code \<and> txt = console_log_text (rd_log (se_rounds en k)))"
proof (cases "prepare en m")
  case (fields p m1 c1)
  then have p: "p = None" using assms prepare_error[of en m _ m1 c1] by (cases p) (auto simp: start_def)
  with fields assms obtain m2 c2 where b: "boot fuel en m1 = Some (Some (ProcessExited code txt), m2, c2)"
    by (auto simp: start_def split: option.splits prod.splits)
  have "vm_process m1 = Some Spawned" using prepare_ok[of en m m1 c1] fields p by simp
  from boot_fails[OF b this]
  have "wait_for_api_socket fuel (se_rounds en) (se_socket en) (se_now en) True (api_socket m1) 5 =
      Some (Inl (ProcessExited code txt))"
    using put_not_exited by blast
  from wait_exited[OF this] fields p show ?thesis by (simp add: spawns_def)
qed

section \<open>Properties\<close>

text \<open>
  C26. No process is lost, as long as an object is not started while it holds a process it has not waited
  for (\<open>start_twice_orphans\<close> is what happens otherwise). Under this condition, however often it is started,
  with or without success, and stopped: every process it ever spawned has been waited for by the calls
  it made, except the one it holds as running, whose console log is open. After \<open>stop\<close> there is
  none, and the log is closed unless no process was ever spawned.
\<close>

theorem launches_accounted:
  assumes "run life (new_launcher m file) l" "vm_process m = None"
  shows "l_unreaped l = (if vm_process (l_vm l) = Some Spawned then {l_spawned l - 1} else {}) \<and>
    (vm_process (l_vm l) = Some Spawned \<longrightarrow> vm_console_open (l_vm l) \<and> 0 < l_spawned l) \<and>
    (\<forall>l'. act (Stop alive ends timeout) l = Some l' \<longrightarrow>
       l_unreaped l' = {} \<and> \<not> is_running alive' (l_vm l') \<and> (vm_console_open (l_vm l') \<longrightarrow> l_spawned l' = 0))"
proof -
  have "accounts_ok (new_launcher m file)" using assms(2) by (simp add: accounts_ok_def new_launcher_def)
  from launches.invariant[OF assms(1) this] have ok: "accounts_ok l" .
  have "l_unreaped l' = {} \<and> \<not> is_running alive' (l_vm l') \<and> (vm_console_open (l_vm l') \<longrightarrow> l_spawned l' = 0)"
    if stop: "act (Stop alive ends timeout) l = Some l'" for l'
  proof -
    show ?thesis
      using ok not_spawned[of "vm_process (l_vm l)"] stop_process[of alive ends timeout "l_vm l"] act_stop[OF stop]
      by (auto simp: accounts_ok_def is_running_def)
  qed
  with ok show ?thesis by (auto simp: accounts_ok_def)
qed

lemma sample_life: "\<exists>l. run life (new_launcher sample_vm file) l \<and> vm_process (l_vm l) = Some Spawned \<and> l_spawned l = 1"
proof -
  let ?l = "new_launcher sample_vm file"
  obtain m' calls where run: "start 3 (sample_start {}) sample_vm = Some (None, m', calls)" using sample_boots by blast
  have new: "l_vm ?l = sample_vm" "l_spawned ?l = 0" "vm_process sample_vm = None"
    by (simp_all add: new_launcher_def sample_vm_def new_vm_def)
  obtain l where l: "act (Start 3 (sample_start {}) ''hello'') ?l = Some l"
    using act_returns[of 3 "sample_start {}" ?l] run unfolding new by blast
  have "spawns (sample_start {}) sample_vm" by (simp add: spawns_def sample_prepare)
  moreover have "vm_process m' = Some Spawned" using start_outcome[OF run] by fastforce
  moreover have "l_vm l = m'" using act_start(1)[OF l] run unfolding new by (metis Pair_inject option.inject)
  ultimately have "vm_process (l_vm l) = Some Spawned" "l_spawned l = 1"
    using act_start(2)[OF l] unfolding new by simp_all
  moreover have "life ?l l"
    unfolding life_def using l new
    by (intro exI[of _ "Start 3 (sample_start {}) ''hello''"]) (simp del: act.simps)
  ultimately show ?thesis by (blast intro: run_one)
qed

theorem launches_accounted_witness:
  "\<exists>l. run life (new_launcher sample_vm None) l \<and> l_unreaped l = {0} \<and>
     (\<exists>l'. act (Stop True False 5) l = Some l' \<and> l_unreaped l' = {} \<and> \<not> vm_console_open (l_vm l'))"
proof -
  obtain l where l: "run life (new_launcher sample_vm None) l" "vm_process (l_vm l) = Some Spawned" "l_spawned l = 1"
    using sample_life by blast
  have "vm_process sample_vm = None" by (simp add: sample_vm_def new_vm_def)
  note accounts = launches_accounted[OF l(1) this, of True False 5]
  obtain l' where stop: "act (Stop True False 5) l = Some l'" using act_stop_returns by blast
  with accounts l(3) have "l_unreaped l' = {} \<and> \<not> vm_console_open (l_vm l')"
    using act_stop(2)[OF stop] by auto
  moreover have "l_unreaped l = {0}" using accounts l(2,3) by simp
  ultimately show ?thesis using l(1) stop by blast
qed

text \<open>
  C27. Evidence of earlier boots survives. The console log only grows, over any sequence of starts, stops
  and output: what it held is a beginning of what it holds. So when a start is given up because the
  process has exited, the text it raises shows, with some of what that process printed, all the log
  held before it, and in particular every line of ASCII text of an earlier boot.
\<close>

theorem earlier_boots_reported:
  assumes "run use l0 l" "start fuel en (l_vm l) = Some (Some (ProcessExited code txt), m', calls)"
    and "act (Start fuel en out) l = Some l'" "sees (content (l_file l)) out (se_rounds en)"
  shows "prefix (content (l_file l0)) (content (l_file l)) \<and> l_file l' = Some (content (l_file l) @ out) \<and>
    (\<exists>v. prefix v out \<and> txt = console_log_text (Some (content (l_file l) @ v))) \<and>
    (\<forall>t. ascii_line t \<and> sublist t (content (l_file l0)) \<longrightarrow> sublist (map byte t) txt)"
proof -
  have grown: "prefix (content (l_file l0)) (content (l_file l))"
    using grows.invariant[OF assms(1)] by simp
  have "spawns en (l_vm l)" and "\<exists>k. txt = console_log_text (rd_log (se_rounds en k))"
    using start_exited[OF assms(2)] by blast+
  moreover from this(2) obtain v where v: "prefix v out" "txt = console_log_text (Some (content (l_file l) @ v))"
    using assms(4) unfolding sees_def by metis
  moreover have "sublist (map byte t) txt" if t: "ascii_line t" "sublist t (content (l_file l0))" for t
  proof -
    obtain us vs where "content (l_file l) @ v = us @ t @ vs"
      using t(2) grown by (auto simp: sublist_def prefix_def)
    then show ?thesis using console_log_contains[OF t(1), of us vs] by (simp add: v(2))
  qed
  ultimately show ?thesis using act_start(4)[OF assms(3)] grown by (auto simp: append_out_def)
qed

definition sample_exits :: start_env where
  "sample_exits = (sample_start {})\<lparr> se_rounds :=
     (\<lambda>i. \<lparr> rd_now = of_nat i / 20, rd_exit = Some 1, rd_log = Some ''panic'' \<rparr>) \<rparr>"

lemma sample_start_exits:
  "\<exists>msg m' calls. start 3 sample_exits sample_vm = Some (Some (ProcessExited 1 msg), m', calls)"
proof -
  let ?m = "sample_vm\<lparr> vm_console_open := True, vm_process := Some Spawned \<rparr>"
  have p: "prepare sample_exits sample_vm = (None, ?m, spawn_calls sample_exits sample_vm)"
    by (simp add: prepare_def unlink_existing_def api_gone_def sample_exits_def sample_start_def sample_vm_def new_vm_def Let_def
        spawn_calls_def stale_files_def)
  have "wait_for_api_socket 3 (se_rounds sample_exits) (se_socket sample_exits) (se_now sample_exits) True path 5 =
      Some (Inl (ProcessExited 1 (console_log_text (Some ''panic''))))" for path
    by (simp add: wait_for_api_socket_def sample_exits_def sample_start_def numeral_3_eq_3 del: console_log_text_def)
  then have "boot 3 sample_exits ?m =
      Some (Some (ProcessExited 1 (console_log_text (Some ''panic''))), ?m\<lparr> vm_process := Some Reaped \<rparr>, [])"
    by (simp add: boot_def)
  then show ?thesis by (simp add: start_def p split: prod.split)
qed

theorem earlier_boots_reported_witness:
  "\<exists>msg m' calls. start 3 sample_exits sample_vm = Some (Some (ProcessExited 1 msg), m', calls) \<and>
     sublist (map byte ''panic'') msg"
proof -
  let ?l = "new_launcher sample_vm (Some ''panic'')"
  obtain msg m' calls where run: "start 3 sample_exits (l_vm ?l) = Some (Some (ProcessExited 1 msg), m', calls)"
    using sample_start_exits by (auto simp: new_launcher_def)
  obtain l' where act: "act (Start 3 sample_exits []) ?l = Some l'" using act_returns[OF run] by blast
  have "sees (content (l_file ?l)) [] (se_rounds sample_exits)"
    by (simp add: sees_def new_launcher_def content_def sample_exits_def)
  note report = earlier_boots_reported[OF run.here run act this]
  have "ascii_line ''panic''" by code_simp
  moreover have "sublist ''panic'' (content (l_file ?l))" by (simp add: new_launcher_def content_def)
  ultimately have "sublist (map byte ''panic'') msg" using report by blast
  with run show ?thesis by (simp add: new_launcher_def)
qed

text \<open>
  C39. An old boot can pass for the new one. The log is not emptied when an object is launched again, and
  \<open>wait_for_console_string\<close> looks at all of it: if a line was printed by an earlier boot, then after a
  start that succeeded, and although the new process has printed nothing, waiting for this line
  returns in the first round.
\<close>

theorem stale_console_match:
  assumes "start fuel en (l_vm l) = Some (None, m', calls)" "act (Start fuel en []) l = Some l'"
    and "content (l_file l) = u @ t @ v" "ascii_line t"
    and "rd_log (env 0) = l_file l'" "rd_now (env 0) < now + timeout" "rd_exit (env 0) = None"
  shows "wait_for_console_string 1 env now (vm_process (l_vm l') \<noteq> None) (map byte t) timeout = Some (Inr ())"
proof -
  have "spawns en (l_vm l)" using start_outcome[OF assms(1)] by blast
  then have "rd_log (env 0) = Some (u @ t @ v)"
    using act_start(4)[OF assms(2)] assms(3,5) by (simp add: append_out_def)
  then have "sublist (map byte t) (console_log_text (rd_log (env 0)))" using console_log_contains[OF assms(4)] by simp
  with assms(6,7) show ?thesis by (simp add: wait_for_console_string_def)
qed

theorem stale_console_match_witness:
  "\<exists>l'. act (Start 3 (sample_start {}) []) (new_launcher sample_vm (Some ''alive'')) = Some l' \<and>
     wait_for_console_string 1 (\<lambda>i. \<lparr> rd_now = 0, rd_exit = None, rd_log = l_file l' \<rparr>) 0 (vm_process (l_vm l') \<noteq> None)
       (map byte ''alive'') 15 = Some (Inr ())"
proof -
  let ?l = "new_launcher sample_vm (Some ''alive'')"
  have vm: "l_vm ?l = sample_vm" by (simp add: new_launcher_def)
  obtain m' calls where run: "start 3 (sample_start {}) (l_vm ?l) = Some (None, m', calls)"
    unfolding vm using sample_boots by blast
  obtain l' where act: "act (Start 3 (sample_start {}) []) ?l = Some l'" using act_returns[OF run] by blast
  have "content (l_file ?l) = [] @ ''alive'' @ []" by (simp add: new_launcher_def content_def)
  moreover have "ascii_line ''alive''" by code_simp
  ultimately have "wait_for_console_string 1 env now (vm_process (l_vm l') \<noteq> None) (map byte ''alive'') timeout = Some (Inr ())"
    if "rd_log (env 0) = l_file l'" "rd_now (env 0) < now + timeout" "rd_exit (env 0) = None" for env now timeout
    using stale_console_match[OF run act] that by blast
  then show ?thesis using act by (intro exI[of _ l']) simp_all
qed

text \<open>
  Starting an object again while its process is running: the process before is not waited for by
  any later sequence of calls.
\<close>

lemma start_twice_orphans:
  assumes "run life (new_launcher m file) l" "vm_process m = None" "vm_process (l_vm l) = Some Spawned"
    and "act (Start fuel en out) l = Some l'" "spawns en (l_vm l)" "run use l' l''"
  shows "l_spawned l - 1 \<in> l_unreaped l''"
proof -
  have "accounts_ok (new_launcher m file)" using assms(2) by (simp add: accounts_ok_def new_launcher_def)
  from launches.invariant[OF assms(1) this] assms(3)
  have "l_spawned l - 1 \<in> l_unreaped l" "0 < l_spawned l" by (auto simp: accounts_ok_def)
  then have "l_spawned l - 1 \<in> l_unreaped l' \<and> Suc (l_spawned l - 1) < l_spawned l'"
    using act_start(2,3)[OF assms(4)] assms(5) by (auto simp: Let_def)
  from orphan.invariant[OF assms(6) this] show ?thesis by blast
qed

end
