(* ===== verification/HostExamples.thy ===== *)
theory HostExamples
  imports SessionRuns Launches
begin

text \<open>
  The cases of the agent-vm host's unit tests (test_vsock_bridge.py, test_session_manager.py,
  test_firecracker.py), evaluated on the model. Each lemma has the name of its test; of the tests of
  firecracker.py those are here whose outcome is not a property of \<open>Firecracker\<close> or \<open>Launches\<close>.
\<close>

section \<open>test_vsock_bridge.py\<close>

text \<open>
  The servers of the tests answer each connection in turn, with a reply or by closing it. An attempt
  takes a twentieth of a second, the pause after it.
\<close>

definition serve_uds :: "bytes option list \<Rightarrow> nat \<Rightarrow> attempt" where
  "serve_uds behaviors i =
     \<lparr> at_now = of_nat i / 20,
       at_conn = (if i < length behaviors
                  then Accepted ((case behaviors ! i of None \<Rightarrow> [] | Some b \<Rightarrow> map Byte b) @ [Eof])
                  else ConnectFails) \<rparr>"

lemma serve_uds_outcome:
  "i < length bs \<Longrightarrow> bs ! i = None \<Longrightarrow> attempt_outcome port (serve_uds bs i) = Retry (ClosedBeforeReply port)"
  "i < length bs \<Longrightarrow> bs ! i = Some (''OK 10000'' @ [CHR 0x0A]) \<Longrightarrow> attempt_outcome port (serve_uds bs i) = Connected [Eof]"
  "i < length bs \<Longrightarrow> bs ! i = Some (''NOPE'' @ [CHR 0x0A]) \<Longrightarrow>
     attempt_outcome port (serve_uds bs i) = Refuse (Malformed (''NOPE'' @ [CHR 0x0A]))"
proof -
  have "reply_ok (''OK 10000'' @ [CHR 0x0A])" "\<not> reply_ok (''NOPE'' @ [CHR 0x0A])" by code_simp+
  then show "i < length bs \<Longrightarrow> bs ! i = None \<Longrightarrow> attempt_outcome port (serve_uds bs i) = Retry (ClosedBeforeReply port)"
    "i < length bs \<Longrightarrow> bs ! i = Some (''OK 10000'' @ [CHR 0x0A]) \<Longrightarrow> attempt_outcome port (serve_uds bs i) = Connected [Eof]"
    "i < length bs \<Longrightarrow> bs ! i = Some (''NOPE'' @ [CHR 0x0A]) \<Longrightarrow>
       attempt_outcome port (serve_uds bs i) = Refuse (Malformed (''NOPE'' @ [CHR 0x0A]))"
    by (simp_all add: attempt_outcome_def serve_uds_def recv_handshake_line_def)
qed

abbreviation connects :: "bytes option list \<Rightarrow> rat \<Rightarrow> vsock_error + nat \<times> recv list" where
  "connects behaviors timeout \<equiv> fst (the (connect_guest_port 50 (serve_uds behaviors) 0 ''/v.sock'' 10000 timeout))"

lemma serve_uds_now: "at_now (serve_uds bs i) = of_nat i / 20"
  by (simp add: serve_uds_def)

lemma test_connect_guest_port_happy_path:
  "connects [Some (''OK 10000'' @ [CHR 0x0A])] 2 = Inr (0, [Eof])"
  by (simp add: connect_guest_port_def eval_nat_numeral serve_uds_outcome serve_uds_now Let_def del: append_Cons)

lemma test_connect_guest_port_raises_on_malformed_reply:
  "connects [Some (''NOPE'' @ [CHR 0x0A])] 2 = Inl (Malformed (''NOPE'' @ [CHR 0x0A]))"
  by (simp add: connect_guest_port_def eval_nat_numeral serve_uds_outcome serve_uds_now Let_def del: append_Cons)

lemma test_connect_guest_port_retries_until_listener_appears:
  "connects [None, None, Some (''OK 10000'' @ [CHR 0x0A])] 5 = Inr (2, [Eof])"
  by (simp add: connect_guest_port_def eval_nat_numeral serve_uds_outcome serve_uds_now Let_def del: append_Cons)

lemma test_connect_guest_port_gives_up_after_timeout:
  "connects (replicate 10 None) (1 / 5) = Inl (TimedOut 10000 (1 / 5) (Some (ClosedBeforeReply 10000)))"
  by (simp add: connect_guest_port_def eval_nat_numeral serve_uds_outcome serve_uds_now Let_def)

section \<open>test_session_manager.py\<close>

lemma test_terminal_recorder_appends_one_json_line_per_chunk:
  "transcript (record_chunk ''2'' HOST_TO_GUEST ''world''
      (record_chunk ''1'' GUEST_TO_HOST ''hello'' (new_recorder None ''sess-1''))) =
     [Some \<lparr> ck_time = ''1'', ck_session = ''sess-1'', ck_direction = GUEST_TO_HOST, ck_payload = ''hello'' \<rparr>,
      Some \<lparr> ck_time = ''2'', ck_session = ''sess-1'', ck_direction = HOST_TO_GUEST, ck_payload = ''world'' \<rparr>]"
proof -
  have "number_text ''1''" "number_text ''2''" by code_simp+
  then have "list_all (\<lambda>e. number_text (fst e)) [(''1'', GUEST_TO_HOST, ''hello''), (''2'', HOST_TO_GUEST, ''world'')]" by simp
  moreover have "whole_lines (new_recorder None ''sess-1'')"
    by (rule whole_lines_new_recorder) (simp add: whole_file_def)
  moreover have "transcript (new_recorder None ''sess-1'') = []"
    by (simp add: transcript_def new_recorder_def log_lines_def)
  ultimately show ?thesis
    using trec.entries_fold[of "[(''1'', GUEST_TO_HOST, ''hello''), (''2'', HOST_TO_GUEST, ''world'')]"
        "new_recorder None ''sess-1''"]
    by (simp add: record_event_def event_chunk_def new_recorder_def)
qed

lemma test_terminal_recorder_touches_file_on_construction: "recorded_file (new_recorder None ''sess-1'') = ''''"
  by (simp add: recorded_file_def new_recorder_def)

definition two_clients :: hub where
  "two_clients = add_client 2 (add_client 1 (new_hub 0 (new_recorder None ''sess-1'')
     (\<lambda>_. \<lparr> sk_closed = False, sk_sent = [], sk_room = 9 \<rparr>)))"

lemma test_attach_hub_fans_out_guest_bytes_to_all_clients_and_logs:
  "let h = broadcast_from_guest ''1'' ''hi'' two_clients
   in sk_sent (h_socks h 1) = ''hi'' \<and> sk_sent (h_socks h 2) = ''hi'' \<and>
      h_recorder h = record_chunk ''1'' GUEST_TO_HOST ''hi'' (new_recorder None ''sess-1'')"
  by (simp add: two_clients_def new_hub_def add_client_def broadcast_from_guest_def hub_record_def
      sendall_def at_sock_def deliver_def Let_def)

lemma test_attach_hub_forwards_host_to_guest_bytes_and_logs:
  "let (ok, h) = forward_to_guest ''1'' ''hello'' two_clients
   in ok \<and> sk_sent (h_socks h 0) = ''hello'' \<and>
      h_recorder h = record_chunk ''1'' HOST_TO_GUEST ''hello'' (new_recorder None ''sess-1'')"
  by (simp add: two_clients_def new_hub_def add_client_def forward_to_guest_def hub_record_def
      sendall_def at_sock_def deliver_def Let_def)

lemma test_disconnecting_one_attach_client_does_not_close_stdio_sock_or_others:
  "let h = broadcast_from_guest ''1'' ''again'' (remove_client 1 two_clients)
   in sk_closed (h_socks h 1) \<and> \<not> sk_closed (h_socks h 0) \<and> h_clients h = [2] \<and> sk_sent (h_socks h 2) = ''again''"
  by (simp add: two_clients_def new_hub_def add_client_def broadcast_from_guest_def hub_record_def
      remove_client_def unlink_client_def shut_def sendall_def at_sock_def deliver_def Let_def)

section \<open>test_firecracker.py\<close>

text \<open>
  The fake binary prints a line and exits at once. The process of each of two starts prints \<open>boot\<close>.
\<close>

definition fake_boot :: "bytes option \<Rightarrow> start_env" where
  "fake_boot file = (sample_start {})\<lparr> se_rounds :=
     (\<lambda>i. \<lparr> rd_now = of_nat i / 20, rd_exit = Some 1, rd_log = append_out ''boot'' file \<rparr>) \<rparr>"

lemma fake_boot_start:
  assumes "l_vm l = sample_vm\<lparr> vm_process := p \<rparr>"
  shows "\<exists>l'. act (Start 3 (fake_boot file) ''boot'') l = Some l' \<and>
    l_vm l' = sample_vm\<lparr> vm_process := Some Reaped \<rparr> \<and> l_file l' = append_out ''boot'' (l_file l)"
proof -
  let ?m = "sample_vm\<lparr> vm_console_open := True, vm_process := Some Spawned \<rparr>"
  have closed: "\<not> vm_console_open sample_vm" by (simp add: sample_vm_def new_vm_def)
  have p: "prepare (fake_boot file) (l_vm l) = (None, ?m, spawn_calls (fake_boot file) sample_vm)"
    by (simp add: assms prepare_def unlink_existing_def api_gone_def fake_boot_def sample_start_def sample_vm_def new_vm_def Let_def
        spawn_calls_def stale_files_def)
  have "wait_for_api_socket 3 (se_rounds (fake_boot file)) (se_socket (fake_boot file)) (se_now (fake_boot file)) True path 5 =
      Some (Inl (ProcessExited 1 (console_log_text (append_out ''boot'' file))))" for path
    by (simp add: wait_for_api_socket_def fake_boot_def sample_start_def numeral_3_eq_3)
  then have b: "boot 3 (fake_boot file) ?m =
      Some (Some (ProcessExited 1 (console_log_text (append_out ''boot'' file))), ?m\<lparr> vm_process := Some Reaped \<rparr>, [])"
    by (simp add: boot_def)
  have "\<exists>r calls. start 3 (fake_boot file) (l_vm l) = Some (r, sample_vm\<lparr> vm_process := Some Reaped \<rparr>, calls)"
    using closed unfolding start_def p by (simp add: b force_cleanup_def Let_def)
  then obtain r calls where run: "start 3 (fake_boot file) (l_vm l) = Some (r, sample_vm\<lparr> vm_process := Some Reaped \<rparr>, calls)"
    by blast
  obtain l' where act: "act (Start 3 (fake_boot file) ''boot'') l = Some l'" using act_returns[OF run] by blast
  have "spawns (fake_boot file) (l_vm l)" by (simp add: spawns_def p)
  with act_start(1,4)[OF act] run show ?thesis by (intro exI[of _ l'] conjI act) auto
qed

lemma test_console_log_persists_across_relaunch:
  "\<exists>l1 l2. act (Start 3 (fake_boot None) ''boot'') (new_launcher sample_vm None) = Some l1 \<and>
     act (Start 3 (fake_boot (l_file l1)) ''boot'') l1 = Some l2 \<and>
     l_file l1 = Some ''boot'' \<and> l_file l2 = Some (''boot'' @ ''boot'')"
proof -
  have "l_vm (new_launcher sample_vm None) = sample_vm\<lparr> vm_process := None \<rparr>"
    by (simp add: new_launcher_def sample_vm_def new_vm_def)
  from fake_boot_start[OF this, of None] obtain l1 where l1:
    "act (Start 3 (fake_boot None) ''boot'') (new_launcher sample_vm None) = Some l1"
    "l_vm l1 = sample_vm\<lparr> vm_process := Some Reaped \<rparr>" "l_file l1 = Some ''boot''"
    by (auto simp: append_out_def content_def new_launcher_def)
  from fake_boot_start[OF l1(2), of "l_file l1"] l1(3) obtain l2 where
    "act (Start 3 (fake_boot (l_file l1)) ''boot'') l1 = Some l2" "l_file l2 = Some (''boot'' @ ''boot'')"
    by (auto simp: append_out_def content_def)
  with l1 show ?thesis by (intro exI conjI)
qed

end
