(* ===== verification/Locks.thy ===== *)
theory Locks
  imports SessionRuns
begin

text \<open>
  The two locks of a session: the recorder's and the hub's (\<open>self._lock\<close> of \<open>TerminalRecorder\<close> and of
  \<open>AttachHub\<close>). In \<open>Sessions\<close> a \<open>with\<close> block is one step; here taking the lock, what is done under it and
  leaving the block are steps of their own, and a lock is state with a holder. A lock is a
  \<open>threading.Lock\<close>: a thread that takes one it already holds waits for ever. The locked threads are
  shown to reach the same states, and never to hold a lock for longer than two of the holder's steps.
\<close>

section \<open>Threads and their blocks\<close>

datatype lock = RecorderLock | HubLock

datatype thread = Owner | Reader | Acceptor | Pump sock

fun reader_blocks :: "reader_pc \<Rightarrow> lock list" where
  \<comment> \<open>the \<open>with\<close> blocks around the next action, outermost first\<close>
  "reader_blocks (RRecord b) = [RecorderLock]"
| "reader_blocks (RSnap b) = [HubLock]"
| "reader_blocks (RUnlink b c cs) = [HubLock]"
| "reader_blocks _ = []"

fun accept_blocks :: "accept_pc \<Rightarrow> lock list" where
  "accept_blocks (AAdd c) = [HubLock]"
| "accept_blocks _ = []"

fun pump_blocks :: "pump_pc \<Rightarrow> lock list" where
  "pump_blocks (PRecord b) = [RecorderLock]"
| "pump_blocks PUnlink = [HubLock]"
| "pump_blocks _ = []"

fun blocks :: "thread \<Rightarrow> world \<Rightarrow> lock list" where
  "blocks Owner w = []"
| "blocks Reader w = reader_blocks (w_reader w)"
| "blocks Acceptor w = accept_blocks (w_accept w)"
| "blocks (Pump c) w = pump_blocks (w_pumps w c)"

fun live :: "thread \<Rightarrow> world \<Rightarrow> bool" where
  "live Owner w \<longleftrightarrow> w_main w \<noteq> MClosed"
| "live Reader w \<longleftrightarrow> w_reader w \<noteq> RNone \<and> w_reader w \<noteq> RDone"
| "live Acceptor w \<longleftrightarrow> w_accept w \<noteq> ANone \<and> w_accept w \<noteq> ADone"
| "live (Pump c) w \<longleftrightarrow> w_pumps w c \<noteq> PNone \<and> w_pumps w c \<noteq> PDone"

fun in_call :: "thread \<Rightarrow> world \<Rightarrow> bool" where
  \<comment> \<open>in a call that waits for a peer\<close>
  "in_call Owner w \<longleftrightarrow> False"
| "in_call Reader w \<longleftrightarrow> w_reader w = RRecv \<or> (\<exists>b c v cs. w_reader w = RSend b c v cs)"
| "in_call Acceptor w \<longleftrightarrow> w_accept w = AAccept"
| "in_call (Pump c) w \<longleftrightarrow> w_pumps w c = PRecv \<or> (\<exists>v. w_pumps w c = PSend v)"

fun moved :: "thread \<Rightarrow> world \<Rightarrow> world \<Rightarrow> bool" where
  "moved Owner w w' \<longleftrightarrow> w_main w' \<noteq> w_main w"
| "moved Reader w w' \<longleftrightarrow> w_reader w \<noteq> RNone \<and> w_reader w' \<noteq> w_reader w"
| "moved Acceptor w w' \<longleftrightarrow> w_accept w \<noteq> ANone \<and> w_accept w' \<noteq> w_accept w"
| "moved (Pump c) w w' \<longleftrightarrow> w_pumps w c \<noteq> PNone \<and> w_pumps w' c \<noteq> w_pumps w c"

section \<open>Steps with locks\<close>

record locked =
  lk_world :: world
  lk_owner :: "lock \<Rightarrow> thread option"
  lk_held :: "thread \<Rightarrow> lock list" \<comment> \<open>the blocks a thread is in, outermost first\<close>

definition unlocked :: "world \<Rightarrow> locked" where
  "unlocked w = \<lparr> lk_world = w, lk_owner = (\<lambda>_. None), lk_held = (\<lambda>_. []) \<rparr>"

definition enter_block :: "thread \<Rightarrow> lock \<Rightarrow> locked \<Rightarrow> locked" where
  "enter_block t l s = s\<lparr> lk_owner := (lk_owner s)(l := Some t), lk_held := (lk_held s)(t := lk_held s t @ [l]) \<rparr>"

definition leave_block :: "thread \<Rightarrow> lock \<Rightarrow> locked \<Rightarrow> locked" where
  "leave_block t l s = s\<lparr> lk_owner := (lk_owner s)(l := None), lk_held := (lk_held s)(t := butlast (lk_held s t)) \<rparr>"

inductive locked_step :: "thread \<Rightarrow> locked \<Rightarrow> locked \<Rightarrow> bool" for t where
  enters: "blocks t (lk_world s) = lk_held s t @ l # ls \<Longrightarrow> lk_owner s l = None \<Longrightarrow> locked_step t s (enter_block t l s)"
| acts: "blocks t (lk_world s) = lk_held s t \<Longrightarrow> step (lk_world s) w \<Longrightarrow> moved t (lk_world s) w \<Longrightarrow>
    locked_step t s (s\<lparr> lk_world := w \<rparr>)"
| leaves: "lk_held s t \<noteq> [] \<Longrightarrow> \<not> prefix (lk_held s t) (blocks t (lk_world s)) \<Longrightarrow>
    locked_step t s (leave_block t (last (lk_held s t)) s)"

definition some_step :: "locked \<Rightarrow> locked \<Rightarrow> bool" where
  "some_step s s' \<longleftrightarrow> (\<exists>t. locked_step t s s')"

inductive_cases locked_stepE: "locked_step t s s'"

section \<open>Whose step it is\<close>

lemma pump_movedI:
  "w_pumps w c = p \<Longrightarrow> p \<noteq> PNone \<Longrightarrow> q \<noteq> p \<Longrightarrow> w_pumps w' = (w_pumps w)(c := q) \<Longrightarrow>
    P \<or> Q \<or> R \<or> (\<exists>d. moved (Pump d) w w')"
  by (intro disjI2 exI[of _ c]) simp

lemma step_moved: "step w w' \<Longrightarrow> \<exists>t. moved t w w'"
proof -
  have "step w w' \<Longrightarrow> moved Owner w w' \<or> moved Reader w w' \<or> moved Acceptor w w' \<or> (\<exists>c. moved (Pump c) w w')"
    by (induction rule: step.induct; (erule pump_movedI)?; auto simp: world_simps)
  then show "step w w' \<Longrightarrow> \<exists>t. moved t w w'" by blast
qed

text \<open>A step changes the place of one thread, but for threads that it starts.\<close>

lemma main_alone: "step w w' \<Longrightarrow> ids_ok w \<Longrightarrow> w_main w' \<noteq> w_main w \<Longrightarrow>
    (w_reader w' = w_reader w \<or> w_reader w = RNone) \<and> (w_accept w' = w_accept w \<or> w_accept w = ANone) \<and> w_pumps w' = w_pumps w"
  by (induction rule: step.induct) (simp_all add: world_simps ids_ok_def main_ok_def)

lemma reader_alone: "step w w' \<Longrightarrow> w_reader w' \<noteq> w_reader w \<Longrightarrow> w_accept w' = w_accept w \<and> w_pumps w' = w_pumps w"
  by (induction rule: step.induct) (simp_all add: world_simps)

lemma accept_alone: "step w w' \<Longrightarrow> w_accept w' \<noteq> w_accept w \<Longrightarrow>
    w_pumps w' = w_pumps w \<or> (\<exists>c. w_accept w = ASpawn c \<and> w_pumps w' = (w_pumps w)(c := PTop))"
  by (induction rule: step.induct) (simp_all add: world_simps)

lemma pump_alone: "step w w' \<Longrightarrow> \<exists>c p. w_pumps w' = (w_pumps w)(c := p)"
proof -
  have "step w w' \<Longrightarrow> w_pumps w' = w_pumps w \<or> (\<exists>c p. w_pumps w' = (w_pumps w)(c := p))"
    by (induction rule: step.induct) (auto simp: world_simps)
  then show "step w w' \<Longrightarrow> \<exists>c p. w_pumps w' = (w_pumps w)(c := p)" by (metis fun_upd_triv)
qed

lemma pump_unstarted: "ids_ok w \<Longrightarrow> w_accept w = ASpawn c \<Longrightarrow> w_pumps w c = PNone"
  by (simp add: ids_ok_def pumps_ok_def)

lemma moved_once:
  assumes "step w w'" "ids_ok w" "moved t w w'" "moved u w w'"
  shows "t = u"
proof -
  note alone = main_alone[OF assms(1,2)] reader_alone[OF assms(1)] accept_alone[OF assms(1)]
  have pumps: "c = d" if "moved (Pump c) w w'" "moved (Pump d) w w'" for c d
    using pump_alone[OF assms(1)] that by (auto split: if_splits)
  have spawned: "w_accept w' = w_accept w" if "moved (Pump c) w w'" for c
    using alone(3) that pump_unstarted[OF assms(2)] by (cases "w_accept w' = w_accept w") (auto split: if_splits)
  have "\<not> moved Reader w w' \<and> \<not> moved Acceptor w w' \<and> \<not> moved (Pump c) w w'" if "moved Owner w w'" for c
    using alone(1) that by auto
  moreover have "\<not> moved Acceptor w w' \<and> \<not> moved (Pump c) w w'" if "moved Reader w w'" for c
    using alone(2) that by auto
  moreover have "\<not> moved Acceptor w w'" if "moved (Pump c) w w'" for c
    using spawned[OF that] by simp
  ultimately show ?thesis using assms(3,4) pumps by (cases t; cases u) blast+
qed

lemma newly_started: "step w w' \<Longrightarrow> w_reader w = RNone \<Longrightarrow> w_reader w' = RNone \<or> w_reader w' = RTop"
  "step w w' \<Longrightarrow> w_accept w = ANone \<Longrightarrow> w_accept w' = ANone \<or> w_accept w' = ATop"
  "step w w' \<Longrightarrow> w_pumps w c = PNone \<Longrightarrow> w_pumps w' c = PNone \<or> w_pumps w' c = PTop"
  by (induction rule: step.induct; auto simp: world_simps)+

lemma others_stay:
  assumes "step w w'" "ids_ok w" "moved t w w'" "u \<noteq> t"
  shows "blocks u w' = blocks u w \<and> (in_call u w' \<longleftrightarrow> in_call u w)"
proof -
  have still: "\<not> moved u w w'" using moved_once[OF assms(1-3)] assms(4) by blast
  show ?thesis
  proof (cases u)
    case Reader
    then show ?thesis using newly_started(1)[OF assms(1)] still by (cases "w_reader w = RNone") auto
  next
    case Acceptor
    then show ?thesis using newly_started(2)[OF assms(1)] still by (cases "w_accept w = ANone") auto
  next
    case (Pump c)
    then show ?thesis using newly_started(3)[OF assms(1), of c] still by (cases "w_pumps w c = PNone") auto
  qed simp
qed

section \<open>Blocks\<close>

lemma one_block: "blocks t w = [] \<or> (\<exists>l. blocks t w = [l])"
proof (cases t)
  case Reader
  then show ?thesis by (cases "w_reader w") auto
next
  case Acceptor
  then show ?thesis by (cases "w_accept w") auto
next
  case (Pump c)
  then show ?thesis by (cases "w_pumps w c") auto
qed simp

lemma call_outside: "in_call t w \<Longrightarrow> blocks t w = []"
  by (cases t) auto

lemma enters_call: "step w w' \<Longrightarrow> moved t w w' \<Longrightarrow> in_call t w' \<Longrightarrow> blocks t w = []"
proof -
  have reader: "step w w' \<Longrightarrow> w_reader w' \<noteq> w_reader w \<Longrightarrow> in_call Reader w' \<Longrightarrow> blocks Reader w = []"
    by (induction rule: step.induct) (simp_all add: world_simps)
  have accept: "step w w' \<Longrightarrow> w_accept w' \<noteq> w_accept w \<Longrightarrow> in_call Acceptor w' \<Longrightarrow> blocks Acceptor w = []"
    by (induction rule: step.induct) (simp_all add: world_simps)
  have pump: "step w w' \<Longrightarrow> w_pumps w' c \<noteq> w_pumps w c \<Longrightarrow> in_call (Pump c) w' \<Longrightarrow> blocks (Pump c) w = []" for c
    by (induction rule: step.induct) (auto simp: world_simps split: if_splits)
  show "step w w' \<Longrightarrow> moved t w w' \<Longrightarrow> in_call t w' \<Longrightarrow> blocks t w = []"
    using reader accept pump by (cases t) auto
qed

lemma block_done: "step w w' \<Longrightarrow> moved t w w' \<Longrightarrow> blocks t w = [l] \<Longrightarrow> \<not> prefix [l] (blocks t w')"
proof -
  have reader: "step w w' \<Longrightarrow> w_reader w' \<noteq> w_reader w \<Longrightarrow> blocks Reader w = [l] \<Longrightarrow> \<not> prefix [l] (blocks Reader w')"
    by (induction rule: step.induct) (auto simp: world_simps)
  have accept: "step w w' \<Longrightarrow> w_accept w' \<noteq> w_accept w \<Longrightarrow> blocks Acceptor w = [l] \<Longrightarrow> \<not> prefix [l] (blocks Acceptor w')"
    by (induction rule: step.induct) (auto simp: world_simps)
  have pump: "step w w' \<Longrightarrow> w_pumps w' c \<noteq> w_pumps w c \<Longrightarrow> blocks (Pump c) w = [l] \<Longrightarrow> \<not> prefix [l] (blocks (Pump c) w')" for c
    by (induction rule: step.induct) (auto simp: world_simps split: if_splits)
  show "step w w' \<Longrightarrow> moved t w w' \<Longrightarrow> blocks t w = [l] \<Longrightarrow> \<not> prefix [l] (blocks t w')"
    using reader accept pump by (cases t) auto
qed

lemma can_move: "live t w \<Longrightarrow> \<exists>w'. step w w' \<and> moved t w w'"
proof (cases t)
  case Owner
  assume "live t w"
  then show ?thesis
    using Owner start_reader[of w] start_listener[of w] close_stop[of w] close_stdio[of w] close_listener[of w]
    by (cases "w_main w") (force simp: world_simps)+
next
  case Reader
  assume "live t w"
  then show ?thesis using Reader reader_can_step[of w] by auto
next
  case Acceptor
  assume "live t w"
  then show ?thesis using Acceptor accept_can_step[of w] by auto
next
  case (Pump c)
  assume "live t w"
  then show ?thesis using Pump pump_can_step[of w c] by auto
qed

lemma blocks_live: "blocks t w \<noteq> [] \<Longrightarrow> live t w"
  by (cases t) auto

section \<open>Holding locks\<close>

definition locks_ok :: "locked \<Rightarrow> bool" where
  "locks_ok s \<longleftrightarrow> ids_ok (lk_world s) \<and> (\<forall>l u. lk_owner s l = Some u \<longleftrightarrow> l \<in> set (lk_held s u)) \<and>
     (\<forall>u. lk_held s u = [] \<or> (\<exists>l. lk_held s u = [l])) \<and>
     (\<forall>u. in_call u (lk_world s) \<longrightarrow> lk_held s u = [])"

lemma locks_okD:
  assumes "locks_ok s"
  shows "ids_ok (lk_world s)" "lk_owner s l = Some u \<longleftrightarrow> l \<in> set (lk_held s u)"
    "lk_held s u = [] \<or> (\<exists>l. lk_held s u = [l])" "in_call u (lk_world s) \<Longrightarrow> lk_held s u = []"
  using assms by (simp_all add: locks_ok_def)

lemma enters_first: "blocks t w = ls @ l # ms \<Longrightarrow> ls = [] \<and> ms = [] \<and> blocks t w = [l]"
  using one_block[of t w] by (cases ls) auto

lemma locked_step_ok:
  assumes "locked_step t s s'" "locks_ok s"
  shows "locks_ok s'"
  using assms(1)
proof cases
  case (enters l ls)
  note first = enters_first[OF enters(2)]
  then have out: "lk_held s t = []" "\<not> in_call t (lk_world s)" using call_outside[of t "lk_world s"] by auto
  have own: "lk_owner s k = Some u \<longleftrightarrow> k \<in> set (lk_held s u)" for k u by (rule locks_okD(2)[OF assms(2)])
  then have "l \<notin> set (lk_held s u)" for u using enters(3) by (metis option.distinct(1))
  with own out enters(3) locks_okD(1,3,4)[OF assms(2)] show ?thesis
    unfolding enters(1) locks_ok_def enter_block_def by (auto simp: fun_upd_apply)
next
  case (acts w)
  have "lk_held s u = []" if "in_call u w" for u
  proof (cases "u = t")
    case True
    then show ?thesis using enters_call[OF acts(3,4)] that acts(2) by simp
  next
    case False
    then show ?thesis using others_stay[OF acts(3) _ acts(4) False] locks_okD(1,4)[OF assms(2)] that by blast
  qed
  with locks_okD[OF assms(2)] ids_ok_step[OF acts(3)] show ?thesis unfolding acts(1) locks_ok_def by simp
next
  case leaves
  obtain l where l: "lk_held s t = [l]" using locks_okD(3)[OF assms(2)] leaves(2) by blast
  have "lk_owner s k = Some u \<longleftrightarrow> k \<in> set (lk_held s u)" for k u by (rule locks_okD(2)[OF assms(2)])
  moreover from this l have "u \<noteq> t \<Longrightarrow> l \<notin> set (lk_held s u)" for u
    by (metis list.set_intros(1) option.inject)
  ultimately show ?thesis
    using l locks_okD(1,3,4)[OF assms(2)] unfolding leaves(1) locks_ok_def leave_block_def
    by (auto simp: fun_upd_apply split: if_splits)
qed

interpretation locking: invariant_system some_step locks_ok
  by unfold_locales (auto simp: some_step_def intro: locked_step_ok)

lemma unlocked_ok: "ids_ok w \<Longrightarrow> locks_ok (unlocked w)"
  by (simp add: locks_ok_def unlocked_def)

lemma session_locked:
  assumes "session_manager fuel env now uds timeout file sid = Some (Inr (w0, rest))" "run some_step (unlocked w0) s"
  shows "locks_ok s"
  using locking.invariant[OF assms(2) unlocked_ok] session_reachable(1)[OF assms(1) reachable_here] by blast

lemma holder_steps:
  assumes "locks_ok s" "lk_held s u = [l]"
  shows "\<exists>s'. locked_step u s s'"
proof (cases "blocks u (lk_world s) = [l]")
  case True
  then have "live u (lk_world s)" by (intro blocks_live) simp
  then obtain w where "step (lk_world s) w" "moved u (lk_world s) w" using can_move by blast
  with True assms(2) acts[of u s w] show ?thesis by auto
next
  case False
  then have "\<not> prefix [l] (blocks u (lk_world s))" using one_block[of u "lk_world s"] by auto
  with assms(2) leaves[of s u] show ?thesis by auto
qed

lemma holder_releases:
  assumes "locks_ok s" "lk_held s u = [l]" "locked_step u s s'" "\<not> prefix [l] (blocks u (lk_world s))"
  shows "lk_owner s' l = None"
  using assms(3)
proof cases
  case (enters k ls)
  then show ?thesis using enters_first[OF enters(2)] assms(2) by simp
next
  case (acts w)
  then show ?thesis using assms(2,4) by simp
next
  case leaves
  then show ?thesis using assms(2) by (simp add: leave_block_def)
qed

lemma holder_two_steps:
  assumes "locks_ok s" "lk_held s u = [l]" "locked_step u s s'"
  shows "lk_owner s' l = None \<or> (\<exists>s''. locked_step u s' s'') \<and> (\<forall>s''. locked_step u s' s'' \<longrightarrow> lk_owner s'' l = None)"
proof (cases "prefix [l] (blocks u (lk_world s))")
  case False
  then show ?thesis using holder_releases[OF assms] by blast
next
  case True
  have ok: "locks_ok s'" by (rule locked_step_ok[OF assms(3,1)])
  from assms(3) show ?thesis
  proof cases
    case (enters k ls)
    then show ?thesis using enters_first[OF enters(2)] assms(2) by simp
  next
    case (acts w)
    then have held: "lk_held s' u = [l]" and b: "\<not> prefix [l] (blocks u (lk_world s'))"
      using assms(2) block_done[OF acts(3,4), of l] by simp_all
    show ?thesis using holder_steps[OF ok held] holder_releases[OF ok held _ b] by blast
  next
    case leaves
    then show ?thesis using assms(2) True by simp
  qed
qed

lemma waits_for_holder:
  assumes "locks_ok s" "live t (lk_world s)"
  shows "(\<exists>s'. locked_step t s s') \<or>
    (\<exists>l u. l \<in> set (blocks t (lk_world s)) \<and> lk_owner s l = Some u \<and> u \<noteq> t \<and> lk_held s u = [l])"
proof (cases "lk_held s t = []")
  case False
  then show ?thesis using holder_steps[OF assms(1)] locks_okD(3)[OF assms(1), of t] by blast
next
  case out: True
  show ?thesis
  proof (cases "blocks t (lk_world s) = []")
    case True
    then show ?thesis using can_move[OF assms(2)] acts[of t s] out by (metis (no_types))
  next
    case False
    then obtain l where l: "blocks t (lk_world s) = [l]" using one_block[of t "lk_world s"] by blast
    show ?thesis
    proof (cases "lk_owner s l")
      case None
      with l out enters[of t s l "[]"] show ?thesis by auto
    next
      case (Some u)
      then have "l \<in> set (lk_held s u)" using locks_okD(2)[OF assms(1)] by simp
      then have "lk_held s u = [l]" using locks_okD(3)[OF assms(1), of u] by auto
      with Some out l show ?thesis by fastforce
    qed
  qed
qed

section \<open>Blocks as single steps\<close>

lemma unlocked_fields [simp]: "lk_world (unlocked w) = w" "lk_owner (unlocked w) l = None" "lk_held (unlocked w) t = []"
  by (simp_all add: unlocked_def)

lemma unlocked_step:
  assumes "step w w'" "ids_ok w"
  shows "run some_step (unlocked w) (unlocked w')"
proof -
  obtain t where t: "moved t w w'" using step_moved[OF assms(1)] by blast
  consider "blocks t w = []" | l where "blocks t w = [l]" using one_block by blast
  then show ?thesis
  proof cases
    case 1
    then have "locked_step t (unlocked w) (unlocked w\<lparr> lk_world := w' \<rparr>)" by (intro acts) (simp_all add: assms(1) t)
    then show ?thesis by (intro run_one) (auto simp: some_step_def unlocked_def)
  next
    case 2
    let ?in = "enter_block t l (unlocked w)"
    have held: "lk_held ?in t = [l]" "lk_world ?in = w" by (simp_all add: enter_block_def)
    have "some_step (unlocked w) ?in"
      unfolding some_step_def by (intro exI[of _ t] enters[where ls = "[]"]) (simp_all add: 2)
    moreover have "some_step ?in (?in\<lparr> lk_world := w' \<rparr>)"
      unfolding some_step_def by (intro exI[of _ t] acts) (simp_all add: held 2 assms(1) t)
    moreover have "leave_block t (last [l]) (?in\<lparr> lk_world := w' \<rparr>) = unlocked w'"
      by (simp add: leave_block_def enter_block_def unlocked_def fun_upd_idem_iff)
    then have "locked_step t (?in\<lparr> lk_world := w' \<rparr>) (unlocked w')"
      using leaves[of "?in\<lparr> lk_world := w' \<rparr>" t] block_done[OF assms(1) t 2] held by simp
    then have "some_step (?in\<lparr> lk_world := w' \<rparr>) (unlocked w')" unfolding some_step_def by blast
    ultimately have "some_step (unlocked w) ?in" "some_step ?in (?in\<lparr> lk_world := w' \<rparr>)"
      "some_step (?in\<lparr> lk_world := w' \<rparr>) (unlocked w')" by blast+
    then show ?thesis by (rule run.more[OF run.more[OF run_one]])
  qed
qed

lemma unlocked_run: "reachable w0 w \<Longrightarrow> ids_ok w0 \<Longrightarrow> run some_step (unlocked w0) (unlocked w)"
proof (induction rule: run.induct)
  case here
  show ?case by (rule run.here)
next
  case (more w w')
  have "ids_ok w" by (rule session.invariant[OF more.hyps(1) more.prems])
  from run_trans[OF more.IH[OF more.prems] unlocked_step[OF more.hyps(2) this]] show ?case .
qed


section \<open>Properties\<close>

text \<open>
  C17. No thread waits long for another. In every state that the threads of a session reach with their locks
  as state: a lock has one holder at most; a thread that is in a call which waits for its peer
  (\<open>recv\<close>, \<open>accept\<close>, \<open>sendall\<close>) holds none; and a thread that runs has a next step, or else it waits for
  a lock that another thread holds, which has a next step itself and has let go of the lock after any
  two of its own. So no set of threads waits for each other, and no client or guest that is slow
  keeps a lock taken.
\<close>

theorem locks_never_block:
  assumes "session_manager fuel env now uds timeout file sid = Some (Inr (w0, rest))" "run some_step (unlocked w0) s"
  shows "(lk_owner s l = Some u \<longleftrightarrow> l \<in> set (lk_held s u)) \<and>
    (in_call t (lk_world s) \<longrightarrow> lk_held s t = []) \<and>
    (live t (lk_world s) \<longrightarrow> (\<exists>s'. locked_step t s s') \<or>
      (\<exists>l u. l \<in> set (blocks t (lk_world s)) \<and> lk_owner s l = Some u \<and> u \<noteq> t \<and> (\<exists>s'. locked_step u s s') \<and>
        (\<forall>s'. locked_step u s s' \<longrightarrow> lk_owner s' l = None \<or>
          (\<exists>s''. locked_step u s' s'') \<and> (\<forall>s''. locked_step u s' s'' \<longrightarrow> lk_owner s'' l = None))))"
proof -
  have ok: "locks_ok s" by (rule session_locked[OF assms])
  show ?thesis
  proof (intro conjI impI)
    show "lk_owner s l = Some u \<longleftrightarrow> l \<in> set (lk_held s u)" by (rule locks_okD(2)[OF ok])
    show "lk_held s t = []" if "in_call t (lk_world s)" using that by (rule locks_okD(4)[OF ok])
    assume "live t (lk_world s)"
    from waits_for_holder[OF ok this]
    show "(\<exists>s'. locked_step t s s') \<or> (\<exists>l u. l \<in> set (blocks t (lk_world s)) \<and> lk_owner s l = Some u \<and> u \<noteq> t \<and>
        (\<exists>s'. locked_step u s s') \<and>
        (\<forall>s'. locked_step u s s' \<longrightarrow> lk_owner s' l = None \<or>
          (\<exists>s''. locked_step u s' s'') \<and> (\<forall>s''. locked_step u s' s'' \<longrightarrow> lk_owner s'' l = None)))"
    proof (elim disjE exE conjE)
      fix l u assume "l \<in> set (blocks t (lk_world s))" "lk_owner s l = Some u" "u \<noteq> t" and u: "lk_held s u = [l]"
      moreover have "\<exists>s'. locked_step u s s'" by (rule holder_steps[OF ok u])
      moreover have "\<forall>s'. locked_step u s s' \<longrightarrow> lk_owner s' l = None \<or>
          (\<exists>s''. locked_step u s' s'') \<and> (\<forall>s''. locked_step u s' s'' \<longrightarrow> lk_owner s'' l = None)"
        by (intro allI impI) (rule holder_two_steps[OF ok u])
      ultimately show ?thesis by (intro disjI2 exI[of _ l] exI[of _ u] conjI)
    qed (intro disjI1 exI)
  qed
qed

lemma typing_run:
  "\<exists>w. reachable (new_session 2 r) w \<and> w_reader w = RRecord ''hi'' \<and> w_pumps w 3 = PRecord ''ls''"
proof -
  define w0 where "w0 = new_session 2 r"
  define w1 where "w1 = w0\<lparr> w_main := MBind, w_reader := RTop \<rparr>"
  define w2 where "w2 = w1\<lparr> w_main := MReady, w_listener := Listening, w_accept := ATop \<rparr>"
  define w3 where "w3 = w2\<lparr> w_accept := AAccept \<rparr>"
  define w4 where "w4 = in_hub (at_sock (w_next w3) (\<lambda>_. open_socket)) (w3\<lparr> w_accept := AAdd (w_next w3), w_next := Suc (w_next w3) \<rparr>)"
  define w5 where "w5 = in_hub (add_client 3) (w4\<lparr> w_accept := ASpawn 3 \<rparr>)"
  define w6 where "w6 = pump_at 3 PTop (w5\<lparr> w_accept := ATop \<rparr>)"
  define w7 where "w7 = pump_at 3 (PRecord ''ls'') (pump_at 3 PRecv w6)"
  define w8 where "w8 = w7\<lparr> w_reader := RRecv \<rparr>"
  define w9 where "w9 = w8\<lparr> w_reader := RRecord ''hi'' \<rparr>"
  note defs = w0_def w1_def w2_def w3_def w4_def w5_def w6_def w7_def w8_def w9_def
  note eval = new_session_def new_hub_def world_simps hub_simps closed_def READ_CHUNK_SIZE_def
  have "reachable w0 w2"
    using reachable_step[OF reachable_step[OF reachable_here start_reader] start_listener, of w0]
    by (simp add: w0_def w1_def w2_def new_session_def)
  also have "step w2 w3" unfolding w3_def by (rule accept_enters) (simp_all add: defs eval)
  also have "step w3 w4" unfolding w4_def by (rule accept_takes) (simp_all add: defs eval)
  also have "step w4 w5" unfolding w5_def by (rule accept_adds) (simp_all add: defs eval)
  also have "step w5 w6" unfolding w6_def by (rule accept_spawns) (simp_all add: defs eval)
  also have "step w6 (pump_at 3 PRecv w6)" by (rule pump_enters) (simp_all add: defs eval)
  also have "step (pump_at 3 PRecv w6) w7" unfolding w7_def by (rule pump_receives) (simp_all add: defs eval)
  also have "step w7 w8" unfolding w8_def by (rule reader_enters) (simp_all add: defs eval)
  also have "step w8 w9" unfolding w9_def by (rule reader_receives) (simp_all add: defs eval)
  finally have "reachable w0 w9" .
  moreover have "w_reader w9 = RRecord ''hi''" "w_pumps w9 3 = PRecord ''ls''" by (simp_all add: defs eval)
  ultimately show ?thesis unfolding w0_def by blast
qed

theorem locks_never_block_witness:
  "\<exists>s. run some_step (unlocked (new_session 2 (new_recorder None ''s''))) s \<and> lk_owner s RecorderLock = Some Reader \<and>
     live (Pump 3) (lk_world s) \<and> \<not> (\<exists>s'. locked_step (Pump 3) s s') \<and> (\<exists>u s'. u \<noteq> Pump 3 \<and> locked_step u s s')"
proof -
  let ?w0 = "new_session 2 (new_recorder None ''s'')"
  obtain w where w: "reachable ?w0 w" "w_reader w = RRecord ''hi''" "w_pumps w 3 = PRecord ''ls''"
    using typing_run by blast
  let ?s = "enter_block Reader RecorderLock (unlocked w)"
  have "run some_step (unlocked ?w0) (unlocked w)" by (rule unlocked_run[OF w(1) ids_ok_new])
  moreover have "locked_step Reader (unlocked w) ?s" by (rule enters[where ls = "[]"]) (simp_all add: w(2))
  then have "some_step (unlocked w) ?s" unfolding some_step_def by blast
  ultimately have run: "run some_step (unlocked ?w0) ?s" by (rule run.more)
  have s: "lk_owner ?s RecorderLock = Some Reader" "lk_world ?s = w" "lk_held ?s (Pump 3) = []"
    by (simp_all add: enter_block_def)
  have stuck: "\<not> (\<exists>s'. locked_step (Pump 3) ?s s')"
    using s w(3) by (auto elim!: locked_stepE simp: enter_block_def)
  have "live (Pump 3) (lk_world ?s)" using s(2) w(3) by simp
  moreover from this stuck have "\<exists>u s'. u \<noteq> Pump 3 \<and> locked_step u ?s s'"
    using locks_never_block[OF sample_session run, of _ _ "Pump 3"] by blast
  ultimately show ?thesis using run s(1) stuck by blast
qed



end
