(* ===== verification/Timing.thy ===== *)
theory Timing
  imports Vsock
begin

text \<open>
  How long \<open>connect_guest_port\<close> takes. \<open>Vsock\<close> takes the clock from the environment; here the clock is
  what the calls leave of it. A peer says how long each call on a socket would take, and
  \<open>settimeout(remaining)\<close> ends any one call after \<open>remaining\<close>: connecting, sending and every
  \<open>recv(1)\<close> have that long each.
\<close>

section \<open>A peer with delays\<close>

record peer =
  p_connect :: "rat \<times> bool" \<comment> \<open>the time until \<open>connect\<close> ends, and whether it succeeds\<close>
  p_send :: "rat \<times> bool"
  p_recvs :: "(rat \<times> recv) list" \<comment> \<open>after the last, the peer is silent\<close>

definition spent :: "rat \<Rightarrow> rat \<Rightarrow> rat" where
  \<comment> \<open>the time of a call that would take \<open>d\<close> on a socket with timeout \<open>r\<close>\<close>
  "spent r d = (if d < r then d else r)"

fun line_time :: "rat \<Rightarrow> nat \<Rightarrow> (rat \<times> recv) list \<Rightarrow> bytes \<Rightarrow> rat" where
  \<comment> \<open>the time \<open>recv_loop\<close> takes\<close>
  "line_time r max_bytes [] buf = (if length buf < max_bytes then r else 0)"
| "line_time r max_bytes ((d, ev) # evs) buf =
     (if length buf < max_bytes
      then spent r d +
        (if d < r
         then (case ev of
                 Byte b \<Rightarrow> if b = CHR 0x0A then 0 else line_time r max_bytes evs (buf @ [b])
               | _ \<Rightarrow> 0)
         else 0)
      else 0)"

fun punctual :: "rat \<Rightarrow> (rat \<times> recv) list \<Rightarrow> recv list" where
  \<comment> \<open>what the calls return: one that takes too long raises\<close>
  "punctual r [] = []"
| "punctual r ((d, ev) # evs) = (if d < r then ev # punctual r evs else [RecvError])"

definition succeeds :: "rat \<Rightarrow> rat \<times> bool \<Rightarrow> bool" where
  "succeeds r c \<longleftrightarrow> fst c < r \<and> snd c"

definition attempt_of :: "rat \<Rightarrow> rat \<Rightarrow> peer \<Rightarrow> attempt" where
  "attempt_of now r p = \<lparr> at_now = now,
     at_conn = (if \<not> succeeds r (p_connect p) then ConnectFails
                else if \<not> succeeds r (p_send p) then SendFails
                else Accepted (punctual r (p_recvs p))) \<rparr>"

definition attempt_time :: "rat \<Rightarrow> peer \<Rightarrow> rat" where
  "attempt_time r p = spent r (fst (p_connect p)) +
     (if \<not> succeeds r (p_connect p) then 0
      else spent r (fst (p_send p)) +
        (if \<not> succeeds r (p_send p) then 0 else line_time r 256 (p_recvs p) []))"

primrec clock :: "(nat \<Rightarrow> peer) \<Rightarrow> rat \<Rightarrow> rat \<Rightarrow> nat \<Rightarrow> rat" where
  \<comment> \<open>the clock when the loop starts over, if attempt after attempt ends in a retry\<close>
  "clock peers now deadline 0 = now"
| "clock peers now deadline (Suc i) =
     (let t = clock peers now deadline i
      in t + (if t < deadline then attempt_time (deadline - t) (peers i) else 0) + 1 / 20)"

definition timed_env :: "(nat \<Rightarrow> peer) \<Rightarrow> rat \<Rightarrow> rat \<Rightarrow> nat \<Rightarrow> attempt" where
  "timed_env peers now deadline i =
     (let t = clock peers now deadline i in attempt_of t (deadline - t) (peers i))"

definition end_time :: "(nat \<Rightarrow> peer) \<Rightarrow> rat \<Rightarrow> rat \<Rightarrow> nat \<Rightarrow> rat" where
  \<comment> \<open>the clock when the call ends, if round \<open>k\<close> decides\<close>
  "end_time peers now deadline k =
     (let t = clock peers now deadline k
      in if t < deadline then t + attempt_time (deadline - t) (peers k) else t)"

definition no_time_travel :: "peer \<Rightarrow> bool" where
  "no_time_travel p \<longleftrightarrow> 0 \<le> fst (p_connect p) \<and> 0 \<le> fst (p_send p) \<and> list_all (\<lambda>(d, ev). 0 \<le> d) (p_recvs p)"

section \<open>Bounds\<close>

lemma spent_bounds: "0 < r \<Longrightarrow> 0 \<le> d \<Longrightarrow> 0 \<le> spent r d \<and> spent r d \<le> r"
  by (simp add: spent_def)

lemma line_time_bounds:
  "0 < r \<Longrightarrow> list_all (\<lambda>(d, ev). 0 \<le> d) evs \<Longrightarrow> length buf \<le> n \<Longrightarrow>
     0 \<le> line_time r n evs buf \<and> line_time r n evs buf \<le> of_nat (n - length buf) * r"
proof (induction r n evs buf rule: line_time.induct)
  case (1 r n buf)
  then have "length buf < n \<Longrightarrow> r \<le> of_nat (n - length buf) * r" by simp
  with 1 show ?case by simp
next
  case (2 r n d ev evs buf)
  show ?case
  proof (cases "length buf < n")
    case True
    then have n: "n - length buf = Suc (n - Suc (length buf))" by simp
    have s: "0 \<le> spent r d" "spent r d \<le> r" using spent_bounds[of r d] 2 by simp_all
    have more: "0 \<le> of_nat (n - Suc (length buf)) * r" using 2(2) by simp
    show ?thesis
    proof (cases "d < r \<and> (\<exists>b. ev = Byte b \<and> b \<noteq> CHR 0x0A)")
      case next_byte: True
      then obtain b where b: "ev = Byte b" "b \<noteq> CHR 0x0A" "d < r" by blast
      have "0 \<le> line_time r n evs (buf @ [b]) \<and> line_time r n evs (buf @ [b]) \<le> of_nat (n - length (buf @ [b])) * r"
        using 2(1)[OF True b(3,1,2)] 2(2,3) True by simp
      with b True s show ?thesis by (simp add: n algebra_simps)
    next
      case False
      then have one: "line_time r n ((d, ev) # evs) buf = spent r d"
        using True by (auto split: recv.split)
      have "of_nat (n - length buf) * r = r + of_nat (n - Suc (length buf)) * r" by (simp add: n algebra_simps)
      with s more show ?thesis unfolding one by linarith
    qed
  next
    case False
    then show ?thesis using 2(2) by simp
  qed
qed

lemma attempt_time_bounds:
  assumes "0 < r" "no_time_travel p"
  shows "0 \<le> attempt_time r p" "attempt_time r p \<le> 258 * r"
proof -
  have line: "0 \<le> line_time r 256 (p_recvs p) [] \<and> line_time r 256 (p_recvs p) [] \<le> 256 * r"
    using line_time_bounds[OF assms(1), of "p_recvs p" "[]" 256] assms(2) by (simp add: no_time_travel_def)
  have "0 \<le> spent r (fst (p_connect p)) \<and> spent r (fst (p_connect p)) \<le> r"
    "0 \<le> spent r (fst (p_send p)) \<and> spent r (fst (p_send p)) \<le> r"
    using spent_bounds[OF assms(1)] assms(2) by (simp_all add: no_time_travel_def)
  with line assms(1) show "0 \<le> attempt_time r p" "attempt_time r p \<le> 258 * r"
    by (auto simp: attempt_time_def)
qed

lemma clock_advances:
  assumes "\<forall>i. no_time_travel (peers i)"
  shows "clock peers now deadline i + 1 / 20 \<le> clock peers now deadline (Suc i)"
  using attempt_time_bounds(1)[of "deadline - clock peers now deadline i" "peers i"] assms
  by (simp add: Let_def)

lemma timed_advancing:
  assumes "\<forall>i. no_time_travel (peers i)"
  shows "advancing (timed_env peers now deadline) now"
  using clock_advances[OF assms] by (simp add: advancing_def timed_env_def attempt_of_def Let_def)

lemma clock_after_now:
  assumes "\<forall>i. no_time_travel (peers i)"
  shows "now \<le> clock peers now deadline i"
proof (induction i)
  case (Suc i)
  with clock_advances[OF assms, of now deadline i] show ?case by linarith
qed simp

lemma attempt_end:
  assumes "\<forall>i. no_time_travel (peers i)" "clock peers now deadline i < deadline"
  shows "clock peers now deadline i + attempt_time (deadline - clock peers now deadline i) (peers i) \<le>
    now + 258 * (deadline - now)"
proof -
  let ?t = "clock peers now deadline i"
  have "now \<le> ?t" by (rule clock_after_now[OF assms(1)])
  moreover have "attempt_time (deadline - ?t) (peers i) \<le> 258 * (deadline - ?t)"
    using attempt_time_bounds(2)[of "deadline - ?t" "peers i"] assms by simp
  ultimately show ?thesis by (simp add: algebra_simps)
qed

section \<open>Properties\<close>

text \<open>
  C19. \<open>connect_guest_port\<close> returns, and when. Whatever each call on each socket would take, the result is
  that of the deciding round: the first that starts at the deadline or later, or whose attempt does
  not end in a retry. It is one of the first \<open>\<lceil>20 * timeout\<rceil>\<close> and one, and the call ends in it no later
  than 258 times the timeout, and one pause of a twentieth of a second, after it was made: every
  attempt has 258 calls with a timeout of their own.
\<close>

theorem connect_time_bound:
  assumes "\<forall>i. no_time_travel (peers i)" "0 \<le> timeout" "max_attempts timeout < fuel"
  shows "\<exists>k calls. k \<le> max_attempts timeout \<and>
    decided (timed_env peers now (now + timeout)) port (now + timeout) k \<and>
    connect_guest_port fuel (timed_env peers now (now + timeout)) now path port timeout =
      Some (decision (timed_env peers now (now + timeout)) port timeout (now + timeout) k, calls) \<and>
    now \<le> end_time peers now (now + timeout) k \<and>
    end_time peers now (now + timeout) k \<le> now + 258 * timeout + 1 / 20"
proof -
  let ?D = "now + timeout" and ?c = "clock peers now (now + timeout)"
  obtain k where k: "k \<le> max_attempts timeout" "decided (timed_env peers now ?D) port ?D k"
    using advancing_decided[OF timed_advancing[OF assms(1)]] by blast
  then obtain calls where run: "connect_guest_port fuel (timed_env peers now ?D) now path port timeout =
      Some (decision (timed_env peers now ?D) port timeout ?D k, calls)"
    using connect_decided assms(3) by (meson le_less_trans)
  have early: "?c i < ?D" if "i < k" for i
    using k(2) that by (simp add: decided_def retries_def timed_env_def attempt_of_def Let_def)
  have "now \<le> ?c k" by (rule clock_after_now[OF assms(1)])
  then have start: "now \<le> end_time peers now ?D k"
    using attempt_time_bounds(1)[of "?D - ?c k" "peers k"] assms(1) by (auto simp: end_time_def Let_def)
  have "end_time peers now ?D k \<le> now + 258 * timeout + 1 / 20"
  proof (cases "?c k < ?D")
    case True
    then show ?thesis using attempt_end[OF assms(1) True] by (simp add: end_time_def Let_def)
  next
    case late: False
    show ?thesis
    proof (cases k)
      case 0
      then show ?thesis using assms(2) late by (simp add: end_time_def Let_def)
    next
      case (Suc j)
      then show ?thesis using late early[of j] attempt_end[OF assms(1), of now ?D j] by (simp add: end_time_def Let_def)
    qed
  qed
  with k run start show ?thesis by blast
qed

definition slow_peer :: "rat \<Rightarrow> peer" where
  \<comment> \<open>a blank at a time, each just before the timeout of the call\<close>
  "slow_peer timeout = \<lparr> p_connect = (0, True), p_send = (0, True),
     p_recvs = replicate 256 (255 / 256 * timeout, Byte (CHR '' '')) \<rparr>"

definition absent_peer :: peer where
  \<comment> \<open>nobody listens: connecting fails at once\<close>
  "absent_peer = \<lparr> p_connect = (0, False), p_send = (0, False), p_recvs = [] \<rparr>"

lemma absent_retries: "attempt_outcome port (timed_env (\<lambda>_. absent_peer) now deadline i) = Retry OsErr"
  by (simp add: timed_env_def attempt_of_def absent_peer_def succeeds_def attempt_outcome_def Let_def)

lemma absent_clock: "clock (\<lambda>_. absent_peer) 0 (1 / 10) i = of_nat i / 20"
  by (induction i) (simp_all add: Let_def absent_peer_def attempt_time_def succeeds_def spent_def field_simps)

theorem connect_time_bound_witness:
  "\<exists>calls. connect_guest_port 3 (timed_env (\<lambda>_. absent_peer) 0 (0 + 1 / 10)) 0 ''/v.sock'' 22 (1 / 10) =
       Some (Inl (TimedOut 22 (1 / 10) (Some OsErr)), calls) \<and>
     end_time (\<lambda>_. absent_peer) 0 (0 + 1 / 10) 2 = 1 / 10"
proof -
  let ?env = "timed_env (\<lambda>_. absent_peer) 0 (0 + 1 / 10)"
  have slow: "\<forall>i. no_time_travel ((\<lambda>_::nat. absent_peer) i)" by (simp add: no_time_travel_def absent_peer_def)
  have most: "max_attempts (1 / 10) = 2" by (simp add: max_attempts_def)
  from connect_time_bound[OF slow, of "1 / 10" 3 0 22 "''/v.sock''"]
  obtain k calls where k: "k \<le> 2" "decided ?env 22 (0 + 1 / 10) k"
    and run: "connect_guest_port 3 ?env 0 ''/v.sock'' 22 (1 / 10) = Some (decision ?env 22 (1 / 10) (0 + 1 / 10) k, calls)"
    unfolding most by auto
  have now: "at_now (timed_env (\<lambda>_. absent_peer) 0 (1 / 10) i) = of_nat i / 20" for i
    using absent_clock[of i] by (simp add: timed_env_def attempt_of_def Let_def)
  have "\<not> k < 2" using k(2) by (auto simp: decided_def now absent_retries dest!: less_2_cases)
  with k(1) have "k = 2" by simp
  moreover have "last_cause ?env 22 2 = Some OsErr"
    using absent_retries[of 22 0 "0 + 1 / 10" 1] by (simp add: last_cause_def numeral_2_eq_2)
  then have "decision ?env 22 (1 / 10) (0 + 1 / 10) 2 = Inl (TimedOut 22 (1 / 10) (Some OsErr))"
    by (simp add: decision_def now)
  moreover have "end_time (\<lambda>_. absent_peer) 0 (0 + 1 / 10) 2 = 1 / 10"
    by (simp add: end_time_def absent_clock Let_def)
  ultimately show ?thesis using run by simp
qed

lemma drip_time: "d < r \<Longrightarrow> b \<noteq> CHR 0x0A \<Longrightarrow> length buf + m = n \<Longrightarrow>
    line_time r n (replicate m (d, Byte b)) buf = of_nat m * d"
  by (induction m arbitrary: buf) (simp_all add: spent_def algebra_simps)

lemma drip_recv: "b \<noteq> CHR 0x0A \<Longrightarrow> length buf + m = n \<Longrightarrow>
    recv_loop n (replicate m (Byte b)) buf = (Inr (buf @ replicate m b), [])"
  by (induction m arbitrary: buf) (simp_all add: replicate_app_Cons_same)

lemma drip_punctual: "d < r \<Longrightarrow> punctual r (replicate m (d, ev)) = replicate m ev"
  by (induction m) simp_all

lemma blanks_malformed: "\<not> reply_ok (replicate m (CHR '' ''))"
proof -
  have "bytes_split (replicate m (CHR '' '')) = []"
    using split_blanks_front[of "CHR '' ''" m "[]"] by (simp add: bytes_split_def)
  then show ?thesis by (simp add: reply_ok_def)
qed

text \<open>
  C37. The timeout is not one for the call. It holds for each operation on a socket, so a peer that sends
  one byte at a time, each just in time, keeps \<open>connect_guest_port\<close> for 255 times the timeout, in its
  first attempt, before the reply is refused.
\<close>

theorem connect_outlasts_timeout:
  assumes "0 < timeout" "0 < fuel"
  shows "fst (the (connect_guest_port fuel (timed_env (\<lambda>_. slow_peer timeout) now (now + timeout)) now path port timeout)) =
      Inl (Malformed (replicate 256 (CHR '' ''))) \<and>
    end_time (\<lambda>_. slow_peer timeout) now (now + timeout) 0 = now + 255 * timeout"
proof -
  let ?env = "timed_env (\<lambda>_. slow_peer timeout) now (now + timeout)" and ?d = "255 / 256 * timeout"
  have d: "?d < timeout" using assms(1) by simp
  have at: "at_now (?env 0) = now" "at_conn (?env 0) = Accepted (replicate 256 (Byte (CHR '' '')))"
    using assms(1) drip_punctual[OF d, of 256]
    by (simp_all add: timed_env_def attempt_of_def succeeds_def slow_peer_def)
  have "recv_loop 256 (replicate 256 (Byte (CHR '' ''))) [] = (Inr (replicate 256 (CHR '' '')), [])"
    using drip_recv[of "CHR '' ''" "[]" 256 256] by simp
  then have out: "attempt_outcome port (?env 0) = Refuse (Malformed (replicate 256 (CHR '' '')))"
    using blanks_malformed[of 256] by (simp add: attempt_outcome_def at recv_handshake_line_def)
  then have "decided ?env port (now + timeout) 0" by (simp add: decided_def retries_def)
  moreover have "decision ?env port timeout (now + timeout) 0 = Inl (Malformed (replicate 256 (CHR '' '')))"
    using assms(1) out at(1) by (simp add: decision_def)
  ultimately have "fst (the (connect_guest_port fuel ?env now path port timeout)) = Inl (Malformed (replicate 256 (CHR '' '')))"
    using connect_decided[of ?env port now timeout 0 fuel path] assms(2) by auto
  moreover have "line_time timeout 256 (replicate 256 (?d, Byte (CHR '' ''))) [] = 255 * timeout"
    using drip_time[OF d, of "CHR '' ''" "[]" 256 256] by simp
  then have "end_time (\<lambda>_. slow_peer timeout) now (now + timeout) 0 = now + 255 * timeout"
    using assms(1) by (simp add: end_time_def attempt_time_def succeeds_def spent_def slow_peer_def)
  ultimately show ?thesis by blast
qed

theorem connect_outlasts_timeout_witness:
  "end_time (\<lambda>_. slow_peer 10) 0 (0 + 10) 0 = 0 + 255 * 10"
  using connect_outlasts_timeout[of 10 1 0] by simp

end
