(* ===== verification/Cli.thy ===== *)
theory Cli
  imports Prelude
begin

text \<open>
  The command line (cli.py, and the version in __init__.py). The package click is an argument: given the
  declared options, the decorated function and the arguments of a call, it returns the exit code and
  the output. \<open>version_law\<close> is what click documents of \<open>version_option\<close>.
\<close>

datatype decl = VersionOption pystr pystr \<comment> \<open>version, program name\<close>

type_synonym click = "decl list \<Rightarrow> pystr \<Rightarrow> pystr list \<Rightarrow> int \<times> pystr" \<comment> \<open>options, output of the function, arguments\<close>

definition version :: pystr where
  "version = ''0.0.1''"

definition main_options :: "decl list" where
  "main_options = [VersionOption version ''agentvm'']"

definition main_output :: pystr where
  \<comment> \<open>the body of \<open>main\<close> is \<open>pass\<close>\<close>
  "main_output = ''''"

definition main :: "click \<Rightarrow> pystr list \<Rightarrow> int \<times> pystr" where
  "main click args = click main_options main_output args"

definition version_law :: "click \<Rightarrow> bool" where
  "version_law click \<longleftrightarrow> (\<forall>v prog out.
     click [VersionOption v prog] out [''--version''] = (0, prog @ '', version '' @ v @ [CHR 0x0A]))"

lemma test_version_flag_prints_version_and_exits_zero:
  assumes "version_law click"
  shows "\<exists>out. main click [''--version''] = (0, out) \<and> sublist version out"
proof -
  have "main click [''--version''] = (0, ''agentvm, version '' @ version @ [CHR 0x0A])"
    using assms by (simp add: version_law_def main_def main_options_def)
  then show ?thesis using sublist_appendI by blast
qed

definition sample_click :: click where
  "sample_click opts out args =
     (case opts of [VersionOption v prog] \<Rightarrow>
        if args = [''--version''] then (0, prog @ '', version '' @ v @ [CHR 0x0A])
        else if args = [] then (0, out) else (2, ''Error'')
      | _ \<Rightarrow> (2, ''Error''))"

lemma sample_click_law: "version_law sample_click" "main sample_click [] = (0, '''')"
  by (simp_all add: version_law_def sample_click_def main_def main_options_def main_output_def)

end
