(* ===== verification/Spec2Isabelle.thy ===== *)
theory Spec2Isabelle
  imports Proxy Examples HostExamples Locks Timing Cli
begin

text \<open>
  A verification of the Python programs of a-box.

  The repository configures hosts that run untrusted guests. Two of its parts are programs of their own.
  The guest proxy (src/modules/guest-proxy: guard.py, addon.py) is a mitmproxy addon, one per guest, that
  lets a guest reach the destinations of its policy only, puts credentials the guest never sees into its
  requests, and logs every flow. The agent-vm host (src/archive/agent-vm/host/src/agentvm: firecracker.py,
  vsock_bridge.py, session_manager.py, ports.py, cli.py) boots a microVM, connects to its terminal over
  vsock, records all traffic and lets any number of clients attach.

  The guest proxy. \<open>Regex\<close>: regular expressions and their matcher by derivatives.
  \<open>Hosts\<close>: \<open>normalize_host\<close>, \<open>is_ip_literal\<close>.
  \<open>Entries\<close>: the pattern \<open>ENTRY\<close>, the class \<open>Entry\<close>,
  \<open>parse_entry\<close>. \<open>Policies\<close>: the class \<open>Policy\<close>.
  \<open>Secrets\<close>: \<open>read_secrets\<close>. \<open>Flows\<close>: the log line of a flow.
  \<open>Guards\<close>: the class \<open>Guard\<close> with its hooks. \<open>Startup\<close>:
  \<open>from_environment\<close>, \<open>sd_notify\<close>, logging and addon.py.
  \<open>Confidentiality\<close>: what the values of the credentials influence. \<open>Proxy\<close>: many
  flows at once, and the text the logger \<open>setup_logging\<close> set up writes to stderr.
  \<open>Examples\<close>: the cases of test_guard.py on the model. A flow of mitmproxy is a record; its
  header collection, response constructor and \<open>pretty_host\<close> are fields of a parameter, with
  the laws they are documented to satisfy (\<open>header_laws\<close>, \<open>response_laws\<close>,
  \<open>host_law\<close>) as hypotheses. Files are a function from paths to bytes or an exception; the
  JSON parser is a parameter. Exceptions are values of the datatype \<open>exn\<close>.

  The agent-vm host. \<open>Ports\<close>: the port numbers on both sides. \<open>Vsock\<close>:
  \<open>connect_guest_port\<close>; \<open>Timing\<close>: how long it takes. \<open>Base64\<close>,
  \<open>Recorder\<close>: the transcript. \<open>Hub\<close>: the attach hub and the pumps, one operation
  at a time. \<open>Systems\<close>: state machines and their invariants. \<open>Sessions\<close>: a
  session with its threads as a step relation; \<open>SessionRuns\<close>: the operations of the hub as
  runs of it; \<open>Locks\<close>: the same threads with the two locks as state. \<open>Unicode\<close>,
  \<open>Polling\<close>, \<open>Firecracker\<close>: the launcher; \<open>Launches\<close>: any sequence
  of its calls, with the processes it spawns and the console log they share. \<open>Cli\<close>: the
  command line, over the package click as a parameter. \<open>HostExamples\<close>: the cases of the
  host's unit tests on the model. Clocks are rational numbers; what the outside does (the reply bytes, the
  rounds of a wait, the answers of the API) is a function of the number of the attempt or round, so every
  theorem holds for every behaviour.

  What the lemmas show. For the proxy: what is allowed, by string operations as the code decides it and by
  labels; that no form of an IP address is; that a request is forwarded exactly if its destination is
  allowed and its Host header agrees, with which headers; that a credential is put only into requests to
  the hosts of its entries, and has no influence on the log, the responses and the decisions; that any
  exception blocks the flow; that a guard that started has no failing check; and that stderr has at most
  one whole line per flow, of eight fields the guest cannot forge. For the host: that connecting
  terminates, in a multiple of its timeout, leaks no socket and reads no byte beyond the handshake line;
  that the transcript loses nothing, and a write that fails partway damages one line only; that in any
  interleaving of the threads a client sees the recorded output without gaps and the guest receives only
  recorded bytes; that the sequential operations are such interleavings; that a block under a lock may be
  taken as one step, and no thread holds a lock while it waits for a peer, or for more than two of its
  steps; that a start either boots a fully configured machine or, once the process was spawned, leaves
  neither process nor open log behind; and that over any number of launches no process is lost and the log
  keeps what earlier ones printed, so that it may also be taken for the output of the new one.

  Interfaces. \<open>ranked_pick\<close> is what \<open>lookup\<close> needs of \<open>max\<close> with a
  key; \<open>flow_check\<close> what the hooks need of a check; \<open>append_log\<close> what the hub
  needs of the recorder; \<open>first_decision\<close> what a wait needs of its loop;
  \<open>invariant_system\<close> and \<open>invariant_pair\<close> what reachability needs of an
  invariant. Each is interpreted on the definitions of the model.

  Fuel. The loops of \<open>connect_guest_port\<close> and \<open>_poll_until\<close> depend on the clock
  and take a bound on their rounds, \<open>None\<close> being the answer when it is used up. With a clock
  that advances by the pause between rounds, \<open>\<lceil>timeout / pause\<rceil>\<close> rounds are
  enough (\<open>connect_terminates\<close>, \<open>waiting_is_bounded\<close>,
  \<open>start_returns\<close>), and a larger bound never changes an answer.

  Text. A \<open>str\<close> is a list of code points below 256, which is where host names, paths and
  headers are compared; the console log, which is decoded from arbitrary bytes, has natural numbers for
  code points. Python's integers are \<open>int\<close>; the port numbers of the guest are 32 bit words.

  Not modelled. The modification time of the transcript, on which no code of the repository depends yet.
  In the threads' step relation a disk that fails while it writes: opening the transcript may fail there,
  but a line is written whole (\<open>Recorder\<close> treats one that is not,
  \<open>torn_write_contained\<close>). Logging and creating sockets and files succeed, so a transcript
  that cannot be created, whose error leaves the constructor with its connection made, is not seen. A
  session that is started twice, or started after it was closed; closing it again has no effect
  (\<open>close_again\<close>). Python's floating point: clocks and timeouts are exact. The encoding of
  the locale, with which the console log is read: it is taken to be UTF-8. Exceptions that are no
  \<open>Exception\<close> (an interrupt). The code of the tests (their cases are evaluated), and
  everything in other languages: the host configuration in Nix, the updater in shell, the guest's init in
  Rust, the eBPF loader in C.
\<close>

end
